(* ===== verification/Prelude.thy ===== *)
theory Prelude
  imports Main "HOL-Library.Word"
begin

text \<open>
  Shared vocabulary of the development: the machine integer types of the C code, C strings and
  the \<^verbatim>\<open>ctype.h\<close> / \<^verbatim>\<open>string.h\<close> functions the modelled sources use, and the generic lemmas on
  lists and words that the component theories share.  A C string is the list of its characters
  before the terminating NUL; a pointer into a string is the list of the characters from it on.
\<close>

unbundle bit_operations_syntax

type_synonym u8 = "8 word"
type_synonym u32 = "32 word"
type_synonym u64 = "64 word"
type_synonym i32 = "32 word"

text \<open>Collections: facts that evaluate the small C library functions, and facts that carry a
  component invariant through one operation.\<close>

named_theorems c_lib \<open>unfolding of the C library helpers\<close>
named_theorems inv_pres \<open>preservation of a component invariant by an operation\<close>

subsection \<open>Characters\<close>

definition NUL :: char where "NUL = CHR 0x00"
definition LF :: char where "LF = CHR 0x0A"
definition TAB :: char where "TAB = CHR 0x09"
definition CR :: char where "CR = CHR 0x0D"

lemmas char_consts = NUL_def LF_def TAB_def CR_def

text \<open>\<^verbatim>\<open>isspace\<close>, \<^verbatim>\<open>isalpha\<close>, \<^verbatim>\<open>isdigit\<close> and \<^verbatim>\<open>isalnum\<close> of the C locale.\<close>

definition c_isspace :: "char \<Rightarrow> bool" where
  "c_isspace c = (of_char c = (32 :: nat) \<or> (9 \<le> (of_char c :: nat) \<and> (of_char c :: nat) \<le> 13))"

definition c_isdigit :: "char \<Rightarrow> bool" where
  "c_isdigit c = (48 \<le> (of_char c :: nat) \<and> (of_char c :: nat) \<le> 57)"

definition c_isalpha :: "char \<Rightarrow> bool" where
  "c_isalpha c =
     ((65 \<le> (of_char c :: nat) \<and> (of_char c :: nat) \<le> 90) \<or>
      (97 \<le> (of_char c :: nat) \<and> (of_char c :: nat) \<le> 122))"

definition c_isalnum :: "char \<Rightarrow> bool" where
  "c_isalnum c = (c_isalpha c \<or> c_isdigit c)"

declare c_isspace_def [c_lib] c_isdigit_def [c_lib] c_isalpha_def [c_lib] c_isalnum_def [c_lib]

subsection \<open>C strings\<close>

text \<open>The C string at the start of a buffer.\<close>

definition cstr :: "char list \<Rightarrow> string" where
  "cstr b = takeWhile (\<lambda>c. c \<noteq> NUL) b"

text \<open>\<open>has_prefix p s\<close>: \<^verbatim>\<open>strncmp(s, p, strlen(p)) == 0\<close>.\<close>

definition has_prefix :: "string \<Rightarrow> string \<Rightarrow> bool" where
  "has_prefix p s = (take (length p) s = p)"

text \<open>\<^verbatim>\<open>strchr\<close>: the string from the first occurrence on.\<close>

fun strchr :: "string \<Rightarrow> char \<Rightarrow> string option" where
  "strchr [] c = None"
| "strchr (x # xs) c = (if x = c then Some (x # xs) else strchr xs c)"

lemma cstr_Nil [simp]: "cstr [] = []"
  by (simp add: cstr_def)

lemma cstr_Cons: "cstr (c # cs) = (if c = NUL then [] else c # cstr cs)"
  by (simp add: cstr_def)

lemma cstr_NUL [simp]: "cstr (NUL # cs) = []"
  by (simp add: cstr_def)

lemma cstr_append_NUL [simp]: "NUL \<notin> set s \<Longrightarrow> cstr (s @ NUL # r) = s"
  by (induction s) (auto simp: cstr_Cons)

lemma cstr_no_NUL: "NUL \<notin> set (cstr b)"
  by (auto simp: cstr_def dest: set_takeWhileD)

lemma has_prefix_append [simp]: "has_prefix p (p @ s)"
  by (simp add: has_prefix_def)

lemma has_prefix_iff: "has_prefix p s \<longleftrightarrow> (\<exists>r. s = p @ r)"
  by (auto simp: has_prefix_def) (metis append_take_drop_id)

lemma strchr_None_iff: "strchr s c = None \<longleftrightarrow> c \<notin> set s"
  by (induction s) auto

lemma strchr_Some_iff:
  "strchr s c = Some r \<longleftrightarrow> (\<exists>p t. s = p @ c # t \<and> c \<notin> set p \<and> r = c # t)"
proof (induction s)
  case Nil
  then show ?case by simp
next
  case (Cons x xs)
  show ?case
  proof (cases "x = c")
    case True
    then show ?thesis by (auto simp: Cons_eq_append_conv)
  next
    case False
    with Cons show ?thesis by (auto simp: Cons_eq_append_conv)
  qed
qed

lemma strchr_append: "c \<notin> set p \<Longrightarrow> strchr (p @ c # t) c = Some (c # t)"
  by (induction p) auto

subsection \<open>Lists\<close>

lemma dropWhile_eq_append:
  "\<forall>x \<in> set xs. P x \<Longrightarrow> ys = [] \<or> \<not> P (hd ys) \<Longrightarrow> dropWhile P (xs @ ys) = ys"
  by (induction xs) (auto simp: dropWhile_eq_self_iff)

lemma takeWhile_eq_append:
  "\<forall>x \<in> set xs. P x \<Longrightarrow> ys = [] \<or> \<not> P (hd ys) \<Longrightarrow> takeWhile P (xs @ ys) = xs"
  by (induction xs) (auto simp: takeWhile_eq_Nil_iff)

lemma find_SomeD: "List.find P xs = Some x \<Longrightarrow> x \<in> set xs \<and> P x"
  by (induction xs) (auto split: if_splits)

lemma in_set_concat_nth: "x \<in> set (concat B) \<longleftrightarrow> (\<exists>i < length B. x \<in> set (B ! i))"
  unfolding set_concat by (auto simp: set_conv_nth [of B])

lemma replicate_update_same [simp]: "(replicate n x)[i := x] = replicate n x"
proof (rule nth_equalityI)
  fix k assume "k < length ((replicate n x)[i := x])"
  then show "(replicate n x)[i := x] ! k = replicate n x ! k"
    by (cases "k = i") auto
qed simp

text \<open>A loop that writes the first \<open>n\<close> cells of an array.\<close>

lemma fold_update:
  assumes "n \<le> length xs"
  shows "fold (\<lambda>i xs. xs[i := f i]) [0..<n] xs = map f [0..<n] @ drop n xs"
  using assms
proof (induction n)
  case (Suc n)
  then have "fold (\<lambda>i xs. xs[i := f i]) [0..<Suc n] xs = (map f [0..<n] @ drop n xs)[n := f n]" by simp
  also have "drop n xs = xs ! n # drop (Suc n) xs" using Suc.prems by (simp add: Cons_nth_drop_Suc)
  finally show ?case by (simp add: list_update_append)
qed simp

subsection \<open>Words\<close>

lemma unat_of_nat_lt: "n < 2 ^ LENGTH('a::len) \<Longrightarrow> unat (of_nat n :: 'a word) = n"
  by (simp add: unat_of_nat take_bit_nat_eq_self)


section \<open>Number parsing of the C library\<close>

definition digit_val :: "char \<Rightarrow> nat" where
  "digit_val c =
     (if c_isdigit c then of_char c - 48
      else if 97 \<le> (of_char c :: nat) \<and> (of_char c :: nat) \<le> 122 then of_char c - 87
      else if 65 \<le> (of_char c :: nat) \<and> (of_char c :: nat) \<le> 90 then of_char c - 55
      else 36)"

definition digits_value :: "nat \<Rightarrow> string \<Rightarrow> nat" where
  "digits_value base s = foldl (\<lambda>v c. v * base + digit_val c) 0 (takeWhile (\<lambda>c. digit_val c < base) s)"

definition strip_sign :: "string \<Rightarrow> bool \<times> string" where
  "strip_sign s =
     (case s of
        c # cs \<Rightarrow> if c = CHR ''-'' then (True, cs) else if c = CHR ''+'' then (False, cs) else (False, s)
      | [] \<Rightarrow> (False, s))"

text \<open>\<^verbatim>\<open>strtoul(s, 0, base)\<close> with a 32-bit \<^verbatim>\<open>unsigned long\<close>: the value and whether \<^verbatim>\<open>errno\<close> is set to
  \<^verbatim>\<open>ERANGE\<close>.\<close>

definition strtoul :: "string \<Rightarrow> nat \<Rightarrow> u32 \<times> bool" where
  "strtoul s base =
     (let (neg, s) = strip_sign (dropWhile c_isspace s);
          hex = (base = 0 \<or> base = 16) \<and> (take 2 s = ''0x'' \<or> take 2 s = ''0X'');
          base = (if hex then 16 else if base = 0 then (if take 1 s = ''0'' then 8 else 10) else base);
          v = digits_value base (if hex then drop 2 s else s)
      in if v > 4294967295 then (4294967295, True)
         else (if neg then - of_nat v else of_nat v, False))"

text \<open>\<^verbatim>\<open>atoi\<close>, which is \<^verbatim>\<open>strtol\<close> to base 10: the value is clamped to the range of \<^verbatim>\<open>long\<close>.\<close>

definition atoi :: "string \<Rightarrow> int" where
  "atoi s =
     (let (neg, s) = strip_sign (dropWhile c_isspace s);
          v = int (digits_value 10 s);
          v = (if neg then - v else v)
      in if v > 2147483647 then 2147483647 else if v < - 2147483648 then - 2147483648 else v)"

section \<open>Signed C integers\<close>

text \<open>A 32-bit \<^verbatim>\<open>int\<close> is an \<open>int\<close>; \<open>c_int\<close> is the wrap-around of an arithmetic result.\<close>

definition c_int :: "int \<Rightarrow> int" where
  "c_int n = signed_take_bit 31 n"

lemma c_int_id [simp]: "- (2 ^ 31) \<le> n \<Longrightarrow> n < 2 ^ 31 \<Longrightarrow> c_int n = n"
  by (simp add: c_int_def signed_take_bit_int_eq_self)

lemma c_int_range: "- (2 ^ 31) \<le> c_int n" "c_int n < 2 ^ 31"
  using signed_take_bit_int_greater_eq_minus_exp [of 31 n] signed_take_bit_int_less_exp [of 31 n]
  by (auto simp: c_int_def)

section \<open>Runs of operations and their specification\<close>

text \<open>A component is a set of operations on a state, each with an output.  \<open>run_ops\<close> executes a sequence
  of them; \<open>spec_ops\<close> says that a sequence of outputs and a final abstract state are allowed by a
  specification, given as a relation between the abstract states around one operation.\<close>

fun run_ops :: "('op \<Rightarrow> 's \<Rightarrow> 'out \<times> 's) \<Rightarrow> 'op list \<Rightarrow> 's \<Rightarrow> 'out list \<times> 's" where
  "run_ops step [] s = ([], s)"
| "run_ops step (op # ops) s =
     (let (out, s') = step op s; (outs, s'') = run_ops step ops s' in (out # outs, s''))"

fun spec_ops :: "('op \<Rightarrow> 'a \<Rightarrow> 'out \<Rightarrow> 'a \<Rightarrow> bool) \<Rightarrow> 'op list \<Rightarrow> 'a \<Rightarrow> 'out list \<Rightarrow> 'a \<Rightarrow> bool" where
  "spec_ops spec [] a outs a' = (outs = [] \<and> a' = a)"
| "spec_ops spec (op # ops) a [] a' = False"
| "spec_ops spec (op # ops) a (out # outs) a' = (\<exists>b. spec op a out b \<and> spec_ops spec ops b outs a')"

text \<open>The interface of a component that implements a specification through an abstraction function.\<close>

locale simulation =
  fixes inv :: "'s \<Rightarrow> bool"
    and abs :: "'s \<Rightarrow> 'a"
    and step :: "'op \<Rightarrow> 's \<Rightarrow> 'out \<times> 's"
    and spec :: "'op \<Rightarrow> 'a \<Rightarrow> 'out \<Rightarrow> 'a \<Rightarrow> bool"
  assumes step_inv: "inv s \<Longrightarrow> step op s = (out, s') \<Longrightarrow> inv s'"
    and step_spec: "inv s \<Longrightarrow> step op s = (out, s') \<Longrightarrow> spec op (abs s) out (abs s')"
begin

lemma run_inv: "inv s \<Longrightarrow> run_ops step ops s = (outs, s') \<Longrightarrow> inv s'"
  by (induction ops arbitrary: s outs) (auto split: prod.splits dest: step_inv)

lemma run_spec: "inv s \<Longrightarrow> run_ops step ops s = (outs, s') \<Longrightarrow> spec_ops spec ops (abs s) outs (abs s')"
proof (induction ops arbitrary: s outs)
  case (Cons op ops)
  then show ?case
    by (fastforce split: prod.splits dest: step_inv step_spec)
qed simp

end

end
