(* ===== verification/Android_Ids.thy ===== *)
theory Android_Ids
  imports Prelude
begin

text \<open>
  \<^verbatim>\<open>src/core/include/private/android_filesystem_config.h\<close>: the fixed user and group ids, their names, and the
  tables that give owner, group and mode of the files of a system image, with the lookup \<^verbatim>\<open>fs_config\<close>.
\<close>

abbreviation (input) AID_ROOT :: u32 where "AID_ROOT \<equiv> 0"
abbreviation (input) AID_SYSTEM :: u32 where "AID_SYSTEM \<equiv> 1000"
abbreviation (input) AID_RADIO :: u32 where "AID_RADIO \<equiv> 1001"
abbreviation (input) AID_BLUETOOTH :: u32 where "AID_BLUETOOTH \<equiv> 1002"
abbreviation (input) AID_GRAPHICS :: u32 where "AID_GRAPHICS \<equiv> 1003"
abbreviation (input) AID_INPUT :: u32 where "AID_INPUT \<equiv> 1004"
abbreviation (input) AID_AUDIO :: u32 where "AID_AUDIO \<equiv> 1005"
abbreviation (input) AID_CAMERA :: u32 where "AID_CAMERA \<equiv> 1006"
abbreviation (input) AID_LOG :: u32 where "AID_LOG \<equiv> 1007"
abbreviation (input) AID_COMPASS :: u32 where "AID_COMPASS \<equiv> 1008"
abbreviation (input) AID_MOUNT :: u32 where "AID_MOUNT \<equiv> 1009"
abbreviation (input) AID_WIFI :: u32 where "AID_WIFI \<equiv> 1010"
abbreviation (input) AID_ADB :: u32 where "AID_ADB \<equiv> 1011"
abbreviation (input) AID_INSTALL :: u32 where "AID_INSTALL \<equiv> 1012"
abbreviation (input) AID_MEDIA :: u32 where "AID_MEDIA \<equiv> 1013"
abbreviation (input) AID_DHCP :: u32 where "AID_DHCP \<equiv> 1014"
abbreviation (input) AID_SDCARD_RW :: u32 where "AID_SDCARD_RW \<equiv> 1015"
abbreviation (input) AID_VPN :: u32 where "AID_VPN \<equiv> 1016"
abbreviation (input) AID_KEYSTORE :: u32 where "AID_KEYSTORE \<equiv> 1017"
abbreviation (input) AID_USB :: u32 where "AID_USB \<equiv> 1018"
abbreviation (input) AID_GPS :: u32 where "AID_GPS \<equiv> 1021"
abbreviation (input) AID_UNUSED1 :: u32 where "AID_UNUSED1 \<equiv> 1022"
abbreviation (input) AID_RFU1 :: u32 where "AID_RFU1 \<equiv> 1023"
abbreviation (input) AID_RFU2 :: u32 where "AID_RFU2 \<equiv> 1024"
abbreviation (input) AID_NFC :: u32 where "AID_NFC \<equiv> 1025"
abbreviation (input) AID_SHELL :: u32 where "AID_SHELL \<equiv> 2000"
abbreviation (input) AID_CACHE :: u32 where "AID_CACHE \<equiv> 2001"
abbreviation (input) AID_DIAG :: u32 where "AID_DIAG \<equiv> 2002"
abbreviation (input) AID_NET_BT_ADMIN :: u32 where "AID_NET_BT_ADMIN \<equiv> 3001"
abbreviation (input) AID_NET_BT :: u32 where "AID_NET_BT \<equiv> 3002"
abbreviation (input) AID_INET :: u32 where "AID_INET \<equiv> 3003"
abbreviation (input) AID_NET_RAW :: u32 where "AID_NET_RAW \<equiv> 3004"
abbreviation (input) AID_NET_ADMIN :: u32 where "AID_NET_ADMIN \<equiv> 3005"
abbreviation (input) AID_MISC :: u32 where "AID_MISC \<equiv> 9998"
abbreviation (input) AID_NOBODY :: u32 where "AID_NOBODY \<equiv> 9999"
abbreviation (input) AID_APP :: u32 where "AID_APP \<equiv> 10000"

definition android_ids :: "(string \<times> u32) list" where
  "android_ids =
     [(''root'', AID_ROOT),
      (''system'', AID_SYSTEM),
      (''radio'', AID_RADIO),
      (''bluetooth'', AID_BLUETOOTH),
      (''graphics'', AID_GRAPHICS),
      (''input'', AID_INPUT),
      (''audio'', AID_AUDIO),
      (''camera'', AID_CAMERA),
      (''log'', AID_LOG),
      (''compass'', AID_COMPASS),
      (''mount'', AID_MOUNT),
      (''wifi'', AID_WIFI),
      (''dhcp'', AID_DHCP),
      (''adb'', AID_ADB),
      (''install'', AID_INSTALL),
      (''media'', AID_MEDIA),
      (''nfc'', AID_NFC),
      (''shell'', AID_SHELL),
      (''cache'', AID_CACHE),
      (''diag'', AID_DIAG),
      (''net_bt_admin'', AID_NET_BT_ADMIN),
      (''net_bt'', AID_NET_BT),
      (''sdcard_rw'', AID_SDCARD_RW),
      (''vpn'', AID_VPN),
      (''keystore'', AID_KEYSTORE),
      (''usb'', AID_USB),
      (''gps'', AID_GPS),
      (''inet'', AID_INET),
      (''net_raw'', AID_NET_RAW),
      (''net_admin'', AID_NET_ADMIN),
      (''misc'', AID_MISC),
      (''nobody'', AID_NOBODY)]"

text \<open>The mode is given in octal in the source; \<open>oct\<close> reads the four digits.\<close>

definition oct :: "u32 \<Rightarrow> u32 \<Rightarrow> u32 \<Rightarrow> u32 \<Rightarrow> u32" where
  "oct a b c d = ((a * 8 + b) * 8 + c) * 8 + d"

record fs_path_config =
  pc_mode :: u32
  pc_uid :: u32
  pc_gid :: u32
  fs_prefix :: string

text \<open>The tables without their last row, which has no prefix and holds for every other path.\<close>

definition android_dirs :: "fs_path_config list" where
  "android_dirs =
     [\<lparr>pc_mode = oct 0 7 7 0, pc_uid = AID_SYSTEM, pc_gid = AID_CACHE, fs_prefix = ''cache''\<rparr>,
      \<lparr>pc_mode = oct 0 7 7 1, pc_uid = AID_SYSTEM, pc_gid = AID_SYSTEM, fs_prefix = ''data/app''\<rparr>,
      \<lparr>pc_mode = oct 0 7 7 1, pc_uid = AID_SYSTEM, pc_gid = AID_SYSTEM, fs_prefix = ''data/app-private''\<rparr>,
      \<lparr>pc_mode = oct 0 7 7 1, pc_uid = AID_SYSTEM, pc_gid = AID_SYSTEM, fs_prefix = ''data/dalvik-cache''\<rparr>,
      \<lparr>pc_mode = oct 0 7 7 1, pc_uid = AID_SYSTEM, pc_gid = AID_SYSTEM, fs_prefix = ''data/data''\<rparr>,
      \<lparr>pc_mode = oct 0 7 7 1, pc_uid = AID_SHELL, pc_gid = AID_SHELL, fs_prefix = ''data/local/tmp''\<rparr>,
      \<lparr>pc_mode = oct 0 7 7 1, pc_uid = AID_SHELL, pc_gid = AID_SHELL, fs_prefix = ''data/local''\<rparr>,
      \<lparr>pc_mode = oct 1 7 7 1, pc_uid = AID_SYSTEM, pc_gid = AID_MISC, fs_prefix = ''data/misc''\<rparr>,
      \<lparr>pc_mode = oct 0 7 7 0, pc_uid = AID_DHCP, pc_gid = AID_DHCP, fs_prefix = ''data/misc/dhcp''\<rparr>,
      \<lparr>pc_mode = oct 0 7 7 1, pc_uid = AID_SYSTEM, pc_gid = AID_SYSTEM, fs_prefix = ''data''\<rparr>,
      \<lparr>pc_mode = oct 0 7 5 0, pc_uid = AID_ROOT, pc_gid = AID_SHELL, fs_prefix = ''sbin''\<rparr>,
      \<lparr>pc_mode = oct 0 7 5 5, pc_uid = AID_ROOT, pc_gid = AID_SHELL, fs_prefix = ''system/bin''\<rparr>,
      \<lparr>pc_mode = oct 0 7 5 5, pc_uid = AID_ROOT, pc_gid = AID_SHELL, fs_prefix = ''system/vendor''\<rparr>,
      \<lparr>pc_mode = oct 0 7 5 5, pc_uid = AID_ROOT, pc_gid = AID_SHELL, fs_prefix = ''system/xbin''\<rparr>,
      \<lparr>pc_mode = oct 0 7 5 5, pc_uid = AID_ROOT, pc_gid = AID_ROOT, fs_prefix = ''system/etc/ppp''\<rparr>,
      \<lparr>pc_mode = oct 0 7 7 7, pc_uid = AID_ROOT, pc_gid = AID_ROOT, fs_prefix = ''sdcard''\<rparr>]"

definition android_files :: "fs_path_config list" where
  "android_files =
     [\<lparr>pc_mode = oct 0 4 4 0, pc_uid = AID_ROOT, pc_gid = AID_SHELL, fs_prefix = ''system/etc/init.goldfish.rc''\<rparr>,
      \<lparr>pc_mode = oct 0 5 5 0, pc_uid = AID_ROOT, pc_gid = AID_SHELL, fs_prefix = ''system/etc/init.goldfish.sh''\<rparr>,
      \<lparr>pc_mode = oct 0 4 4 0, pc_uid = AID_ROOT, pc_gid = AID_SHELL, fs_prefix = ''system/etc/init.trout.rc''\<rparr>,
      \<lparr>pc_mode = oct 0 5 5 0, pc_uid = AID_ROOT, pc_gid = AID_SHELL, fs_prefix = ''system/etc/init.ril''\<rparr>,
      \<lparr>pc_mode = oct 0 5 5 0, pc_uid = AID_ROOT, pc_gid = AID_SHELL, fs_prefix = ''system/etc/init.testmenu''\<rparr>,
      \<lparr>pc_mode = oct 0 5 5 0, pc_uid = AID_ROOT, pc_gid = AID_SHELL, fs_prefix = ''system/etc/init.gprs-pppd''\<rparr>,
      \<lparr>pc_mode = oct 0 5 5 0, pc_uid = AID_DHCP, pc_gid = AID_SHELL, fs_prefix = ''system/etc/dhcpcd/dhcpcd-run-hooks''\<rparr>,
      \<lparr>pc_mode = oct 0 4 4 0, pc_uid = AID_BLUETOOTH, pc_gid = AID_BLUETOOTH, fs_prefix = ''system/etc/dbus.conf''\<rparr>,
      \<lparr>pc_mode = oct 0 4 4 0, pc_uid = AID_WIFI, pc_gid = AID_WIFI, fs_prefix = ''system/etc/wifi/wpa_supplicant.conf''\<rparr>,
      \<lparr>pc_mode = oct 0 7 7 5, pc_uid = AID_ROOT, pc_gid = AID_WIFI, fs_prefix = ''system/bin/wlan_tool''\<rparr>,
      \<lparr>pc_mode = oct 0 4 4 0, pc_uid = AID_BLUETOOTH, pc_gid = AID_BLUETOOTH, fs_prefix = ''system/etc/bluetooth/main.conf''\<rparr>,
      \<lparr>pc_mode = oct 0 4 4 0, pc_uid = AID_BLUETOOTH, pc_gid = AID_BLUETOOTH, fs_prefix = ''system/etc/bluetooth/input.conf''\<rparr>,
      \<lparr>pc_mode = oct 0 4 4 0, pc_uid = AID_BLUETOOTH, pc_gid = AID_BLUETOOTH, fs_prefix = ''system/etc/bluetooth/audio.conf''\<rparr>,
      \<lparr>pc_mode = oct 0 4 4 4, pc_uid = AID_NET_BT, pc_gid = AID_NET_BT, fs_prefix = ''system/etc/bluetooth/blacklist.conf''\<rparr>,
      \<lparr>pc_mode = oct 0 6 4 0, pc_uid = AID_SYSTEM, pc_gid = AID_SYSTEM, fs_prefix = ''system/etc/bluetooth/auto_pairing.conf''\<rparr>,
      \<lparr>pc_mode = oct 0 4 4 4, pc_uid = AID_RADIO, pc_gid = AID_AUDIO, fs_prefix = ''system/etc/AudioPara4.csv''\<rparr>,
      \<lparr>pc_mode = oct 0 5 5 0, pc_uid = AID_GPS, pc_gid = AID_GPS, fs_prefix = ''system/etc/gpsreset.sh''\<rparr>,
      \<lparr>pc_mode = oct 0 4 4 0, pc_uid = AID_SYSTEM, pc_gid = AID_INPUT, fs_prefix = ''system/etc/magd.conf''\<rparr>,
      \<lparr>pc_mode = oct 0 5 5 5, pc_uid = AID_ROOT, pc_gid = AID_ROOT, fs_prefix = ''system/etc/ppp/*''\<rparr>,
      \<lparr>pc_mode = oct 0 7 5 0, pc_uid = AID_ROOT, pc_gid = AID_SHELL, fs_prefix = ''recovery/init*''\<rparr>,
      \<lparr>pc_mode = oct 0 7 5 5, pc_uid = AID_ROOT, pc_gid = AID_SHELL, fs_prefix = ''recovery/system/bin/*''\<rparr>,
      \<lparr>pc_mode = oct 0 7 5 5, pc_uid = AID_ROOT, pc_gid = AID_SHELL, fs_prefix = ''recovery/sbin/*''\<rparr>,
      \<lparr>pc_mode = oct 0 6 4 4, pc_uid = AID_SYSTEM, pc_gid = AID_SYSTEM, fs_prefix = ''data/app/*''\<rparr>,
      \<lparr>pc_mode = oct 0 6 4 4, pc_uid = AID_SYSTEM, pc_gid = AID_SYSTEM, fs_prefix = ''data/app-private/*''\<rparr>,
      \<lparr>pc_mode = oct 0 6 4 4, pc_uid = AID_APP, pc_gid = AID_APP, fs_prefix = ''data/data/*''\<rparr>,
      \<lparr>pc_mode = oct 2 7 5 5, pc_uid = AID_ROOT, pc_gid = AID_NET_RAW, fs_prefix = ''system/bin/ping''\<rparr>,
      \<lparr>pc_mode = oct 2 7 5 0, pc_uid = AID_ROOT, pc_gid = AID_INET, fs_prefix = ''system/bin/netcfg''\<rparr>,
      \<lparr>pc_mode = oct 6 7 5 5, pc_uid = AID_ROOT, pc_gid = AID_ROOT, fs_prefix = ''system/xbin/su''\<rparr>,
      \<lparr>pc_mode = oct 6 7 5 5, pc_uid = AID_ROOT, pc_gid = AID_ROOT, fs_prefix = ''system/xbin/librank''\<rparr>,
      \<lparr>pc_mode = oct 6 7 5 5, pc_uid = AID_ROOT, pc_gid = AID_ROOT, fs_prefix = ''system/xbin/procrank''\<rparr>,
      \<lparr>pc_mode = oct 6 7 5 5, pc_uid = AID_ROOT, pc_gid = AID_ROOT, fs_prefix = ''system/xbin/procmem''\<rparr>,
      \<lparr>pc_mode = oct 6 7 5 5, pc_uid = AID_ROOT, pc_gid = AID_ROOT, fs_prefix = ''system/xbin/tcpdump''\<rparr>,
      \<lparr>pc_mode = oct 4 7 7 0, pc_uid = AID_ROOT, pc_gid = AID_RADIO, fs_prefix = ''system/bin/pppd-ril''\<rparr>,
      \<lparr>pc_mode = oct 6 7 5 0, pc_uid = AID_ROOT, pc_gid = AID_SHELL, fs_prefix = ''system/bin/run-as''\<rparr>,
      \<lparr>pc_mode = oct 0 7 5 5, pc_uid = AID_ROOT, pc_gid = AID_SHELL, fs_prefix = ''system/bin/*''\<rparr>,
      \<lparr>pc_mode = oct 0 7 5 5, pc_uid = AID_ROOT, pc_gid = AID_SHELL, fs_prefix = ''system/xbin/*''\<rparr>,
      \<lparr>pc_mode = oct 0 7 5 5, pc_uid = AID_ROOT, pc_gid = AID_SHELL, fs_prefix = ''system/vendor/bin/*''\<rparr>,
      \<lparr>pc_mode = oct 0 7 5 0, pc_uid = AID_ROOT, pc_gid = AID_SHELL, fs_prefix = ''sbin/*''\<rparr>,
      \<lparr>pc_mode = oct 0 7 5 5, pc_uid = AID_ROOT, pc_gid = AID_ROOT, fs_prefix = ''bin/*''\<rparr>,
      \<lparr>pc_mode = oct 0 7 5 0, pc_uid = AID_ROOT, pc_gid = AID_SHELL, fs_prefix = ''init*''\<rparr>]"

definition android_default :: "bool \<Rightarrow> fs_path_config" where
  "android_default dir =
     (if dir then \<lparr>pc_mode = oct 0 7 5 5, pc_uid = AID_ROOT, pc_gid = AID_ROOT, fs_prefix = []\<rparr>
      else \<lparr>pc_mode = oct 0 6 4 4, pc_uid = AID_ROOT, pc_gid = AID_ROOT, fs_prefix = []\<rparr>)"

definition fs_match :: "bool \<Rightarrow> string \<Rightarrow> fs_path_config \<Rightarrow> bool" where
  "fs_match dir path pc =
     (let len = length (fs_prefix pc) in
      if dir then \<not> length path < len \<and> has_prefix (fs_prefix pc) path
      else if fs_prefix pc ! (len - 1) = CHR ''*'' then has_prefix (butlast (fs_prefix pc)) path
      else length path = len \<and> has_prefix (fs_prefix pc) path)"

fun fs_lookup :: "bool \<Rightarrow> string \<Rightarrow> fs_path_config list \<Rightarrow> fs_path_config" where
  "fs_lookup dir path [] = android_default dir"
| "fs_lookup dir path (pc # pcs) = (if fs_match dir path pc then pc else fs_lookup dir path pcs)"

definition fs_config :: "string \<Rightarrow> bool \<Rightarrow> u32 \<Rightarrow> u32 \<times> u32 \<times> u32" where
  "fs_config path dir old_mode =
     (let pc = fs_lookup dir path (if dir then android_dirs else android_files)
      in (pc_uid pc, pc_gid pc, (old_mode AND NOT (oct 7 7 7 7)) OR pc_mode pc))"

subsection \<open>Lemmas\<close>

lemma fs_lookup_cases:
  "fs_lookup dir path pcs = android_default dir \<or>
   fs_lookup dir path pcs \<in> set pcs \<and> fs_match dir path (fs_lookup dir path pcs)"
  by (induction pcs) auto

text \<open>The set-uid and set-gid bits of the result are those of the table.\<close>

lemma mode_bits: "((old AND NOT (oct 7 7 7 7)) OR m) AND oct 6 0 0 0 = m AND oct 6 0 0 0"
proof -
  have "NOT (oct 7 7 7 7) AND oct 6 0 0 0 = 0" by code_simp
  then have "(old AND NOT (oct 7 7 7 7)) AND oct 6 0 0 0 = 0"
    by (metis and.assoc and_zero_eq)
  then show ?thesis by (simp add: bit.conj_disj_distrib2)
qed

definition setid_files :: "string list" where
  "setid_files =
     [''system/bin/ping'', ''system/bin/netcfg'', ''system/xbin/su'', ''system/xbin/librank'',
      ''system/xbin/procrank'', ''system/xbin/procmem'', ''system/xbin/tcpdump'', ''system/bin/pppd-ril'',
      ''system/bin/run-as'']"

lemma setid_rows:
  "list_all (\<lambda>pc. pc_mode pc AND oct 6 0 0 0 = 0 \<or>
     fs_prefix pc ! (length (fs_prefix pc) - 1) \<noteq> CHR ''*'' \<and> fs_prefix pc \<in> set setid_files \<and> pc_uid pc = AID_ROOT) android_files"
  by code_simp

lemma setid_found:
  "list_all (\<lambda>path. pc_mode (fs_lookup False path android_files) AND oct 6 0 0 0 \<noteq> 0) setid_files"
  by code_simp

lemma no_setid_dirs: "list_all (\<lambda>pc. pc_mode pc AND oct 6 0 0 0 = 0) android_dirs"
  by code_simp

lemma no_setid_default: "pc_mode (android_default dir) AND oct 6 0 0 0 = 0"
  by (simp add: android_default_def oct_def)

subsection \<open>Properties\<close>

text \<open>C32: The set-uid and set-gid bits of a system image.  \<^verbatim>\<open>fs_config\<close> gives one of these bits to exactly nine
  files, by their full path; all of them belong to root, no directory has one, and no wildcard rule
  grants one.\<close>

theorem fs_config_setid:
  "case fs_config path dir old_mode of (u, g, m) \<Rightarrow>
     (m AND oct 6 0 0 0 \<noteq> 0 \<longleftrightarrow> \<not> dir \<and> path \<in> set setid_files) \<and>
     (m AND oct 6 0 0 0 \<noteq> 0 \<longrightarrow> u = AID_ROOT)"
proof -
  let ?pcs = "if dir then android_dirs else android_files"
  define pc where "pc = fs_lookup dir path ?pcs"
  have table: "pc_mode pc AND oct 6 0 0 0 \<noteq> 0 \<Longrightarrow> \<not> dir \<and> path \<in> set setid_files \<and> pc_uid pc = AID_ROOT"
    using fs_lookup_cases [of dir path ?pcs] no_setid_default [of dir] no_setid_dirs setid_rows
    unfolding pc_def [symmetric] list_all_iff
    by (auto simp: fs_match_def Let_def has_prefix_def split: if_splits)
  have "path \<in> set setid_files \<Longrightarrow> \<not> dir \<Longrightarrow> pc_mode pc AND oct 6 0 0 0 \<noteq> 0"
    using setid_found unfolding pc_def list_all_iff by auto
  with table show ?thesis
    by (auto simp: fs_config_def Let_def pc_def [symmetric] mode_bits)
qed

theorem fs_config_setid_witness:
  "case fs_config ''system/bin/run-as'' False 0 of (u, g, m) \<Rightarrow> m AND oct 6 0 0 0 \<noteq> 0 \<and> u = AID_ROOT"
  using fs_config_setid [where path = "''system/bin/run-as''" and dir = False and old_mode = 0] by (auto simp: setid_files_def)

text \<open>The rows are searched from the top and the row for \<^verbatim>\<open>data/misc\<close> stands before the one for
  \<^verbatim>\<open>data/misc/dhcp\<close>, so that the latter is never used.\<close>

lemma dhcp_row_shadowed: "fs_config ''data/misc/dhcp'' True 0 = (AID_SYSTEM, AID_MISC, oct 1 7 7 1)"
  by code_simp

end
