(* ===== verification/RunAs.thy ===== *)
theory RunAs
  imports Android_Ids
begin

text \<open>
  The set-uid program \<^verbatim>\<open>run-as\<close> (\<^verbatim>\<open>src/core/run-as/package.c\<close> and \<^verbatim>\<open>run-as.c\<close>): the parser of the
  package database \<^verbatim>\<open>/data/system/packages.list\<close>, the check of the data directory and the main
  program.  A character range \<open>[p, end)\<close> of the source is the list of the characters it spans, so
  \<^verbatim>\<open>p++\<close> is the tail of the list and \<^verbatim>\<open>p >= end\<close> the test for the empty list.  System calls are
  fields of the record \<open>sys\<close>; the calls with an effect are recorded, in order, as a list of events.
\<close>

datatype errno = EINVAL | EOVERFLOW | ENOENT | OTHER

abbreviation INT_MAX :: nat where "INT_MAX \<equiv> 2147483647"
abbreviation PATH_MAX :: nat where "PATH_MAX \<equiv> 4096"
abbreviation PACKAGES_LIST_BUFFER_SIZE :: nat where "PACKAGES_LIST_BUFFER_SIZE \<equiv> 8192"

definition PACKAGES_LIST_FILE :: string where
  "PACKAGES_LIST_FILE = ''/data/system/packages.list''"


record PackageInfo =
  pi_uid :: u32
  isDebuggable :: bool
  dataDir :: "char list"   \<comment> \<open>the buffer \<^verbatim>\<open>char dataDir[PATH_MAX]\<close>\<close>

record file_stat =
  st_isdir :: bool
  st_uid :: u32
  st_gid :: u32
  st_mode :: u32

text \<open>The system calls: a call that the source repeats on \<^verbatim>\<open>EINTR\<close> is its final answer.\<close>

record sys =
  sys_read :: "string \<Rightarrow> string option"      \<comment> \<open>\<^verbatim>\<open>open\<close> and \<^verbatim>\<open>read\<close>: the content of a file\<close>
  sys_lstat :: "string \<Rightarrow> file_stat option"
  sys_getuid :: u32
  sys_chdir :: "string \<Rightarrow> bool"
  sys_setresgid :: "u32 \<Rightarrow> bool"
  sys_setresuid :: "u32 \<Rightarrow> bool"

subsection \<open>Buffers and directories\<close>

text \<open>\<^verbatim>\<open>string_copy\<close>: the destination is the list of its \<^verbatim>\<open>dstlen\<close> cells, the source the list of its
  \<^verbatim>\<open>srclen\<close> characters.  The last cell is kept for the terminating zero.\<close>

fun string_copy :: "char list \<Rightarrow> char list \<Rightarrow> char list" where
  "string_copy [] src = []"
| "string_copy (d # ds) src =
     (case src of
        [] \<Rightarrow> NUL # ds
      | c # cs \<Rightarrow> if ds = [] \<or> c = NUL then NUL # ds else c # string_copy ds cs)"

definition read_file :: "sys \<Rightarrow> string \<Rightarrow> nat \<Rightarrow> errno + char list" where
  "read_file S filename buffsize =
     (if INT_MAX \<le> buffsize then Inl EINVAL
      else case sys_read S filename of
             None \<Rightarrow> Inl OTHER
           | Some content \<Rightarrow> Inr (take buffsize content))"

abbreviation S_IROTH :: u32 where "S_IROTH \<equiv> 4"
abbreviation S_IWOTH :: u32 where "S_IWOTH \<equiv> 2"

definition check_directory_ownership :: "sys \<Rightarrow> string \<Rightarrow> u32 \<Rightarrow> errno option" where
  "check_directory_ownership S path uid =
     (case sys_lstat S path of
        None \<Rightarrow> Some OTHER
      | Some st \<Rightarrow>
          if \<not> st_isdir st then Some EINVAL
          else if st_uid st \<noteq> uid \<or> st_gid st \<noteq> uid then Some EINVAL
          else if st_mode st AND (S_IROTH OR S_IWOTH) \<noteq> 0 then Some EINVAL
          else None)"

text \<open>The loop of \<^verbatim>\<open>check_data_path\<close>: \<open>pre\<close> is the part of the path before index \<^verbatim>\<open>nn\<close>, \<open>rest\<close> the
  part from \<^verbatim>\<open>nn\<close> on.\<close>

fun check_subpaths :: "sys \<Rightarrow> string \<Rightarrow> string \<Rightarrow> errno option" where
  "check_subpaths S pre [] = None"
| "check_subpaths S pre (c # rest) =
     (if c \<noteq> CHR ''/'' then check_subpaths S (pre @ [c]) rest
      else if rest = [] then None
      else if PATH_MAX \<le> length pre then Some EINVAL
      else if 3 \<le> length pre \<and> drop (length pre - 3) pre = ''/..'' then Some EINVAL
      else case check_directory_ownership S pre AID_SYSTEM of
             Some e \<Rightarrow> Some e
           | None \<Rightarrow> check_subpaths S (pre @ [c]) rest)"

definition check_data_path :: "sys \<Rightarrow> string \<Rightarrow> u32 \<Rightarrow> errno option" where
  "check_data_path S path uid =
     (case path of
        [] \<Rightarrow> Some EINVAL
      | c # rest \<Rightarrow>
          if c \<noteq> CHR ''/'' then Some EINVAL
          else case check_subpaths S [c] rest of
                 Some e \<Rightarrow> Some e
               | None \<Rightarrow> check_directory_ownership S path uid)"

subsection \<open>The scanner\<close>

definition is_space :: "char \<Rightarrow> bool" where
  "is_space c = (c = CHR '' '' \<or> c = TAB)"

fun skip_spaces :: "char list \<Rightarrow> char list" where
  "skip_spaces [] = []"
| "skip_spaces (c # cs) = (if is_space c then skip_spaces cs else c # cs)"

fun skip_non_spaces :: "char list \<Rightarrow> char list" where
  "skip_non_spaces [] = []"
| "skip_non_spaces (c # cs) = (if \<not> is_space c then skip_non_spaces cs else c # cs)"

fun find_first :: "char list \<Rightarrow> char \<Rightarrow> char list" where
  "find_first [] ch = []"
| "find_first (c # cs) ch = (if c \<noteq> ch then find_first cs ch else c # cs)"

fun compare_name_loop :: "char list \<Rightarrow> string \<Rightarrow> char list option" where
  "compare_name_loop p [] =
     (case p of [] \<Rightarrow> Some p | c # _ \<Rightarrow> if \<not> is_space c then None else Some p)"
| "compare_name_loop p (n # ns) =
     (case p of
        [] \<Rightarrow> None
      | c # cs \<Rightarrow> if is_space c then None
                 else if c \<noteq> n then None
                 else compare_name_loop cs ns)"

definition compare_name :: "char list \<Rightarrow> string \<Rightarrow> char list option" where
  "compare_name p name = (if name = [] \<or> p = [] then None else compare_name_loop p name)"

definition parse_spaces :: "char list \<Rightarrow> char list option" where
  "parse_spaces p =
     (case p of [] \<Rightarrow> None | c # _ \<Rightarrow> if \<not> is_space c then None else Some (skip_spaces p))"

text \<open>The digit value \<^verbatim>\<open>(unsigned)(ch - '0')\<close> and the loop of \<^verbatim>\<open>parse_positive_decimal\<close>.  The C
  \<^verbatim>\<open>int\<close> is a 32-bit word read as a signed number; \<open>value*10 + d\<close> wraps.\<close>

definition digit :: "char \<Rightarrow> u32" where
  "digit ch = of_nat (of_char ch) - 48"

fun decimal_loop :: "char list \<Rightarrow> i32 \<Rightarrow> bool \<Rightarrow> i32 \<times> bool \<times> char list" where
  "decimal_loop [] value overflow = (value, overflow, [])"
| "decimal_loop (c # cs) value overflow =
     (if 10 \<le> digit c then (value, overflow, c # cs)
      else let val2 = value * 10 + digit c
           in decimal_loop cs val2 (overflow \<or> val2 <s value))"

definition parse_positive_decimal :: "char list \<Rightarrow> i32 \<times> errno option \<times> char list" where
  "parse_positive_decimal p =
     (case p of
        [] \<Rightarrow> (- 1, Some EINVAL, p)
      | c # _ \<Rightarrow>
          if \<not> c_isdigit c then (- 1, Some EINVAL, p)
          else case decimal_loop p 0 False of
                 (value, overflow, q) \<Rightarrow>
                   if overflow then (- 1, Some EOVERFLOW, q) else (value, None, q))"

subsection \<open>The package database\<close>

datatype line_result = NextLine | Return "errno option" PackageInfo

text \<open>The body of the loop of \<^verbatim>\<open>get_package_info\<close>, on the characters of one line.\<close>

definition parse_package_line :: "string \<Rightarrow> char list \<Rightarrow> PackageInfo \<Rightarrow> line_result" where
  "parse_package_line pkgName line info =
     (case compare_name line pkgName of
        None \<Rightarrow> NextLine
      | Some p1 \<Rightarrow>
     (case parse_spaces p1 of
        None \<Rightarrow> Return (Some EINVAL) info
      | Some p2 \<Rightarrow>
     (case parse_positive_decimal p2 of (uid, err, p3) \<Rightarrow>
      if uid <s 0 then Return err info
      else let info = info\<lparr>pi_uid := uid\<rparr> in
     (case parse_spaces p3 of
        None \<Rightarrow> Return (Some EINVAL) info
      | Some p4 \<Rightarrow>
     (case parse_positive_decimal p4 of (debugFlag, _, p5) \<Rightarrow>
      if debugFlag \<noteq> 0 \<and> debugFlag \<noteq> 1 then Return (Some EINVAL) info
      else let info = info\<lparr>isDebuggable := (debugFlag = 1)\<rparr> in
     (case parse_spaces p5 of
        None \<Rightarrow> Return (Some EINVAL) info
      | Some p6 \<Rightarrow>
          let q = skip_non_spaces p6 in
          if length q = length p6 then Return (Some EINVAL) info
          else Return None
                 (info\<lparr>dataDir :=
                         string_copy (dataDir info) (take (length p6 - length q) p6)\<rparr>)))))))"

lemma find_first_length: "length (find_first p ch) \<le> length p"
  by (induction p) auto

function scan_packages :: "string \<Rightarrow> char list \<Rightarrow> PackageInfo \<Rightarrow> errno option \<times> PackageInfo" where
  "scan_packages pkgName p info =
     (if p = [] then (Some ENOENT, info)
      else let eol = find_first p LF;
               nxt = (case eol of [] \<Rightarrow> [] | _ # cs \<Rightarrow> cs)
           in case parse_package_line pkgName (take (length p - length eol) p) info of
                Return e info' \<Rightarrow> (e, info')
              | NextLine \<Rightarrow> scan_packages pkgName nxt info)"
  by pat_completeness auto
termination
proof (relation "measure (\<lambda>(_, p, _). length p)", goal_cases)
  case (2 pkgName p info x xa)
  then show ?case
    using find_first_length [of p LF] by (auto split: list.splits)
qed simp

declare scan_packages.simps [simp del]

definition get_package_info :: "sys \<Rightarrow> string \<Rightarrow> PackageInfo \<Rightarrow> errno option \<times> PackageInfo" where
  "get_package_info S pkgName info =
     (let info = info\<lparr>pi_uid := 0, isDebuggable := False, dataDir := (dataDir info)[0 := NUL]\<rparr>
      in case read_file S PACKAGES_LIST_FILE PACKAGES_LIST_BUFFER_SIZE of
           Inl e \<Rightarrow> (Some e, info)
         | Inr buffer \<Rightarrow> scan_packages pkgName buffer info)"

subsection \<open>The main program\<close>

datatype event = Chdir string | Setresgid u32 | Setresuid u32

text \<open>How the program ends: an exit status, or the process image it becomes.\<close>

datatype outcome = Exit int | Execute string "string list"

definition run_as_main ::
  "sys \<Rightarrow> (string \<Rightarrow> bool) \<Rightarrow> PackageInfo \<Rightarrow> string list \<Rightarrow> event list \<times> outcome" where
  "run_as_main S exec_ok info0 argv =
     (if length argv < 2 then ([], Exit 1)
      else if sys_getuid S \<noteq> AID_SHELL \<and> sys_getuid S \<noteq> AID_ROOT then ([], Exit 1)
      else case get_package_info S (argv ! 1) info0 of
             (Some e, _) \<Rightarrow> ([], Exit 1)
           | (None, info) \<Rightarrow>
      if pi_uid info < AID_APP then ([], Exit 1)
      else if \<not> isDebuggable info then ([], Exit 1)
      else if check_data_path S (cstr (dataDir info)) (pi_uid info) \<noteq> None then ([], Exit 1)
      else let dir = cstr (dataDir info); uid = pi_uid info; gid = uid in
      if \<not> sys_chdir S dir then ([Chdir dir], Exit 1)
      else if \<not> sys_setresgid S gid then ([Chdir dir, Setresgid gid], Exit 1)
      else if \<not> sys_setresuid S uid then ([Chdir dir, Setresgid gid, Setresuid uid], Exit 1)
      else ([Chdir dir, Setresgid gid, Setresuid uid],
            if 3 \<le> length argv
            then if exec_ok (argv ! 2) then Execute (argv ! 2) (drop 2 argv) else Exit 1
            else if exec_ok ''/system/bin/sh'' then Execute ''/system/bin/sh'' [''sh'']
            else Exit 1))"

subsection \<open>Lemmas on the scanner\<close>

lemma skip_spaces_eq: "skip_spaces p = dropWhile is_space p"
  by (induction p) auto

lemma skip_non_spaces_eq: "skip_non_spaces p = dropWhile (\<lambda>c. \<not> is_space c) p"
  by (induction p) auto

lemma find_first_append: "ch \<notin> set p \<Longrightarrow> find_first (p @ ch # r) ch = ch # r"
  by (induction p) auto

lemma compare_name_loop_space:
  "\<forall>c \<in> set name. \<not> is_space c \<Longrightarrow> is_space s \<Longrightarrow>
   compare_name_loop (name @ s # r) pkg = (if pkg = name then Some (s # r) else None)"
proof (induction name arbitrary: pkg)
  case Nil
  then show ?case by (cases pkg) auto
next
  case (Cons c cs)
  then show ?case by (cases pkg) auto
qed

lemma parse_spaces_one:
  "is_space s \<Longrightarrow> r \<noteq> [] \<Longrightarrow> \<not> is_space (hd r) \<Longrightarrow> parse_spaces (s # r) = Some r"
  by (cases r) (auto simp: parse_spaces_def)

lemma string_copy_fits:
  "length s < length b \<Longrightarrow> NUL \<notin> set s \<Longrightarrow> cstr (string_copy b s) = s"
proof (induction b s rule: string_copy.induct)
  case (2 d ds src)
  then show ?case by (cases src) (auto simp: cstr_Cons)
qed simp

text \<open>The terminating zero is written whatever the source is.\<close>

lemma string_copy_length: "length (string_copy b s) = length b"
  by (induction b s rule: string_copy.induct) (auto split: list.splits)

lemma string_copy_terminated: "b \<noteq> [] \<Longrightarrow> NUL \<in> set (string_copy b s)"
proof (induction b s rule: string_copy.induct)
  case (2 d ds src)
  then show ?case by (cases src) auto
qed simp

subsection \<open>Decimal numbers\<close>

definition digit_char :: "nat \<Rightarrow> char" where
  "digit_char d = char_of (48 + d)"

fun decimal :: "nat \<Rightarrow> string" where
  "decimal n = (if n < 10 then [digit_char n] else decimal (n div 10) @ [digit_char (n mod 10)])"

declare decimal.simps [simp del]

definition digits_value :: "nat \<Rightarrow> string \<Rightarrow> nat" where
  "digits_value v ds = foldl (\<lambda>v c. v * 10 + (of_char c - 48)) v ds"

lemma digits_value_Nil [simp]: "digits_value v [] = v"
  by (simp add: digits_value_def)

lemma digits_value_Cons [simp]:
  "digits_value v (c # cs) = digits_value (v * 10 + (of_char c - 48)) cs"
  by (simp add: digits_value_def)

lemma digits_value_snoc: "digits_value v (ds @ [c]) = digits_value v ds * 10 + (of_char c - 48)"
  by (simp add: digits_value_def)

lemma digits_value_ge: "v \<le> digits_value v ds"
proof (induction ds arbitrary: v)
  case (Cons c cs)
  have "v \<le> v * 10 + (of_char c - 48)" by simp
  also have "\<dots> \<le> digits_value (v * 10 + (of_char c - 48)) cs" by (rule Cons)
  finally show ?case by simp
qed simp

lemma of_char_digit_char: "d < 10 \<Longrightarrow> of_char (digit_char d) = 48 + d"
  by (simp add: digit_char_def of_char_of)

lemma isdigit_digit_char: "d < 10 \<Longrightarrow> c_isdigit (digit_char d)"
  by (simp add: c_isdigit_def of_char_digit_char)

lemma decimal_digits: "\<forall>c \<in> set (decimal n). c_isdigit c"
proof (induction n rule: decimal.induct)
  case (1 n)
  then show ?case by (subst decimal.simps) (auto intro: isdigit_digit_char)
qed

lemma decimal_value: "digits_value 0 (decimal n) = n"
proof (induction n rule: decimal.induct)
  case (1 n)
  then show ?case
    by (subst decimal.simps) (auto simp: digits_value_snoc of_char_digit_char)
qed

lemma decimal_nonempty: "decimal n \<noteq> []"
  by (subst decimal.simps) simp

lemma digit_of_isdigit:
  assumes "c_isdigit c"
  shows "digit c = of_nat (of_char c - 48)" and "digit c < 10"
proof -
  have le: "48 \<le> (of_char c :: nat)" "(of_char c :: nat) \<le> 57"
    using assms by (auto simp: c_isdigit_def)
  show eq: "digit c = of_nat (of_char c - 48)"
    using le(1) by (simp add: digit_def)
  have "unat (of_nat (of_char c - 48) :: u32) < 10"
    using le by (subst unat_of_nat_lt) simp_all
  then show "digit c < 10"
    unfolding eq by (simp add: word_less_nat_alt)
qed

lemma digit_of_not_isdigit: "\<not> c_isdigit c \<Longrightarrow> 10 \<le> digit c"
proof -
  assume n: "\<not> c_isdigit c"
  have b: "(of_char c :: nat) < 256" by (rule nat_of_char_less_256)
  let ?m = "of_char c :: nat"
  show ?thesis
  proof (cases "?m < 48")
    case True
    have "digit c = of_nat (2 ^ 32 + ?m - 48)"
      using True by (simp add: digit_def of_nat_diff)
    moreover have "unat (of_nat (2 ^ 32 + ?m - 48) :: u32) = 2 ^ 32 + ?m - 48"
      using True by (intro unat_of_nat_lt) simp
    ultimately show ?thesis using True by (simp add: word_le_nat_alt)
  next
    case False
    with n have "57 < ?m" by (auto simp: c_isdigit_def)
    moreover have "digit c = of_nat (?m - 48)"
      using False by (simp add: digit_def)
    moreover have "?m - 48 < 2 ^ LENGTH(32)"
      using b by (simp del: nat_of_char_less_256)
    then have "unat (of_nat (?m - 48) :: u32) = ?m - 48"
      by (rule unat_of_nat_lt)
    ultimately show ?thesis by (simp add: word_le_nat_alt)
  qed
qed

lemma of_nat_sless_iff:
  assumes "a \<le> INT_MAX" "b \<le> INT_MAX"
  shows "(of_nat a :: i32) <s of_nat b \<longleftrightarrow> a < b"
proof -
  have "sint (of_nat n :: i32) = int n" if "n \<le> INT_MAX" for n
    using that by (simp add: signed_of_nat signed_take_bit_int_eq_self)
  with assms show ?thesis by (simp add: word_sless_alt)
qed

lemma decimal_loop_value:
  assumes "\<forall>c \<in> set ds. c_isdigit c" and "r = [] \<or> \<not> c_isdigit (hd r)"
    and "digits_value v ds \<le> INT_MAX"
  shows "decimal_loop (ds @ r) (of_nat v) ov = (of_nat (digits_value v ds), ov, r)"
  using assms
proof (induction ds arbitrary: v)
  case Nil
  then show ?case by (cases r) (auto dest: digit_of_not_isdigit)
next
  case (Cons c cs)
  let ?v = "v * 10 + (of_char c - 48)"
  have le: "?v \<le> INT_MAX"
    using Cons.prems(3) digits_value_ge [of ?v cs] by simp
  have val2: "(of_nat v :: i32) * 10 + digit c = of_nat ?v"
    using Cons.prems(1) by (simp add: digit_of_isdigit)
  have "\<not> (of_nat ?v :: i32) <s of_nat v"
    using le by (subst of_nat_sless_iff) auto
  moreover have "\<not> 10 \<le> digit c"
    using Cons.prems(1) digit_of_isdigit(2) [of c] by (simp add: not_le)
  ultimately show ?case
    using Cons.IH [of ?v] Cons.prems by (simp add: Let_def val2 del: of_nat_add of_nat_mult)
qed

lemma parse_positive_decimal_value:
  assumes "n \<le> INT_MAX" and "r = [] \<or> \<not> c_isdigit (hd r)"
  shows "parse_positive_decimal (decimal n @ r) = (of_nat n, None, r)"
proof -
  obtain c cs where d: "decimal n = c # cs"
    using decimal_nonempty by (cases "decimal n") auto
  have "c_isdigit c" using decimal_digits [of n] d by simp
  moreover have "decimal_loop (decimal n @ r) (of_nat 0) False = (of_nat n, False, r)"
    using assms decimal_loop_value [OF decimal_digits assms(2), of 0 n] by (simp add: decimal_value)
  ultimately show ?thesis by (simp add: parse_positive_decimal_def d)
qed

subsection \<open>The database format\<close>

text \<open>The documented line format: \<^verbatim>\<open><pkgName> <uid> <debugFlag> <dataDir>\<close>.\<close>

record entry =
  e_name :: string
  e_uid :: nat
  e_debug :: bool
  e_dir :: string

definition package_line :: "entry \<Rightarrow> string" where
  "package_line e =
     e_name e @ '' '' @ decimal (e_uid e) @ '' '' @ (if e_debug e then ''1'' else ''0'') @
     '' '' @ e_dir e"

definition package_db :: "entry list \<Rightarrow> string" where
  "package_db es = concat (map (\<lambda>e. package_line e @ [LF]) es)"

definition plain :: "string \<Rightarrow> bool" where
  "plain s \<longleftrightarrow> s \<noteq> [] \<and> (\<forall>c \<in> set s. \<not> is_space c \<and> c \<noteq> LF \<and> c \<noteq> NUL)"

definition wf_entry :: "entry \<Rightarrow> bool" where
  "wf_entry e \<longleftrightarrow>
     plain (e_name e) \<and> e_uid e \<le> INT_MAX \<and> plain (e_dir e) \<and> length (e_dir e) < PATH_MAX"

lemma digit_not_special: "c_isdigit c \<Longrightarrow> \<not> is_space c \<and> c \<noteq> LF \<and> c \<noteq> NUL"
  by (auto simp: c_isdigit_def is_space_def char_consts)

lemma is_space_blank [simp]: "is_space CHR '' ''"
  by (simp add: is_space_def)

lemma decimal_flag: "decimal (of_bool b) = (if b then ''1'' else ''0'')"
  by (subst decimal.simps) (simp add: digit_char_def char_of_eq_iff)

lemma parse_flag:
  "parse_positive_decimal ((if b then ''1'' else ''0'') @ CHR '' '' # r) =
     (if b then 1 else 0, None, CHR '' '' # r)"
  using parse_positive_decimal_value [of "of_bool b" "CHR '' '' # r"]
  unfolding decimal_flag by (auto simp: c_isdigit_def)

lemma parse_package_line_entry:
  assumes wf: "wf_entry e" and len: "length (dataDir info) = PATH_MAX"
  shows "parse_package_line pkg (package_line e) info =
    (if e_name e = pkg
     then Return None (info\<lparr>pi_uid := of_nat (e_uid e), isDebuggable := e_debug e,
                           dataDir := string_copy (dataDir info) (e_dir e)\<rparr>)
     else NextLine)"
proof -
  let ?flag = "if e_debug e then ''1'' else ''0''"
  let ?r4 = "CHR '' '' # e_dir e"
  let ?r3 = "CHR '' '' # ?flag @ ?r4"
  let ?r2 = "CHR '' '' # decimal (e_uid e) @ ?r3"
  have line: "package_line e = e_name e @ ?r2"
    by (simp add: package_line_def)
  have name: "e_name e \<noteq> []" "\<forall>c \<in> set (e_name e). \<not> is_space c"
    and dir: "e_dir e \<noteq> []" "\<forall>c \<in> set (e_dir e). \<not> is_space c"
    using wf by (auto simp: wf_entry_def plain_def)
  have "compare_name (package_line e) pkg = (if pkg = e_name e then Some ?r2 else None)"
    unfolding compare_name_def line using name by (auto simp: compare_name_loop_space)
  moreover have "parse_spaces ?r2 = Some (decimal (e_uid e) @ ?r3)"
    using decimal_digits [of "e_uid e"] decimal_nonempty [of "e_uid e"]
    by (intro parse_spaces_one) (auto dest!: digit_not_special hd_in_set)
  moreover have "parse_positive_decimal (decimal (e_uid e) @ ?r3) = (of_nat (e_uid e), None, ?r3)"
    using wf by (intro parse_positive_decimal_value) (auto simp: wf_entry_def c_isdigit_def)
  moreover have "\<not> (of_nat (e_uid e) :: i32) <s 0"
    using wf of_nat_sless_iff [of "e_uid e" 0] by (simp add: wf_entry_def)
  moreover have "parse_spaces ?r3 = Some (?flag @ ?r4)"
    by (intro parse_spaces_one) (auto simp: is_space_def TAB_def)
  moreover have "parse_positive_decimal (?flag @ ?r4) = (if e_debug e then 1 else 0, None, ?r4)"
    by (rule parse_flag)
  moreover have "parse_spaces ?r4 = Some (e_dir e)"
    using dir by (intro parse_spaces_one) auto
  moreover have "skip_non_spaces (e_dir e) = []"
    using dir by (simp add: skip_non_spaces_eq)
  ultimately show ?thesis
    using dir(1) by (auto simp: parse_package_line_def Let_def)
qed

lemma package_line_no_LF: "wf_entry e \<Longrightarrow> LF \<notin> set (package_line e)"
proof -
  assume "wf_entry e"
  then have "LF \<notin> set (e_name e)" "LF \<notin> set (e_dir e)"
    by (auto simp: wf_entry_def plain_def)
  moreover have "LF \<notin> set (decimal (e_uid e))"
    using decimal_digits digit_not_special by blast
  moreover have "LF \<noteq> CHR '' ''" "LF \<noteq> CHR ''0''" "LF \<noteq> CHR ''1''"
    by (simp_all add: LF_def)
  ultimately show ?thesis by (simp add: package_line_def)
qed

lemma scan_packages_db:
  assumes "\<forall>e \<in> set es. wf_entry e" and "length (dataDir info) = PATH_MAX"
  shows "scan_packages pkg (package_db es) info =
    (case List.find (\<lambda>e. e_name e = pkg) es of
       None \<Rightarrow> (Some ENOENT, info)
     | Some e \<Rightarrow> (None, info\<lparr>pi_uid := of_nat (e_uid e), isDebuggable := e_debug e,
                             dataDir := string_copy (dataDir info) (e_dir e)\<rparr>))"
  using assms(1)
proof (induction es)
  case Nil
  show ?case by (simp add: package_db_def scan_packages.simps)
next
  case (Cons e es)
  have db: "package_db (e # es) = package_line e @ LF # package_db es"
    by (simp add: package_db_def)
  have eol: "find_first (package_line e @ LF # package_db es) LF = LF # package_db es"
    using Cons.prems by (intro find_first_append package_line_no_LF) simp
  show ?case
    unfolding db using Cons assms(2)
    by (subst scan_packages.simps) (simp add: eol parse_package_line_entry Let_def)
qed

text \<open>What a caller of \<^verbatim>\<open>get_package_info\<close> may rely on.\<close>

lemma get_package_info_db:
  assumes "\<forall>e \<in> set es. wf_entry e" and "length (package_db es) \<le> PACKAGES_LIST_BUFFER_SIZE"
    and "sys_read S PACKAGES_LIST_FILE = Some (package_db es)"
    and "length (dataDir info0) = PATH_MAX"
  shows "get_package_info S pkg info0 =
    (let info = info0\<lparr>pi_uid := 0, isDebuggable := False, dataDir := (dataDir info0)[0 := NUL]\<rparr>
     in case List.find (\<lambda>e. e_name e = pkg) es of
          None \<Rightarrow> (Some ENOENT, info)
        | Some e \<Rightarrow> (None, info\<lparr>pi_uid := of_nat (e_uid e), isDebuggable := e_debug e,
                                dataDir := string_copy (dataDir info) (e_dir e)\<rparr>))"
  using assms by (simp add: get_package_info_def read_file_def Let_def scan_packages_db)

subsection \<open>The check of the data directory\<close>

definition dir_ok :: "sys \<Rightarrow> string \<Rightarrow> u32 \<Rightarrow> bool" where
  "dir_ok S path uid \<longleftrightarrow>
     (\<exists>st. sys_lstat S path = Some st \<and> st_isdir st \<and> st_uid st = uid \<and> st_gid st = uid \<and>
           st_mode st AND (S_IROTH OR S_IWOTH) = 0)"

lemma check_directory_ownership_iff:
  "check_directory_ownership S path uid = None \<longleftrightarrow> dir_ok S path uid"
  by (auto simp: check_directory_ownership_def dir_ok_def split: option.splits if_splits)

definition subpath_ok :: "sys \<Rightarrow> string \<Rightarrow> bool" where
  "subpath_ok S pre \<longleftrightarrow>
     length pre < PATH_MAX \<and> \<not> (3 \<le> length pre \<and> drop (length pre - 3) pre = ''/..'') \<and>
     dir_ok S pre AID_SYSTEM"

lemma check_subpaths_None_iff:
  "check_subpaths S pre rest = None \<longleftrightarrow>
     (\<forall>p q. rest = p @ CHR ''/'' # q \<and> q \<noteq> [] \<longrightarrow> subpath_ok S (pre @ p))"
proof (induction S pre rest rule: check_subpaths.induct)
  case (2 S pre c rest)
  let ?R = "\<forall>p q. rest = p @ CHR ''/'' # q \<and> q \<noteq> [] \<longrightarrow> subpath_ok S (pre @ c # p)"
  have split: "(\<forall>p q. c # rest = p @ CHR ''/'' # q \<and> q \<noteq> [] \<longrightarrow> subpath_ok S (pre @ p)) \<longleftrightarrow>
    (c = CHR ''/'' \<and> rest \<noteq> [] \<longrightarrow> subpath_ok S pre) \<and> ?R"
    by (auto simp: Cons_eq_append_conv)
  show ?case
  proof (cases "c = CHR ''/'' \<and> rest \<noteq> []")
    case True
    have "check_subpaths S pre (c # rest) = None \<longleftrightarrow>
      subpath_ok S pre \<and> check_subpaths S (pre @ [c]) rest = None"
      using True by (auto simp: subpath_ok_def check_directory_ownership_iff [symmetric] split: option.splits)
    with 2 True show ?thesis
      unfolding split by (auto simp: subpath_ok_def check_directory_ownership_iff [symmetric])
  next
    case False
    with 2 show ?thesis unfolding split by (cases "c = CHR ''/''") auto
  qed
qed simp

subsection \<open>Properties\<close>

lemma check_data_path_subpaths:
  "(\<forall>p q. CHR ''/'' # rest = p @ CHR ''/'' # q \<and> p \<noteq> [] \<and> q \<noteq> [] \<longrightarrow> subpath_ok S p) \<longleftrightarrow>
   check_subpaths S ''/'' rest = None"
  unfolding check_subpaths_None_iff by (auto simp: Cons_eq_append_conv)

lemma check_data_path_None:
  assumes "check_data_path S path uid = None"
  shows "(\<exists>rest. path = CHR ''/'' # rest) \<and> dir_ok S path uid \<and>
    (\<forall>p q. path = p @ CHR ''/'' # q \<and> p \<noteq> [] \<and> q \<noteq> [] \<longrightarrow> subpath_ok S p)"
proof -
  from assms obtain rest where path: "path = CHR ''/'' # rest"
    by (auto simp: check_data_path_def split: list.splits if_splits)
  then show ?thesis
    using assms check_data_path_subpaths [of rest S]
    by (auto simp: check_data_path_def check_directory_ownership_iff split: option.splits)
qed


definition wit_entry :: entry where
  "wit_entry = \<lparr>e_name = ''a.b'', e_uid = 10001, e_debug = True, e_dir = ''/d/a''\<rparr>"

definition wit_info :: PackageInfo where
  "wit_info = \<lparr>pi_uid = 7, isDebuggable = False, dataDir = replicate PATH_MAX NUL\<rparr>"

definition wit_sys :: sys where
  "wit_sys =
     \<lparr>sys_read = (\<lambda>f. if f = PACKAGES_LIST_FILE then Some (package_db [wit_entry]) else None),
      sys_lstat = (\<lambda>p. if p = ''/d''
                       then Some \<lparr>st_isdir = True, st_uid = 1000, st_gid = 1000, st_mode = 505\<rparr>
                       else if p = ''/d/a''
                       then Some \<lparr>st_isdir = True, st_uid = 10001, st_gid = 10001, st_mode = 488\<rparr>
                       else None),
      sys_getuid = 2000, sys_chdir = (\<lambda>_. True), sys_setresgid = (\<lambda>_. True),
      sys_setresuid = (\<lambda>_. True)\<rparr>"

lemma wit_entry_wf: "wf_entry wit_entry"
  by (simp add: wf_entry_def wit_entry_def plain_def is_space_def char_consts)

lemma wit_db_length: "length (package_db [wit_entry]) \<le> PACKAGES_LIST_BUFFER_SIZE"
  by (simp add: package_db_def package_line_def wit_entry_def decimal.simps)

lemma wit_info_length: "length (dataDir wit_info) = PATH_MAX"
  by (simp add: wit_info_def)

lemma wit_all_wf: "\<forall>e \<in> set [wit_entry]. wf_entry e"
  by (simp add: wit_entry_wf)

lemma wit_read: "sys_read wit_sys PACKAGES_LIST_FILE = Some (package_db [wit_entry])"
  by (simp add: wit_sys_def)

lemma wit_find: "List.find (\<lambda>e. e_name e = ''a.b'') [wit_entry] = Some wit_entry"
  by (simp add: wit_entry_def)

lemmas wit_facts = wit_all_wf wit_db_length wit_read wit_info_length


lemma get_package_info_found:
  assumes "\<forall>e \<in> set es. wf_entry e" and "length (package_db es) \<le> PACKAGES_LIST_BUFFER_SIZE"
    and "sys_read S PACKAGES_LIST_FILE = Some (package_db es)"
    and "length (dataDir info0) = PATH_MAX"
    and "get_package_info S pkg info0 = (None, info)"
  shows "\<exists>e \<in> set es. List.find (\<lambda>e. e_name e = pkg) es = Some e \<and> pi_uid info = of_nat (e_uid e) \<and>
           isDebuggable info = e_debug e \<and> cstr (dataDir info) = e_dir e"
proof (cases "List.find (\<lambda>e. e_name e = pkg) es")
  case None
  with assms(5) show ?thesis
    unfolding get_package_info_db [OF assms(1-4)] by (simp add: Let_def)
next
  case (Some e)
  then have "e \<in> set es" by (auto simp: find_Some_iff in_set_conv_nth)
  with assms(1) have "wf_entry e" by blast
  then have "cstr (string_copy ((dataDir info0)[0 := NUL]) (e_dir e)) = e_dir e"
    using assms(4) by (intro string_copy_fits) (auto simp: wf_entry_def plain_def)
  with Some \<open>e \<in> set es\<close> assms(5) show ?thesis
    unfolding get_package_info_db [OF assms(1-4)] by (auto simp: Let_def)
qed

text \<open>C23: Looking a package up in a well-formed database returns the uid, the debug flag and
  the data directory of the first line with that name, and \<^verbatim>\<open>ENOENT\<close> when no line has it.\<close>

theorem get_package_info_roundtrip:
  assumes "\<forall>e \<in> set es. wf_entry e" and "length (package_db es) \<le> PACKAGES_LIST_BUFFER_SIZE"
    and "sys_read S PACKAGES_LIST_FILE = Some (package_db es)"
    and "length (dataDir info0) = PATH_MAX"
  shows "case get_package_info S pkg info0 of
           (None, info) \<Rightarrow>
             (\<exists>e. List.find (\<lambda>e. e_name e = pkg) es = Some e \<and> pi_uid info = of_nat (e_uid e) \<and>
                  isDebuggable info = e_debug e \<and> cstr (dataDir info) = e_dir e)
         | (Some err, _) \<Rightarrow> err = ENOENT \<and> pkg \<notin> e_name ` set es"
proof (cases "fst (get_package_info S pkg info0)")
  case None
  then show ?thesis
    using get_package_info_found [OF assms, of pkg] by (cases "get_package_info S pkg info0") auto
next
  case (Some err)
  then have "List.find (\<lambda>e. e_name e = pkg) es = None \<and> err = ENOENT"
    unfolding get_package_info_db [OF assms] by (auto simp: Let_def split: option.splits)
  moreover have "pkg \<notin> e_name ` set es" if "List.find (\<lambda>e. e_name e = pkg) es = None"
    using that by (auto simp: find_None_iff)
  ultimately show ?thesis using Some by (cases "get_package_info S pkg info0") auto
qed

theorem get_package_info_roundtrip_witness:
  "\<exists>info. get_package_info wit_sys ''a.b'' wit_info = (None, info) \<and>
          pi_uid info = 10001 \<and> isDebuggable info \<and> cstr (dataDir info) = ''/d/a''"
  using get_package_info_roundtrip [OF wit_facts, of "''a.b''"]
  unfolding wit_find by (auto simp: wit_entry_def split: prod.splits option.splits)

text \<open>C3: If \<^verbatim>\<open>run-as\<close> reaches the \<^verbatim>\<open>exec\<close>, its caller is root or the shell, the named package is in the
  database, debuggable and an application, its data directory and every directory above it passed
  the ownership check, and the group and user identifiers were changed to those of the package,
  after moving into that directory.\<close>

theorem run_as_confines:
  assumes "\<forall>e \<in> set es. wf_entry e" and "length (package_db es) \<le> PACKAGES_LIST_BUFFER_SIZE"
    and "sys_read S PACKAGES_LIST_FILE = Some (package_db es)"
    and "length (dataDir info0) = PATH_MAX"
    and run: "run_as_main S exec_ok info0 argv = (evs, Execute prog args)"
  shows "\<exists>e. List.find (\<lambda>e. e_name e = argv ! 1) es = Some e \<and> e_debug e \<and> 10000 \<le> e_uid e \<and>
     sys_getuid S \<in> {AID_ROOT, AID_SHELL} \<and>
     dir_ok S (e_dir e) (of_nat (e_uid e)) \<and>
     (\<forall>p q. e_dir e = p @ CHR ''/'' # q \<and> p \<noteq> [] \<and> q \<noteq> [] \<longrightarrow> subpath_ok S p) \<and>
     evs = [Chdir (e_dir e), Setresgid (of_nat (e_uid e)), Setresuid (of_nat (e_uid e))]"
proof -
  obtain err info where g: "get_package_info S (argv ! 1) info0 = (err, info)"
    by fastforce
  from run g have err: "err = None" and app: "\<not> pi_uid info < AID_APP" and dbg: "isDebuggable info"
    and chk: "check_data_path S (cstr (dataDir info)) (pi_uid info) = None"
    and caller: "sys_getuid S \<in> {AID_ROOT, AID_SHELL}"
    and evs: "evs = [Chdir (cstr (dataDir info)), Setresgid (pi_uid info), Setresuid (pi_uid info)]"
    by (auto simp: run_as_main_def Let_def split: if_splits option.splits)
  obtain e where "e \<in> set es" and e: "List.find (\<lambda>e. e_name e = argv ! 1) es = Some e"
      and uid: "pi_uid info = of_nat (e_uid e)" and flag: "isDebuggable info = e_debug e"
      and dir: "cstr (dataDir info) = e_dir e"
    using get_package_info_found [OF assms(1-4) g [unfolded err]] by blast
  have "e_uid e \<le> INT_MAX"
    using \<open>e \<in> set es\<close> assms(1) by (auto simp: wf_entry_def)
  then have "unat (of_nat (e_uid e) :: u32) = e_uid e"
    by (intro unat_of_nat_lt) simp
  with app uid have "10000 \<le> e_uid e"
    by (simp add: not_less word_le_nat_alt)
  moreover note data_path = check_data_path_None [OF chk]
  ultimately show ?thesis
    using e flag dbg caller evs data_path unfolding dir uid by auto
qed

theorem run_as_confines_witness:
  "\<exists>e. List.find (\<lambda>e. e_name e = ''a.b'') [wit_entry] = Some e \<and> e_debug e \<and>
     dir_ok wit_sys (e_dir e) (of_nat (e_uid e))"
proof -
  have fits: "cstr (string_copy (replicate PATH_MAX NUL) (e_dir wit_entry)) = e_dir wit_entry"
    by (intro string_copy_fits) (simp_all add: wit_entry_def char_consts)
  have g: "get_package_info wit_sys ''a.b'' wit_info =
      (None, \<lparr>pi_uid = 10001, isDebuggable = True,
              dataDir = string_copy (replicate PATH_MAX NUL) (e_dir wit_entry)\<rparr>)"
    unfolding get_package_info_db [OF wit_facts] wit_find
    by (simp add: wit_info_def wit_entry_def)
  have "run_as_main wit_sys (\<lambda>_. True) wit_info [''run-as'', ''a.b''] =
      ([Chdir ''/d/a'', Setresgid 10001, Setresuid 10001], Execute ''/system/bin/sh'' [''sh''])"
    by (simp add: run_as_main_def g fits Let_def)
       (simp add: wit_sys_def wit_entry_def check_data_path_def check_directory_ownership_def)
  from run_as_confines [OF wit_facts this] show ?thesis
    by (simp only: nth_Cons_0 nth_Cons_Suc One_nat_def) blast
qed

subsection \<open>Two divergences from the comments of the source\<close>

text \<open>The comment on \<^verbatim>\<open>parse_positive_decimal\<close> says that a value above \<^verbatim>\<open>INT_MAX\<close> gives -1.  The test
  \<open>val2 < value\<close> only sees a wrap that lands below the previous value.\<close>

lemma parse_positive_decimal_misses_overflow:
  "parse_positive_decimal ''10000000000'' = (1410065408, None, [])"
  by code_simp

text \<open>\<^verbatim>\<open>check_data_path\<close> means to reject any \<^verbatim>\<open>..\<close> sub-path, but looks only before a separator: a last
  component \<^verbatim>\<open>..\<close> is passed to the ownership check as it is.\<close>

lemma check_data_path_trailing_dotdot:
  "dir_ok S ''/d'' AID_SYSTEM \<Longrightarrow> dir_ok S ''/d/..'' uid \<Longrightarrow> check_data_path S ''/d/..'' uid = None"
  by (simp add: check_data_path_def check_directory_ownership_iff [THEN iffD2])

end
