(* ===== verification/Hashmap.thy ===== *)
theory Hashmap
  imports Prelude "HOL-Library.Multiset"
begin

text \<open>
  The chained hash table of \<^verbatim>\<open>src/core/libcutils/hashmap.c\<close>.  A chain of \<^verbatim>\<open>Entry\<close> objects linked by
  \<^verbatim>\<open>next\<close> is the list of its entries, the bucket array a list of chains.  A \<^verbatim>\<open>void*\<close> value is a
  \<open>'v ptr\<close>, with \<open>None\<close> the null pointer; a key is compared by identity (\<open>=\<close>) and by the function
  \<^verbatim>\<open>equals\<close> of the table.  \<^verbatim>\<open>size_t\<close> and \<^verbatim>\<open>int\<close> are 32 bits wide.  Whether an allocation succeeds is an
  argument: \<open>entry_ok A n\<close> says that \<^verbatim>\<open>malloc\<close> finds room for one more entry beside the \<open>n\<close> live
  ones, \<open>table_ok A n\<close> that \<^verbatim>\<open>calloc\<close> finds room for a bucket array of \<open>n\<close> pointers.  The mutex of the
  structure is not modelled.
\<close>

type_synonym 'v ptr = "'v option"

record ('k, 'v) Entry =
  e_key :: 'k
  e_hash :: i32
  e_value :: "'v ptr"

record ('k, 'v) Hashmap =
  buckets :: "('k, 'v) Entry list list"
  bucketCount :: u32
  hm_hash :: "'k \<Rightarrow> i32"
  hm_equals :: "'k \<Rightarrow> 'k \<Rightarrow> bool"
  hm_size :: u32

record alloc =
  map_ok :: bool
  table_ok :: "nat \<Rightarrow> bool"
  entry_ok :: "nat \<Rightarrow> bool"

subsection \<open>Operations\<close>

text \<open>The doubling loop of \<^verbatim>\<open>hashmapCreate\<close>, on the 32-bit counter.  It ends because the bound is a
  third of a 32-bit number: the counter passes it before it can wrap to zero.\<close>

definition minimumBucketCount :: "u32 \<Rightarrow> u32" where
  "minimumBucketCount initialCapacity = initialCapacity * 4 div 3"

fun doubling :: "nat \<Rightarrow> u32 \<Rightarrow> u32 \<Rightarrow> u32 option" where
  "doubling 0 mn c = None"
| "doubling (Suc fuel) mn c = (if c \<le> mn then doubling fuel mn (push_bit 1 c) else Some c)"

definition hashmapCreate ::
  "alloc \<Rightarrow> u32 \<Rightarrow> ('k \<Rightarrow> i32) \<Rightarrow> ('k \<Rightarrow> 'k \<Rightarrow> bool) \<Rightarrow> ('k, 'v) Hashmap option" where
  "hashmapCreate A initialCapacity hash equals =
     (if \<not> map_ok A then None
      else case doubling 33 (minimumBucketCount initialCapacity) 1 of
             None \<Rightarrow> None
           | Some n \<Rightarrow>
               if \<not> table_ok A (unat n) then None
               else Some \<lparr>buckets = replicate (unat n) [], bucketCount = n,
                          hm_hash = hash, hm_equals = equals, hm_size = 0\<rparr>)"

definition hashKey :: "('k, 'v) Hashmap \<Rightarrow> 'k \<Rightarrow> i32" where
  "hashKey m key =
     (let h = hm_hash m key;
          h = h + NOT (push_bit 9 h);
          h = h XOR drop_bit 14 h;
          h = h + push_bit 4 h;
          h = h XOR drop_bit 10 h
      in h)"

definition hashmapSize :: "('k, 'v) Hashmap \<Rightarrow> u32" where
  "hashmapSize m = hm_size m"

definition calculateIndex :: "u32 \<Rightarrow> i32 \<Rightarrow> u32" where
  "calculateIndex n hash = hash AND (n - 1)"

text \<open>Moving a chain into the new bucket array: each entry becomes the head of its new chain.\<close>

fun move_chain ::
  "u32 \<Rightarrow> ('k, 'v) Entry list \<Rightarrow> ('k, 'v) Entry list list \<Rightarrow> ('k, 'v) Entry list list" where
  "move_chain n [] new = new"
| "move_chain n (e # es) new =
     (let index = unat (calculateIndex n (e_hash e))
      in move_chain n es (new[index := e # new ! index]))"

fun move_all ::
  "u32 \<Rightarrow> ('k, 'v) Entry list list \<Rightarrow> ('k, 'v) Entry list list \<Rightarrow> ('k, 'v) Entry list list" where
  "move_all n [] new = new"
| "move_all n (c # cs) new = move_all n cs (move_chain n c new)"

definition expandIfNecessary :: "alloc \<Rightarrow> ('k, 'v) Hashmap \<Rightarrow> ('k, 'v) Hashmap" where
  "expandIfNecessary A m =
     (if bucketCount m * 3 div 4 < hm_size m
      then let n = push_bit 1 (bucketCount m)
           in if \<not> table_ok A (unat n) then m
              else m\<lparr>buckets := move_all n (buckets m) (replicate (unat n) []), bucketCount := n\<rparr>
      else m)"

text \<open>\<^verbatim>\<open>hashmapHash\<close> on the bytes of the key (plain \<^verbatim>\<open>char\<close> is unsigned on the ARM target).\<close>

fun hash_bytes :: "i32 \<Rightarrow> u8 list \<Rightarrow> i32" where
  "hash_bytes h [] = h"
| "hash_bytes h (b # bs) = hash_bytes (h * 31 + ucast b) bs"

definition hashmapHash :: "u8 list \<Rightarrow> i32" where
  "hashmapHash data = hash_bytes (of_nat (length data)) data"

definition createEntry :: "alloc \<Rightarrow> nat \<Rightarrow> 'k \<Rightarrow> i32 \<Rightarrow> 'v ptr \<Rightarrow> ('k, 'v) Entry option" where
  "createEntry A live key hash val =
     (if \<not> entry_ok A live then None
      else Some \<lparr>e_key = key, e_hash = hash, e_value = val\<rparr>)"

definition equalKeys :: "'k \<Rightarrow> i32 \<Rightarrow> 'k \<Rightarrow> i32 \<Rightarrow> ('k \<Rightarrow> 'k \<Rightarrow> bool) \<Rightarrow> bool" where
  "equalKeys keyA hashA keyB hashB equals =
     (if keyA = keyB then True else if hashA \<noteq> hashB then False else equals keyA keyB)"

abbreviation (input) chain_index :: "('k, 'v) Hashmap \<Rightarrow> 'k \<Rightarrow> nat" where
  "chain_index m key \<equiv> unat (calculateIndex (bucketCount m) (hashKey m key))"

text \<open>The search for the entry to replace: \<open>None\<close> when the end of the chain is reached.\<close>

fun put_chain ::
  "('k, 'v) Hashmap \<Rightarrow> ('k, 'v) Entry list \<Rightarrow> 'k \<Rightarrow> i32 \<Rightarrow> 'v ptr \<Rightarrow>
     ('v ptr \<times> ('k, 'v) Entry list) option" where
  "put_chain m [] key hash val = None"
| "put_chain m (e # es) key hash val =
     (if equalKeys (e_key e) (e_hash e) key hash (hm_equals m)
      then Some (e_value e, e\<lparr>e_value := val\<rparr> # es)
      else case put_chain m es key hash val of
             None \<Rightarrow> None
           | Some (old, es') \<Rightarrow> Some (old, e # es'))"

text \<open>The result of \<^verbatim>\<open>hashmapPut\<close> and \<^verbatim>\<open>hashmapMemoize\<close>: the returned pointer, whether \<^verbatim>\<open>errno\<close> was set
  to \<^verbatim>\<open>ENOMEM\<close>, and the table.\<close>

definition hashmapPut ::
  "alloc \<Rightarrow> ('k, 'v) Hashmap \<Rightarrow> 'k \<Rightarrow> 'v ptr \<Rightarrow> 'v ptr \<times> bool \<times> ('k, 'v) Hashmap" where
  "hashmapPut A m key val =
     (let hash = hashKey m key;
          index = chain_index m key;
          chain = buckets m ! index
      in case put_chain m chain key hash val of
           Some (old, chain') \<Rightarrow> (old, False, m\<lparr>buckets := (buckets m)[index := chain']\<rparr>)
         | None \<Rightarrow>
             (case createEntry A (unat (hm_size m)) key hash val of
                None \<Rightarrow> (None, True, m)
              | Some e \<Rightarrow>
                  (None, False,
                   expandIfNecessary A
                     (m\<lparr>buckets := (buckets m)[index := chain @ [e]], hm_size := hm_size m + 1\<rparr>))))"

fun find_chain :: "('k, 'v) Hashmap \<Rightarrow> ('k, 'v) Entry list \<Rightarrow> 'k \<Rightarrow> i32 \<Rightarrow> ('k, 'v) Entry option" where
  "find_chain m [] key hash = None"
| "find_chain m (e # es) key hash =
     (if equalKeys (e_key e) (e_hash e) key hash (hm_equals m) then Some e
      else find_chain m es key hash)"

definition hashmapGet :: "('k, 'v) Hashmap \<Rightarrow> 'k \<Rightarrow> 'v ptr" where
  "hashmapGet m key =
     (case find_chain m (buckets m ! chain_index m key) key (hashKey m key) of
        Some e \<Rightarrow> e_value e
      | None \<Rightarrow> None)"

definition hashmapContainsKey :: "('k, 'v) Hashmap \<Rightarrow> 'k \<Rightarrow> bool" where
  "hashmapContainsKey m key =
     (case find_chain m (buckets m ! chain_index m key) key (hashKey m key) of
        Some e \<Rightarrow> True
      | None \<Rightarrow> False)"

text \<open>\<^verbatim>\<open>hashmapMemoize\<close>: \<open>initialValue\<close> is the callback together with its context.\<close>

definition hashmapMemoize ::
  "alloc \<Rightarrow> ('k, 'v) Hashmap \<Rightarrow> 'k \<Rightarrow> ('k \<Rightarrow> 'v ptr) \<Rightarrow> 'v ptr \<times> bool \<times> ('k, 'v) Hashmap" where
  "hashmapMemoize A m key initialValue =
     (let hash = hashKey m key;
          index = chain_index m key;
          chain = buckets m ! index
      in case find_chain m chain key hash of
           Some e \<Rightarrow> (e_value e, False, m)
         | None \<Rightarrow>
             (case createEntry A (unat (hm_size m)) key hash None of
                None \<Rightarrow> (None, True, m)
              | Some e \<Rightarrow>
                  let val = initialValue key in
                  (val, False,
                   expandIfNecessary A
                     (m\<lparr>buckets := (buckets m)[index := chain @ [e\<lparr>e_value := val\<rparr>]],
                        hm_size := hm_size m + 1\<rparr>))))"

fun remove_chain ::
  "('k, 'v) Hashmap \<Rightarrow> ('k, 'v) Entry list \<Rightarrow> 'k \<Rightarrow> i32 \<Rightarrow>
     ('v ptr \<times> ('k, 'v) Entry list) option" where
  "remove_chain m [] key hash = None"
| "remove_chain m (e # es) key hash =
     (if equalKeys (e_key e) (e_hash e) key hash (hm_equals m) then Some (e_value e, es)
      else case remove_chain m es key hash of
             None \<Rightarrow> None
           | Some (old, es') \<Rightarrow> Some (old, e # es'))"

definition hashmapRemove :: "('k, 'v) Hashmap \<Rightarrow> 'k \<Rightarrow> 'v ptr \<times> ('k, 'v) Hashmap" where
  "hashmapRemove m key =
     (let hash = hashKey m key;
          index = chain_index m key
      in case remove_chain m (buckets m ! index) key hash of
           Some (old, chain') \<Rightarrow>
             (old, m\<lparr>buckets := (buckets m)[index := chain'], hm_size := hm_size m - 1\<rparr>)
         | None \<Rightarrow> (None, m))"

text \<open>\<^verbatim>\<open>hashmapForEach\<close>: the callback changes its context and says whether to go on.\<close>

fun for_each_chain ::
  "('k \<Rightarrow> 'v ptr \<Rightarrow> 'c \<Rightarrow> bool \<times> 'c) \<Rightarrow> ('k, 'v) Entry list \<Rightarrow> 'c \<Rightarrow> bool \<times> 'c" where
  "for_each_chain f [] ctx = (True, ctx)"
| "for_each_chain f (e # es) ctx =
     (case f (e_key e) (e_value e) ctx of
        (False, ctx') \<Rightarrow> (False, ctx')
      | (True, ctx') \<Rightarrow> for_each_chain f es ctx')"

fun for_each_bucket ::
  "('k \<Rightarrow> 'v ptr \<Rightarrow> 'c \<Rightarrow> bool \<times> 'c) \<Rightarrow> ('k, 'v) Entry list list \<Rightarrow> 'c \<Rightarrow> 'c" where
  "for_each_bucket f [] ctx = ctx"
| "for_each_bucket f (c # cs) ctx =
     (case for_each_chain f c ctx of
        (False, ctx') \<Rightarrow> ctx'
      | (True, ctx') \<Rightarrow> for_each_bucket f cs ctx')"

definition hashmapForEach ::
  "('k, 'v) Hashmap \<Rightarrow> ('k \<Rightarrow> 'v ptr \<Rightarrow> 'c \<Rightarrow> bool \<times> 'c) \<Rightarrow> 'c \<Rightarrow> 'c" where
  "hashmapForEach m callback ctx = for_each_bucket callback (buckets m) ctx"

definition hashmapCurrentCapacity :: "('k, 'v) Hashmap \<Rightarrow> u32" where
  "hashmapCurrentCapacity m = bucketCount m * 3 div 4"

fun chain_collisions :: "('k, 'v) Entry list \<Rightarrow> u32 \<Rightarrow> u32" where
  "chain_collisions [] n = n"
| "chain_collisions (e # es) n = chain_collisions es (if es \<noteq> [] then n + 1 else n)"

fun count_collisions :: "('k, 'v) Entry list list \<Rightarrow> u32 \<Rightarrow> u32" where
  "count_collisions [] n = n"
| "count_collisions (c # cs) n = count_collisions cs (chain_collisions c n)"

definition hashmapCountCollisions :: "('k, 'v) Hashmap \<Rightarrow> u32" where
  "hashmapCountCollisions m = count_collisions (buckets m) 0"

text \<open>The key functions for pointers to \<^verbatim>\<open>int\<close>: \<open>deref\<close> reads the pointer.\<close>

definition hashmapIntHash :: "('p \<Rightarrow> i32) \<Rightarrow> 'p \<Rightarrow> i32" where
  "hashmapIntHash deref key = deref key"

definition hashmapIntEquals :: "('p \<Rightarrow> i32) \<Rightarrow> 'p \<Rightarrow> 'p \<Rightarrow> bool" where
  "hashmapIntEquals deref keyA keyB = (deref keyA = deref keyB)"

subsection \<open>Invariant and abstraction\<close>

text \<open>What the documentation of \<^verbatim>\<open>hashmapCreate\<close> asks of the callbacks: \<^verbatim>\<open>equals\<close> is an equivalence
  and equal keys have equal hashes.\<close>

definition keys_ok :: "('k, 'v) Hashmap \<Rightarrow> bool" where
  "keys_ok m \<longleftrightarrow>
     equivp (hm_equals m) \<and> (\<forall>a b. hm_equals m a b \<longrightarrow> hm_hash m a = hm_hash m b)"

abbreviation entries :: "('k, 'v) Hashmap \<Rightarrow> ('k, 'v) Entry list" where
  "entries m \<equiv> concat (buckets m)"

definition at_home :: "('k, 'v) Hashmap \<Rightarrow> u32 \<Rightarrow> nat \<Rightarrow> ('k, 'v) Entry \<Rightarrow> bool" where
  "at_home m n i e \<longleftrightarrow>
     e_hash e = hashKey m (e_key e) \<and> unat (calculateIndex n (e_hash e)) = i"

definition placed :: "('k, 'v) Hashmap \<Rightarrow> u32 \<Rightarrow> ('k, 'v) Entry list list \<Rightarrow> bool" where
  "placed m n B \<longleftrightarrow>
     (\<forall>i < length B. \<forall>e \<in> set (B ! i). at_home m n i e)"

definition unique_keys :: "('k, 'v) Hashmap \<Rightarrow> ('k, 'v) Entry list \<Rightarrow> bool" where
  "unique_keys m es \<longleftrightarrow>
     distinct es \<and> (\<forall>d \<in> set es. \<forall>e \<in> set es. hm_equals m (e_key d) (e_key e) \<longrightarrow> d = e)"

definition hm_inv :: "('k, 'v) Hashmap \<Rightarrow> bool" where
  "hm_inv m \<longleftrightarrow>
     keys_ok m \<and> (\<exists>k \<le> 29. unat (bucketCount m) = 2 ^ k) \<and>
     length (buckets m) = unat (bucketCount m) \<and> placed m (bucketCount m) (buckets m) \<and>
     unique_keys m (entries m) \<and> unat (hm_size m) = length (entries m) \<and>
     length (entries m) \<le> 2 ^ 28"

text \<open>The map a table stands for, with no hashing.\<close>

definition hm_map :: "('k, 'v) Hashmap \<Rightarrow> 'k \<Rightarrow> 'v ptr option" where
  "hm_map m key = map_option e_value (List.find (\<lambda>e. hm_equals m (e_key e) key) (entries m))"

text \<open>A 32-bit address space holds fewer than \<open>2 ^ 28\<close> entries of 16 bytes and no array of \<open>2 ^ 30\<close>
  pointers.\<close>

definition alloc_fits :: "alloc \<Rightarrow> bool" where
  "alloc_fits A \<longleftrightarrow> (\<forall>n. entry_ok A n \<longrightarrow> n < 2 ^ 28) \<and> (\<forall>n. table_ok A n \<longrightarrow> n < 2 ^ 30)"

subsection \<open>Chains\<close>

lemma calculateIndex_bound: "n \<noteq> 0 \<Longrightarrow> unat (calculateIndex n h) < unat n"
proof -
  assume n: "n \<noteq> 0"
  have "unat (h AND (n - 1)) \<le> unat (n - 1)"
    by (rule word_and_le1 [THEN word_le_nat_alt [THEN iffD1]])
  also have "unat (n - 1) < unat n"
    using n by (simp add: unat_minus_one unat_gt_0)
  finally show ?thesis by (simp add: calculateIndex_def)
qed

lemma hashKey_cong: "keys_ok m \<Longrightarrow> hm_equals m a b \<Longrightarrow> hashKey m a = hashKey m b"
  by (simp add: keys_ok_def hashKey_def)

lemma equalKeys_iff:
  "keys_ok m \<Longrightarrow> equalKeys a (hashKey m a) b (hashKey m b) (hm_equals m) = hm_equals m a b"
  by (auto simp: equalKeys_def keys_ok_def hashKey_def dest: equivp_reflp)

lemma find_chain_eq:
  "keys_ok m \<Longrightarrow> \<forall>e \<in> set c. e_hash e = hashKey m (e_key e) \<Longrightarrow>
   find_chain m c key (hashKey m key) = List.find (\<lambda>e. hm_equals m (e_key e) key) c"
  by (induction c) (auto simp: equalKeys_iff)

lemma put_chain_None_iff:
  "keys_ok m \<Longrightarrow> \<forall>e \<in> set c. e_hash e = hashKey m (e_key e) \<Longrightarrow>
   put_chain m c key (hashKey m key) val = None \<longleftrightarrow> (\<forall>e \<in> set c. \<not> hm_equals m (e_key e) key)"
  by (induction c) (auto simp: equalKeys_iff split: option.splits)

lemma put_chain_SomeD:
  "keys_ok m \<Longrightarrow> \<forall>e \<in> set c. e_hash e = hashKey m (e_key e) \<Longrightarrow>
   put_chain m c key (hashKey m key) val = Some (old, c') \<Longrightarrow>
   \<exists>p e q. c = p @ e # q \<and> hm_equals m (e_key e) key \<and> old = e_value e \<and>
           c' = p @ e\<lparr>e_value := val\<rparr> # q"
proof (induction c arbitrary: c')
  case (Cons e es)
  show ?case
  proof (cases "hm_equals m (e_key e) key")
    case True
    with Cons.prems have "e # es = [] @ e # es \<and> old = e_value e \<and> c' = [] @ e\<lparr>e_value := val\<rparr> # es"
      by (auto simp: equalKeys_iff)
    with True show ?thesis by blast
  next
    case False
    with Cons.prems obtain es' where "put_chain m es key (hashKey m key) val = Some (old, es')"
      and c': "c' = e # es'"
      by (auto simp: equalKeys_iff split: option.splits)
    with Cons.IH [of es'] Cons.prems obtain p d q where "es = p @ d # q"
      "hm_equals m (e_key d) key" "old = e_value d" "es' = p @ d\<lparr>e_value := val\<rparr> # q" by auto
    then have "e # es = (e # p) @ d # q \<and> hm_equals m (e_key d) key \<and> old = e_value d \<and>
      c' = (e # p) @ d\<lparr>e_value := val\<rparr> # q"
      using c' by simp
    then show ?thesis by blast
  qed
qed simp

lemma remove_chain_None_iff:
  "keys_ok m \<Longrightarrow> \<forall>e \<in> set c. e_hash e = hashKey m (e_key e) \<Longrightarrow>
   remove_chain m c key (hashKey m key) = None \<longleftrightarrow> (\<forall>e \<in> set c. \<not> hm_equals m (e_key e) key)"
  by (induction c) (auto simp: equalKeys_iff split: option.splits)

lemma remove_chain_SomeD:
  "keys_ok m \<Longrightarrow> \<forall>e \<in> set c. e_hash e = hashKey m (e_key e) \<Longrightarrow>
   remove_chain m c key (hashKey m key) = Some (old, c') \<Longrightarrow>
   \<exists>p e q. c = p @ e # q \<and> hm_equals m (e_key e) key \<and> old = e_value e \<and> c' = p @ q"
proof (induction c arbitrary: c')
  case (Cons e es)
  show ?case
  proof (cases "hm_equals m (e_key e) key")
    case True
    with Cons.prems have "e # es = [] @ e # es \<and> old = e_value e \<and> c' = [] @ es"
      by (auto simp: equalKeys_iff)
    with True show ?thesis by blast
  next
    case False
    with Cons.prems obtain es' where "remove_chain m es key (hashKey m key) = Some (old, es')"
      and c': "c' = e # es'"
      by (auto simp: equalKeys_iff split: option.splits)
    with Cons.IH [of es'] Cons.prems obtain p d q where "es = p @ d # q"
      "hm_equals m (e_key d) key" "old = e_value d" "es' = p @ q" by auto
    then have "e # es = (e # p) @ d # q \<and> hm_equals m (e_key d) key \<and> old = e_value d \<and>
      c' = (e # p) @ q"
      using c' by simp
    then show ?thesis by blast
  qed
qed simp

subsection \<open>The bucket array\<close>

lemma concat_nth_split:
  "i < length B \<Longrightarrow> concat B = concat (take i B) @ B ! i @ concat (drop (Suc i) B)"
  using arg_cong [OF id_take_nth_drop, of i B concat] by simp

lemma concat_update:
  "i < length B \<Longrightarrow> concat (B[i := c]) = concat (take i B) @ c @ concat (drop (Suc i) B)"
  by (simp add: upd_conv_take_nth_drop)

lemma placedD:
  "placed m n B \<Longrightarrow> i < length B \<Longrightarrow> e \<in> set (B ! i) \<Longrightarrow> at_home m n i e"
  unfolding placed_def by blast

lemma at_home_value [simp]: "at_home m n i (e\<lparr>e_value := v\<rparr>) = at_home m n i e"
  by (simp add: at_home_def)

lemma at_home_new [simp]:
  "at_home m n (unat (calculateIndex n (hashKey m key)))
     \<lparr>e_key = key, e_hash = hashKey m key, e_value = v\<rparr>"
  by (simp add: at_home_def)

lemma at_home_hash: "at_home m n i e \<Longrightarrow> e_hash e = hashKey m (e_key e)"
  by (simp add: at_home_def)

lemma placed_update:
  "placed m n B \<Longrightarrow> \<forall>e \<in> set c. at_home m n i e \<Longrightarrow> placed m n (B[i := c])"
  unfolding placed_def by (metis length_list_update nth_list_update_eq nth_list_update_neq)

lemma placed_hash: "placed m n B \<Longrightarrow> e \<in> set (concat B) \<Longrightarrow> e_hash e = hashKey m (e_key e)"
  using placedD at_home_hash unfolding in_set_concat_nth by blast

text \<open>All the entries that match a key lie in the chain of that key.\<close>

lemma match_in_chain:
  assumes "keys_ok m" "placed m n B" "e \<in> set (concat B)" "hm_equals m (e_key e) key"
  shows "e \<in> set (B ! unat (calculateIndex n (hashKey m key)))"
proof -
  from assms(3) obtain i where i: "i < length B" "e \<in> set (B ! i)"
    by (auto simp only: in_set_concat_nth)
  then have "at_home m n i e"
    by (rule placedD [OF assms(2)])
  then have "i = unat (calculateIndex n (hashKey m (e_key e)))"
    by (auto simp: at_home_def)
  with hashKey_cong [OF assms(1,4)] i show ?thesis by simp
qed

lemma unique_keys_replace:
  assumes "unique_keys m (P @ e # Q)" "keys_ok m"
  shows "unique_keys m (P @ e\<lparr>e_value := v\<rparr> # Q)"
proof -
  let ?e = "e\<lparr>e_value := v\<rparr>"
  have "?e \<notin> set (P @ Q)"
  proof
    assume "?e \<in> set (P @ Q)"
    moreover have "hm_equals m (e_key ?e) (e_key e)"
      using assms(2) by (simp add: keys_ok_def equivp_reflp)
    moreover have "set (P @ Q) \<subseteq> set (P @ e # Q)" "e \<in> set (P @ e # Q)" by auto
    ultimately have "?e = e"
      using assms(1) unfolding unique_keys_def by blast
    with \<open>?e \<in> set (P @ Q)\<close> have "e \<in> set (P @ Q)" by simp
    with assms(1) show False by (auto simp: unique_keys_def)
  qed
  with assms(1) show ?thesis unfolding unique_keys_def by auto
qed

lemma unique_keys_remove: "unique_keys m (P @ e # Q) \<Longrightarrow> unique_keys m (P @ Q)"
  by (auto simp: unique_keys_def)

lemma unique_keys_add:
  assumes "unique_keys m (P @ Q)" "keys_ok m"
    and "\<And>d. d \<in> set (P @ Q) \<Longrightarrow> \<not> hm_equals m (e_key d) (e_key e)"
  shows "unique_keys m (P @ e # Q)"
proof -
  have "\<not> hm_equals m (e_key e) (e_key d)" if "d \<in> set (P @ Q)" for d
    using assms(2) assms(3) [OF that] unfolding keys_ok_def by (meson equivp_symp)
  moreover have "e \<notin> set (P @ Q)"
    using assms(2,3) by (meson equivp_reflp keys_ok_def)
  ultimately show ?thesis
    using assms(1,3) unfolding unique_keys_def by auto
qed

lemma unique_keys_mset:
  "mset xs = mset ys \<Longrightarrow> unique_keys m xs = unique_keys m ys"
  using mset_eq_imp_distinct_iff [of xs ys] mset_eq_setD [of xs ys] by (simp add: unique_keys_def)

subsection \<open>The abstraction\<close>

lemma find_unique:
  assumes "e \<in> set xs" "P e" "\<And>d. d \<in> set xs \<Longrightarrow> P d \<Longrightarrow> d = e"
  shows "List.find P xs = Some e"
  using assms
proof (induction xs)
  case (Cons x xs)
  show ?case
  proof (cases "P x")
    case True
    with Cons.prems(3) [of x] show ?thesis by simp
  next
    case False
    with Cons.prems(1,2) have "e \<in> set xs" by auto
    then have "List.find P xs = Some e"
      using Cons.prems(2) by (rule Cons.IH) (rule Cons.prems(3), simp_all)
    with False show ?thesis by simp
  qed
qed simp

lemma hm_map_Some_iff:
  assumes "keys_ok m" "unique_keys m (entries m)"
  shows "hm_map m key = Some p \<longleftrightarrow>
    (\<exists>e \<in> set (entries m). hm_equals m (e_key e) key \<and> e_value e = p)"
proof
  assume "hm_map m key = Some p"
  then show "\<exists>e \<in> set (entries m). hm_equals m (e_key e) key \<and> e_value e = p"
    unfolding hm_map_def by (auto dest!: find_SomeD simp del: set_concat)
next
  assume "\<exists>e \<in> set (entries m). hm_equals m (e_key e) key \<and> e_value e = p"
  then obtain e where e: "e \<in> set (entries m)" "hm_equals m (e_key e) key" "e_value e = p" by blast
  have "d = e" if "d \<in> set (entries m)" "hm_equals m (e_key d) key" for d
  proof -
    have eq: "equivp (hm_equals m)" using assms(1) by (simp add: keys_ok_def)
    have "hm_equals m key (e_key e)" using e(2) by (rule equivp_symp [OF eq])
    with that(2) have "hm_equals m (e_key d) (e_key e)" by (rule equivp_transp [OF eq])
    with that(1) e(1) assms(2) show ?thesis unfolding unique_keys_def by blast
  qed
  with e(1,2) have "List.find (\<lambda>e. hm_equals m (e_key e) key) (entries m) = Some e"
    by (rule find_unique)
  with e show "hm_map m key = Some p" by (simp add: hm_map_def)
qed

lemma hm_map_None_iff: "hm_map m key = None \<longleftrightarrow> (\<forall>e \<in> set (entries m). \<not> hm_equals m (e_key e) key)"
  unfolding hm_map_def option.map_disc_iff find_None_iff by blast

lemma hm_inv_table:
  assumes "hm_inv m"
  shows "keys_ok m" "placed m (bucketCount m) (buckets m)" "unique_keys m (entries m)"
    "chain_index m key < length (buckets m)"
proof -
  show "keys_ok m" "placed m (bucketCount m) (buckets m)" "unique_keys m (entries m)"
    using assms by (auto simp: hm_inv_def)
  have "bucketCount m \<noteq> 0"
    using assms by (auto simp: hm_inv_def)
  then show "chain_index m key < length (buckets m)"
    using assms calculateIndex_bound by (simp add: hm_inv_def)
qed

lemma chain_hashes:
  assumes "hm_inv m"
  shows "\<forall>e \<in> set (buckets m ! chain_index m key). e_hash e = hashKey m (e_key e)"
  using hm_inv_table(4) [OF assms, of key] placedD [OF hm_inv_table(2) [OF assms]] at_home_hash
  by blast

lemma hm_map_chain:
  assumes "hm_inv m"
  shows "hm_map m key = map_option e_value
    (find_chain m (buckets m ! chain_index m key) key (hashKey m key))"
proof -
  note tab = hm_inv_table [OF assms]
  let ?c = "buckets m ! chain_index m key"
  have eq: "find_chain m ?c key (hashKey m key) = List.find (\<lambda>e. hm_equals m (e_key e) key) ?c"
    using find_chain_eq [OF tab(1) chain_hashes [OF assms, of key], of key] .
  have sub: "set ?c \<subseteq> set (entries m)"
    unfolding subset_iff in_set_concat_nth using tab(4) [of key] by blast
  show ?thesis
  proof (cases "List.find (\<lambda>e. hm_equals m (e_key e) key) ?c")
    case None
    then have "\<forall>e \<in> set ?c. \<not> hm_equals m (e_key e) key"
      unfolding find_None_iff by blast
    then have "\<forall>e \<in> set (entries m). \<not> hm_equals m (e_key e) key"
      using match_in_chain [OF tab(1,2), of _ key] by meson
    then have "hm_map m key = None"
      unfolding hm_map_None_iff .
    then show ?thesis unfolding eq None by simp
  next
    case (Some e)
    then have "e \<in> set ?c \<and> hm_equals m (e_key e) key"
      by (rule find_SomeD)
    then have "hm_map m key = Some (e_value e)"
      using sub unfolding hm_map_Some_iff [OF tab(1,3)] by blast
    then show ?thesis unfolding eq Some by simp
  qed
qed

subsection \<open>Rehashing\<close>

lemma move_chain_length: "length (move_chain n es new) = length new"
  by (induction es arbitrary: new) (auto simp: Let_def)

lemma move_all_length: "length (move_all n cs new) = length new"
  by (induction cs arbitrary: new) (auto simp: move_chain_length)

lemma mset_concat_push:
  assumes "i < length B"
  shows "mset (concat (B[i := e # B ! i])) = add_mset e (mset (concat B))"
  using concat_nth_split [OF assms] concat_update [OF assms, of "e # B ! i"] by simp

lemma move_chain_mset:
  "n \<noteq> 0 \<Longrightarrow> length new = unat n \<Longrightarrow>
   mset (concat (move_chain n es new)) = mset es + mset (concat new)"
proof (induction es arbitrary: new)
  case (Cons e es)
  let ?i = "unat (calculateIndex n (e_hash e))"
  have i: "?i < length new" using Cons.prems calculateIndex_bound by simp
  have "mset (concat (move_chain n (e # es) new)) = mset es + mset (concat (new[?i := e # new ! ?i]))"
    using Cons by (simp add: Let_def)
  also have "\<dots> = mset (e # es) + mset (concat new)"
    unfolding mset_concat_push [OF i] by simp
  finally show ?case .
qed simp

lemma move_all_mset:
  "n \<noteq> 0 \<Longrightarrow> length new = unat n \<Longrightarrow>
   mset (concat (move_all n cs new)) = mset (concat cs) + mset (concat new)"
  by (induction cs arbitrary: new) (simp_all add: move_chain_length move_chain_mset)

lemma move_chain_placed:
  "placed m n new \<Longrightarrow> \<forall>e \<in> set es. e_hash e = hashKey m (e_key e) \<Longrightarrow> n \<noteq> 0 \<Longrightarrow>
   length new = unat n \<Longrightarrow> placed m n (move_chain n es new)"
proof (induction es arbitrary: new)
  case (Cons e es)
  let ?i = "unat (calculateIndex n (e_hash e))"
  have i: "?i < length new" using Cons.prems calculateIndex_bound by simp
  have "placed m n (new[?i := e # new ! ?i])"
  proof (rule placed_update [OF Cons.prems(1)])
    have "at_home m n ?i e" using Cons.prems(2) by (simp add: at_home_def)
    then show "\<forall>d \<in> set (e # new ! ?i). at_home m n ?i d"
      using placedD [OF Cons.prems(1) i] by simp
  qed
  with Cons show ?case by (simp add: Let_def)
qed simp

lemma move_all_placed:
  "placed m n new \<Longrightarrow> \<forall>e \<in> set (concat cs). e_hash e = hashKey m (e_key e) \<Longrightarrow> n \<noteq> 0 \<Longrightarrow>
   length new = unat n \<Longrightarrow> placed m n (move_all n cs new)"
  by (induction cs arbitrary: new) (simp_all add: move_chain_length move_chain_placed)

lemma placed_cong:
  "hm_hash m' = hm_hash m \<Longrightarrow> placed m' n B = placed m n B"
  by (simp add: placed_def at_home_def hashKey_def)

lemma unique_keys_cong:
  "hm_equals m' = hm_equals m \<Longrightarrow> unique_keys m' es = unique_keys m es"
  by (simp add: unique_keys_def)

lemma keys_ok_cong:
  "hm_hash m' = hm_hash m \<Longrightarrow> hm_equals m' = hm_equals m \<Longrightarrow> keys_ok m' = keys_ok m"
  by (simp add: keys_ok_def)

text \<open>Doubling a bucket count below \<open>2 ^ 30\<close> does not wrap.\<close>

lemma double_bucketCount:
  assumes "unat n = 2 ^ k" "k \<le> 29"
  shows "unat (push_bit 1 (n :: u32)) = 2 ^ Suc k"
proof -
  have "(2 :: nat) ^ Suc k \<le> 2 ^ 30" using assms(2) by (intro power_increasing) auto
  then have "2 * unat n < 2 ^ LENGTH(32)" using assms(1) by simp
  then show ?thesis
    using assms(1) by (simp add: push_bit_eq_mult unat_word_ariths)
qed

definition same_table :: "('k, 'v) Hashmap \<Rightarrow> ('k, 'v) Hashmap \<Rightarrow> bool" where
  "same_table m m' \<longleftrightarrow>
     hm_hash m' = hm_hash m \<and> hm_equals m' = hm_equals m \<and> hm_size m' = hm_size m \<and>
     mset (entries m') = mset (entries m)"

lemma rehash_inv:
  assumes "hm_inv m" "unat n = 2 ^ k" "k \<le> 29" "length B = unat n" "placed m n B"
    and ms: "mset (concat B) = mset (entries m)"
  shows "hm_inv (m\<lparr>buckets := B, bucketCount := n\<rparr>)"
proof -
  let ?m = "m\<lparr>buckets := B, bucketCount := n\<rparr>"
  have "unique_keys ?m (concat B)"
    using hm_inv_table(3) [OF assms(1)] unique_keys_mset [OF ms] unique_keys_cong [of ?m m] by simp
  moreover have "length (concat B) = length (entries m)"
    using ms by (rule mset_eq_length)
  moreover have "keys_ok ?m" "placed ?m n B"
    using assms(5) hm_inv_table(1) [OF assms(1)] keys_ok_cong [of ?m m] placed_cong [of ?m m] by simp_all
  moreover have "\<exists>k \<le> 29. unat n = 2 ^ k" using assms(2,3) by blast
  ultimately show ?thesis
    using assms(1,4) unfolding hm_inv_def by simp
qed

lemma expandIfNecessary_same_table:
  assumes "hm_inv m" "alloc_fits A"
  shows "same_table m (expandIfNecessary A m)" and "hm_inv (expandIfNecessary A m)"
proof -
  note tab = hm_inv_table [OF assms(1)]
  obtain k where k: "k \<le> 29" "unat (bucketCount m) = 2 ^ k"
    using assms(1) by (auto simp: hm_inv_def)
  define n where "n = push_bit 1 (bucketCount m)"
  define B where "B = move_all n (buckets m) (replicate (unat n) [])"
  have n: "unat n = 2 ^ Suc k" unfolding n_def by (rule double_bucketCount [OF k(2,1)])
  then have n0: "n \<noteq> 0" by (metis power_not_zero unat_0 zero_neq_numeral)
  have ms: "mset (concat B) = mset (entries m)"
    unfolding B_def using move_all_mset [OF n0, of "replicate (unat n) []" "buckets m"] by simp
  have pl: "placed m n B"
    unfolding B_def using placed_hash [OF tab(2)] n0
    by (intro move_all_placed) (auto simp: placed_def simp del: set_concat)
  have len: "length B = unat n" by (simp add: B_def move_all_length)
  have expand: "expandIfNecessary A m =
    (if bucketCount m * 3 div 4 < hm_size m \<and> table_ok A (unat n)
     then m\<lparr>buckets := B, bucketCount := n\<rparr> else m)"
    by (simp add: expandIfNecessary_def Let_def n_def B_def)
  have "Suc k \<le> 29" if "table_ok A (unat n)"
  proof -
    have "(2 :: nat) ^ Suc k < 2 ^ 30"
      using that assms(2) unfolding n alloc_fits_def by blast
    then have "Suc k < 30" by (rule power_less_imp_less_exp [rotated]) simp
    then show ?thesis by simp
  qed
  then show "hm_inv (expandIfNecessary A m)"
    unfolding expand using rehash_inv [OF assms(1) n _ len pl ms] assms(1) by auto
  show "same_table m (expandIfNecessary A m)"
    unfolding expand using ms by (simp add: same_table_def)
qed

lemma same_table_map:
  assumes "hm_inv m" "hm_inv m'" "same_table m m'"
  shows "hm_map m' = hm_map m"
proof
  fix key
  have "set (entries m') = set (entries m)" "hm_equals m' = hm_equals m"
    using assms(3) by (auto simp only: same_table_def dest: mset_eq_setD)
  then have "hm_map m' key = Some p \<longleftrightarrow> hm_map m key = Some p" for p
    using hm_map_Some_iff [OF hm_inv_table(1,3) [OF assms(1)]]
      hm_map_Some_iff [OF hm_inv_table(1,3) [OF assms(2)]] by metis
  then show "hm_map m' key = hm_map m key" by (metis option.exhaust)
qed

subsection \<open>Inserting and removing\<close>

text \<open>The tables before and after an update at one position of the entry list.\<close>

definition updated ::
  "('k, 'v) Hashmap \<Rightarrow> ('k, 'v) Entry list \<Rightarrow> u32 \<Rightarrow> 'k \<Rightarrow> ('k, 'v) Hashmap" where
  "updated m c' sz key =
     m\<lparr>buckets := (buckets m)[chain_index m key := c'], hm_size := sz\<rparr>"

lemma updated_inv:
  assumes inv: "hm_inv m"
    and c: "buckets m ! chain_index m key = p @ xs @ q" and c': "c' = p @ ys @ q"
    and ys: "\<forall>e \<in> set ys. at_home m (bucketCount m) (chain_index m key) e"
    and uk: "\<And>P Q. entries m = P @ xs @ Q \<Longrightarrow> unique_keys m (P @ ys @ Q)"
    and sz: "unat sz = length (entries m) - length xs + length ys"
      "length (entries m) - length xs + length ys \<le> 2 ^ 28"
  shows "hm_inv (updated m c' sz key)"
    and "\<exists>P Q. entries m = P @ xs @ Q \<and> entries (updated m c' sz key) = P @ ys @ Q"
proof -
  note tab = hm_inv_table [OF inv]
  let ?i = "chain_index m key" and ?B = "buckets m"
  let ?P = "concat (take ?i ?B) @ p" and ?Q = "q @ concat (drop (Suc ?i) ?B)"
  let ?m = "updated m c' sz key"
  have old: "entries m = ?P @ xs @ ?Q"
    using concat_nth_split [OF tab(4) [of key]] c by simp
  have new: "entries ?m = ?P @ ys @ ?Q"
    using concat_update [OF tab(4) [of key], of c'] c' by (simp add: updated_def)
  from old new show "\<exists>P Q. entries m = P @ xs @ Q \<and> entries ?m = P @ ys @ Q" by blast
  have "unique_keys m (entries ?m)"
    unfolding new by (rule uk [OF old])
  then have "unique_keys ?m (entries ?m)"
    using unique_keys_cong [of ?m m] by (simp add: updated_def)
  moreover have "placed m (bucketCount m) (?B[?i := c'])"
    using c c' ys placedD [OF tab(2) tab(4) [of key]] by (intro placed_update tab(2)) auto
  then have "placed ?m (bucketCount m) (buckets ?m)"
    using placed_cong [of ?m m] by (simp add: updated_def)
  moreover have "length (entries ?m) = length (entries m) - length xs + length ys"
    using old new by simp
  moreover have "keys_ok ?m"
    using tab(1) keys_ok_cong [of ?m m] by (simp add: updated_def)
  ultimately show "hm_inv ?m"
    using inv sz unfolding hm_inv_def by (simp add: updated_def)
qed

lemma updated_replace:
  assumes inv: "hm_inv m" and c: "buckets m ! chain_index m key = p @ e # q"
    and m': "m' = updated m (p @ e\<lparr>e_value := v\<rparr> # q) (hm_size m) key"
  shows "hm_inv m' \<and> (\<exists>P Q. entries m = P @ e # Q \<and> entries m' = P @ e\<lparr>e_value := v\<rparr> # Q)"
proof -
  note tab = hm_inv_table [OF inv]
  have c3: "buckets m ! chain_index m key = p @ [e] @ q" using c by simp
  have home: "\<forall>d \<in> set [e\<lparr>e_value := v\<rparr>]. at_home m (bucketCount m) (chain_index m key) d"
    using placedD [OF tab(2) tab(4) [of key], of e] c by simp
  have uk: "unique_keys m (P @ [e\<lparr>e_value := v\<rparr>] @ Q)" if "entries m = P @ [e] @ Q" for P Q
    using unique_keys_replace [OF _ tab(1), of P e Q] tab(3) that by simp
  have "1 \<le> length (entries m)"
    using concat_nth_split [OF tab(4) [of key]] c by simp
  then have sz: "unat (hm_size m) = length (entries m) - length [e] + length [e\<lparr>e_value := v\<rparr>]"
    and le: "length (entries m) - length [e] + length [e\<lparr>e_value := v\<rparr>] \<le> 2 ^ 28"
    using inv unfolding hm_inv_def by auto
  from updated_inv [OF inv c3 _ home uk sz le] show ?thesis unfolding m' by simp
qed

lemma updated_add:
  assumes inv: "hm_inv m" and fresh: "hm_map m (e_key e) = None"
    and home: "at_home m (bucketCount m) (chain_index m (e_key e)) e"
    and small: "length (entries m) < 2 ^ 28"
    and m': "m' = updated m (buckets m ! chain_index m (e_key e) @ [e]) (hm_size m + 1) (e_key e)"
  shows "hm_inv m' \<and> mset (entries m') = add_mset e (mset (entries m))"
proof -
  note tab = hm_inv_table [OF inv]
  let ?c = "buckets m ! chain_index m (e_key e)"
  have c3: "?c = ?c @ [] @ []" by simp
  have uk: "unique_keys m (P @ [e] @ Q)" if "entries m = P @ [] @ Q" for P Q
    using unique_keys_add [OF _ tab(1), of P Q e] tab(3) that fresh
    unfolding hm_map_None_iff by simp
  have "unat (hm_size m) = length (entries m)" using inv by (simp add: hm_inv_def)
  then have sz: "unat (hm_size m + 1) = length (entries m) - length ([] :: ('a, 'b) Entry list) + length [e]"
    using small by (simp add: unat_word_ariths)
  have le: "length (entries m) - length ([] :: ('a, 'b) Entry list) + length [e] \<le> 2 ^ 28"
    using small by simp
  have home': "\<forall>d \<in> set [e]. at_home m (bucketCount m) (chain_index m (e_key e)) d"
    using home by simp
  from updated_inv [OF inv c3 _ home' uk sz le] show ?thesis unfolding m' by auto
qed

lemma updated_remove:
  assumes inv: "hm_inv m" and c: "buckets m ! chain_index m key = p @ e # q"
    and m': "m' = updated m (p @ q) (hm_size m - 1) key"
  shows "hm_inv m' \<and> (\<exists>P Q. entries m = P @ e # Q \<and> entries m' = P @ Q)"
proof -
  note tab = hm_inv_table [OF inv]
  have c3: "buckets m ! chain_index m key = p @ [e] @ q" using c by simp
  have uk: "unique_keys m (P @ [] @ Q)" if "entries m = P @ [e] @ Q" for P Q
    using unique_keys_remove [of m P e Q] tab(3) that by simp
  have len: "1 \<le> length (entries m)" "unat (hm_size m) = length (entries m)"
      "length (entries m) \<le> 2 ^ 28"
    using concat_nth_split [OF tab(4) [of key]] c inv by (simp_all add: hm_inv_def)
  then have "hm_size m \<noteq> 0"
    by (metis not_one_le_zero unat_0)
  then have sz: "unat (hm_size m - 1) = length (entries m) - length [e] + length ([] :: ('a, 'b) Entry list)"
    using len by (simp add: unat_minus_one)
  have le: "length (entries m) - length [e] + length ([] :: ('a, 'b) Entry list) \<le> 2 ^ 28"
    using len by simp
  from updated_inv [OF inv c3 _ _ uk sz le] show ?thesis unfolding m' by simp
qed

lemma hashmapPut_cases:
  assumes inv: "hm_inv m" and fits: "alloc_fits A"
    and put: "hashmapPut A m key val = (old, enomem, m')"
  obtains (replaced) P e Q where "\<not> enomem" "entries m = P @ e # Q" "hm_equals m (e_key e) key"
      "old = e_value e" "hm_inv m'" "entries m' = P @ e\<lparr>e_value := val\<rparr> # Q"
      "hm_equals m' = hm_equals m"
  | (added) e where "\<not> enomem" "hm_map m key = None" "old = None" "hm_inv m'" "e_key e = key"
      "e_value e = val" "mset (entries m') = add_mset e (mset (entries m))"
      "hm_equals m' = hm_equals m"
  | (failed) "enomem" "hm_map m key = None" "old = None" "m' = m"
      "\<not> entry_ok A (unat (hm_size m))"
proof -
  note tab = hm_inv_table [OF inv]
  let ?c = "buckets m ! chain_index m key"
  note hashes = chain_hashes [OF inv, of key]
  show ?thesis
  proof (cases "put_chain m ?c key (hashKey m key) val")
    case (Some r)
    obtain old' c' where r: "r = (old', c')" by (cases r)
    from put_chain_SomeD [OF tab(1) hashes Some [unfolded r]]
    obtain p e q where c: "?c = p @ e # q" and eq: "hm_equals m (e_key e) key"
      and old': "old' = e_value e" and c': "c' = p @ e\<lparr>e_value := val\<rparr> # q" by blast
    let ?e = "e\<lparr>e_value := val\<rparr>"
    have "hashmapPut A m key val = (old', False, updated m c' (hm_size m) key)"
      using Some unfolding r by (simp add: hashmapPut_def Let_def updated_def)
    with put have res: "old = e_value e" "enomem = False" "m' = updated m c' (hm_size m) key"
      using old' by simp_all
    have "hm_inv m' \<and> (\<exists>P Q. entries m = P @ e # Q \<and> entries m' = P @ ?e # Q)"
      by (rule updated_replace [OF inv c res(3) [unfolded c']])
    then obtain P Q where "hm_inv m'" "entries m = P @ e # Q" "entries m' = P @ ?e # Q"
      by blast
    then show ?thesis
      using replaced res eq by (simp add: updated_def)
  next
    case None
    then have nomatch: "\<forall>e \<in> set ?c. \<not> hm_equals m (e_key e) key"
      using put_chain_None_iff [OF tab(1) hashes] by simp
    then have fresh: "\<forall>e \<in> set (entries m). \<not> hm_equals m (e_key e) key"
      using match_in_chain [OF tab(1,2)] by blast
    then have map: "hm_map m key = None" unfolding hm_map_None_iff .
    show ?thesis
    proof (cases "entry_ok A (unat (hm_size m))")
      case False
      then have "hashmapPut A m key val = (None, True, m)"
        using None by (simp add: hashmapPut_def Let_def createEntry_def)
      with put map False show ?thesis by (intro failed) simp_all
    next
      case True
      let ?e = "\<lparr>e_key = key, e_hash = hashKey m key, e_value = val\<rparr>"
      let ?u = "updated m (?c @ [?e]) (hm_size m + 1) key"
      have res: "hashmapPut A m key val = (None, False, expandIfNecessary A ?u)"
        using None True by (simp add: hashmapPut_def Let_def createEntry_def updated_def)
      have small: "length (entries m) < 2 ^ 28"
        using True inv fits by (auto simp: hm_inv_def alloc_fits_def)
      have u: "hm_inv ?u \<and> mset (entries ?u) = add_mset ?e (mset (entries m))"
        by (rule updated_add [OF inv _ _ small, of ?e]) (simp_all add: map)
      moreover note expandIfNecessary_same_table [OF conjunct1 [OF u] fits]
      ultimately show ?thesis
        using put map unfolding res
        using u by (intro added [of ?e]) (auto simp: same_table_def updated_def)
    qed
  qed
qed

lemma hashmapRemove_cases:
  assumes inv: "hm_inv m" and rm: "hashmapRemove m key = (old, m')"
  obtains (removed) P e Q where "entries m = P @ e # Q" "hm_equals m (e_key e) key"
      "old = e_value e" "hm_inv m'" "entries m' = P @ Q" "hm_equals m' = hm_equals m"
  | (absent) "hm_map m key = None" "old = None" "m' = m"
proof -
  note tab = hm_inv_table [OF inv]
  let ?c = "buckets m ! chain_index m key"
  note hashes = chain_hashes [OF inv, of key]
  show ?thesis
  proof (cases "remove_chain m ?c key (hashKey m key)")
    case (Some r)
    obtain old' c' where r: "r = (old', c')" by (cases r)
    from remove_chain_SomeD [OF tab(1) hashes Some [unfolded r]]
    obtain p e q where c: "?c = p @ e # q" and eq: "hm_equals m (e_key e) key"
      and old': "old' = e_value e" and c': "c' = p @ q" by blast
    have "hashmapRemove m key = (old', updated m c' (hm_size m - 1) key)"
      using Some unfolding r by (simp add: hashmapRemove_def Let_def updated_def)
    with rm have res: "old = e_value e" "m' = updated m c' (hm_size m - 1) key"
      using old' by simp_all
    have "hm_inv m' \<and> (\<exists>P Q. entries m = P @ e # Q \<and> entries m' = P @ Q)"
      by (rule updated_remove [OF inv c res(2) [unfolded c']])
    then obtain P Q where "hm_inv m'" "entries m = P @ e # Q" "entries m' = P @ Q"
      by blast
    then show ?thesis
      using removed res eq by (simp add: updated_def)
  next
    case None
    then have "\<forall>e \<in> set ?c. \<not> hm_equals m (e_key e) key"
      using remove_chain_None_iff [OF tab(1) hashes] by simp
    then have "\<forall>e \<in> set (entries m). \<not> hm_equals m (e_key e) key"
      using match_in_chain [OF tab(1,2)] by blast
    then have "hm_map m key = None" unfolding hm_map_None_iff .
    with None rm show ?thesis by (intro absent) (simp_all add: hashmapRemove_def Let_def)
  qed
qed

lemma equals_equiv: "hm_inv m \<Longrightarrow> equivp (hm_equals m)"
  by (simp add: hm_inv_def keys_ok_def)

lemma map_Some:
  "hm_inv m \<Longrightarrow>
    hm_map m k = Some v \<longleftrightarrow> (\<exists>e \<in> set (entries m). hm_equals m (e_key e) k \<and> e_value e = v)"
  by (rule hm_map_Some_iff) (rule hm_inv_table, assumption)+

lemma hm_map_eq_Some: "(\<And>p. a = Some p \<longleftrightarrow> b = Some p) \<Longrightarrow> a = b"
  by (metis option.exhaust)

lemma matches_same_key:
  assumes "hm_inv m" "hm_equals m (e_key e) key"
  shows "hm_equals m (e_key e) k = hm_equals m key k"
  using equivp_transp [OF equals_equiv [OF assms(1)] assms(2)]
    equivp_transp [OF equals_equiv [OF assms(1)] equivp_symp [OF equals_equiv [OF assms(1)] assms(2)]]
  by blast

lemma map_at_entry:
  "hm_inv m \<Longrightarrow> e \<in> set (entries m) \<Longrightarrow> hm_equals m (e_key e) k \<Longrightarrow> hm_map m k = Some (e_value e)"
  by (subst map_Some) auto

lemma map_update_at:
  assumes inv: "hm_inv m" "hm_inv m'" "hm_equals m' = hm_equals m"
    and old: "set (entries m) = insert e R \<or> set (entries m) = R \<and> hm_map m (e_key e') = None"
    and new: "set (entries m') = insert e' R"
    and key: "hm_equals m (e_key e) (e_key e')"
  shows "hm_map m' k = (if hm_equals m (e_key e') k then Some (e_value e') else hm_map m k)"
proof (cases "hm_equals m (e_key e') k")
  case True
  then show ?thesis using map_at_entry [OF inv(2), of e' k] new inv(3) by (simp del: set_concat)
next
  case False
  then have "\<not> hm_equals m (e_key e) k"
    using matches_same_key [OF inv(1) key] by simp
  with False old new inv(3) have "hm_map m' k = Some p \<longleftrightarrow> hm_map m k = Some p" for p
    unfolding map_Some [OF inv(2)] map_Some [OF inv(1)] by (auto simp del: set_concat)
  with False show ?thesis using hm_map_eq_Some by auto
qed

lemma hashmapPut_map:
  assumes inv: "hm_inv m" and fits: "alloc_fits A"
    and put: "hashmapPut A m key val = (old, enomem, m')"
  shows "hm_inv m' \<and> hm_equals m' = hm_equals m \<and> old = Option.bind (hm_map m key) id \<and>
    (enomem \<longrightarrow> m' = m \<and> hm_map m key = None \<and> \<not> entry_ok A (unat (hm_size m))) \<and>
    (\<not> enomem \<longrightarrow> (\<forall>k. hm_map m' k = (if hm_equals m key k then Some val else hm_map m k)))"
proof (cases rule: hashmapPut_cases [OF assms])
  case (1 P e Q)
  let ?e = "e\<lparr>e_value := val\<rparr>" and ?R = "set (P @ Q)"
  have refl: "hm_equals m (e_key e) (e_key ?e)"
    using equals_equiv [OF inv] by (simp add: equivp_reflp)
  have sets: "set (entries m) = insert e ?R" "set (entries m') = insert ?e ?R"
    unfolding 1(2,6) by auto
  have "hm_map m' k = (if hm_equals m key k then Some val else hm_map m k)" for k
    using map_update_at [OF inv 1(5,7) disjI1 [OF sets(1)] sets(2) refl, of k]
      matches_same_key [OF inv 1(3)] by simp
  moreover have "hm_map m key = Some (e_value e)"
    using map_at_entry [OF inv _ 1(3)] sets(1) by blast
  ultimately show ?thesis using 1 by simp
next
  case (2 e)
  have sets: "set (entries m') = insert e (set (entries m))"
    using arg_cong [OF 2(7), of set_mset] by simp
  have same: "hm_equals m (e_key e) (e_key e)"
    using equals_equiv [OF inv] by (simp add: equivp_reflp)
  have "hm_map m' k = (if hm_equals m key k then Some val else hm_map m k)" for k
    using map_update_at [OF inv 2(4,8) disjI2 [OF conjI [OF refl]] sets same, of k] 2 by simp
  then show ?thesis using 2 by simp
qed (use inv in simp)

lemma hashmapRemove_map:
  assumes inv: "hm_inv m" and rm: "hashmapRemove m key = (old, m')"
  shows "hm_inv m' \<and> hm_equals m' = hm_equals m \<and> old = Option.bind (hm_map m key) id \<and>
    (\<forall>k. hm_map m' k = (if hm_equals m key k then None else hm_map m k))"
proof (cases rule: hashmapRemove_cases [OF assms])
  case (1 P e Q)
  have e: "hm_equals m (e_key e) k = hm_equals m key k" for k
    by (rule matches_same_key [OF inv 1(2)])
  have none: "hm_map m' k = None" if "hm_equals m key k" for k
  proof -
    have "\<not> hm_equals m (e_key d) k" if d: "d \<in> set (P @ Q)" for d
    proof
      assume "hm_equals m (e_key d) k"
      then have "hm_equals m (e_key d) (e_key e)"
        using \<open>hm_equals m key k\<close> e equals_equiv [OF inv] by (metis equivp_symp equivp_transp)
      with d hm_inv_table(3) [OF inv] show False unfolding 1(1) unique_keys_def by auto
    qed
    then show ?thesis unfolding hm_map_None_iff 1(5,6) by blast
  qed
  have same: "hm_map m' k = hm_map m k" if "\<not> hm_equals m key k" for k
    by (rule hm_map_eq_Some, unfold map_Some [OF 1(4)] map_Some [OF inv] 1(1,5,6)) (use that e in auto)
  have "hm_map m key = Some (e_value e)"
    using map_at_entry [OF inv _ 1(2)] 1(1) by simp
  with none same 1 show ?thesis by simp
next
  case 2
  have "hm_map m k = None" if "hm_equals m key k" for k
    using 2(1) that equals_equiv [OF inv] unfolding hm_map_None_iff by (meson equivp_symp equivp_transp)
  with 2 inv show ?thesis by simp
qed

lemma hashmapMemoize_eq:
  assumes "hm_inv m"
  shows "hashmapMemoize A m key f =
    (case hm_map m key of
       Some v \<Rightarrow> (v, False, m)
     | None \<Rightarrow> (case hashmapPut A m key (f key) of
                 (_, True, m') \<Rightarrow> (None, True, m')
               | (_, False, m') \<Rightarrow> (f key, False, m')))"
proof -
  note tab = hm_inv_table [OF assms] and hashes = chain_hashes [OF assms, of key]
  let ?c = "buckets m ! chain_index m key"
  show ?thesis
  proof (cases "find_chain m ?c key (hashKey m key)")
    case None
    then have "List.find (\<lambda>e. hm_equals m (e_key e) key) ?c = None"
      using find_chain_eq [OF tab(1) hashes] by simp
    then have "\<forall>e \<in> set ?c. \<not> hm_equals m (e_key e) key"
      unfolding find_None_iff by blast
    then have "put_chain m ?c key (hashKey m key) (f key) = None"
      using put_chain_None_iff [OF tab(1) hashes] by simp
    with None show ?thesis
      using hm_map_chain [OF assms, of key]
      by (simp add: hashmapMemoize_def hashmapPut_def Let_def createEntry_def)
  next
    case (Some e)
    then show ?thesis
      using hm_map_chain [OF assms, of key] by (simp add: hashmapMemoize_def Let_def)
  qed
qed

subsection \<open>Creation and iteration\<close>

lemma doubling_numeral:
  "doubling (numeral k) mn c = (if c \<le> mn then doubling (pred_numeral k) mn (push_bit 1 c) else Some c)"
  by (simp add: numeral_eq_Suc)

lemma doubling_power:
  assumes "unat c = 2 ^ k" "k + fuel = 32" "k \<le> 31" "unat mn < 2 ^ 31"
  shows "\<exists>n j. doubling (Suc fuel) mn c = Some n \<and> unat n = 2 ^ j \<and> mn < n \<and> (c < n \<longrightarrow> unat n \<le> 2 * unat mn)"
  using assms
proof (induction fuel arbitrary: c k)
  case (Suc fuel)
  show ?case
  proof (cases "c \<le> mn")
    case True
    then have "2 ^ k < (2 :: nat) ^ 31"
      using Suc.prems(1,4) by (simp add: word_le_nat_alt)
    then have k: "k < 31" by (rule power_less_imp_less_exp [rotated]) simp
    then have "(2 :: nat) * 2 ^ k < 2 ^ 32"
      using power_strict_increasing [of "Suc k" 32 "2 :: nat"] by simp
    then have c2: "unat (push_bit 1 c) = 2 ^ Suc k"
      using Suc.prems(1) by (simp add: push_bit_eq_mult unat_word_ariths)
    from Suc.IH [OF this] Suc.prems k obtain n j where n:
      "doubling (Suc fuel) mn (push_bit 1 c) = Some n" "unat n = 2 ^ j" "mn < n"
      "push_bit 1 c < n \<longrightarrow> unat n \<le> 2 * unat mn" by auto
    have "unat n \<le> 2 * unat mn"
    proof (cases "push_bit 1 c < n")
      case False
      then have "unat n \<le> 2 * unat c"
        using c2 Suc.prems(1) by (simp add: word_less_nat_alt)
      with True show ?thesis by (simp add: word_le_nat_alt)
    qed (use n in simp)
    with n True show ?thesis by auto
  qed (use Suc.prems in auto)
qed simp

lemma minimumBucketCount_bound: "unat (minimumBucketCount n) < 2 ^ 31"
proof -
  have "unat (n * 4) < 2 ^ 32" using unsigned_less [of "n * 4"] by simp
  then show ?thesis by (simp add: minimumBucketCount_def unat_div)
qed

lemma bucketCount_found:
  obtains n j where "doubling 33 (minimumBucketCount c) 1 = Some n" "unat n = 2 ^ j"
    "minimumBucketCount c < n" "1 < n \<longrightarrow> unat n \<le> 2 * unat (minimumBucketCount c)"
  using doubling_power [of 1 0 32 "minimumBucketCount c"] minimumBucketCount_bound [of c]
  by (auto simp del: doubling.simps)

lemma hashmapCreate_inv:
  assumes "hashmapCreate A c hash equals = Some m" "alloc_fits A" "equivp equals"
    and "\<And>a b. equals a b \<Longrightarrow> hash a = hash b"
  shows "hm_inv m" "hm_equals m = equals" "hm_map m = (\<lambda>_. None)"
proof -
  obtain n j where n: "doubling 33 (minimumBucketCount c) 1 = Some n" "unat n = 2 ^ j"
    by (rule bucketCount_found [of c])
  have m: "table_ok A (unat n)" "m = \<lparr>buckets = replicate (unat n) [], bucketCount = n,
      hm_hash = hash, hm_equals = equals, hm_size = 0\<rparr>"
    using assms(1) n(1) by (auto simp: hashmapCreate_def simp del: doubling.simps split: if_splits)
  have "(2 :: nat) ^ j < 2 ^ 30" using m(1) assms(2) n(2) by (auto simp: alloc_fits_def)
  then have "j < 30" by (rule power_less_imp_less_exp [rotated]) simp
  then have j: "j \<le> 29" by simp
  have empty: "entries m = []" by (simp add: m)
  show "hm_inv m"
    unfolding hm_inv_def empty using n(2) j assms(3,4)
    by (auto simp: m keys_ok_def placed_def unique_keys_def)
  show "hm_equals m = equals" by (simp add: m)
  show "hm_map m = (\<lambda>_. None)" unfolding hm_map_def empty by simp
qed

lemma hashmapGet_map: "hm_inv m \<Longrightarrow> hashmapGet m key = Option.bind (hm_map m key) id"
  by (auto simp: hm_map_chain hashmapGet_def split: option.splits)

lemma hashmapContainsKey_map: "hm_inv m \<Longrightarrow> hashmapContainsKey m key \<longleftrightarrow> hm_map m key \<noteq> None"
  by (auto simp: hm_map_chain hashmapContainsKey_def split: option.splits)

subsection \<open>Refinement of a map up to key equality\<close>

datatype ('k, 'v) map_op = Put_op 'k "'v ptr" | Remove_op 'k | Memoize_op 'k "'k \<Rightarrow> 'v ptr"

fun hm_step :: "alloc \<Rightarrow> ('k, 'v) map_op \<Rightarrow> ('k, 'v) Hashmap \<Rightarrow> ('v ptr \<times> bool) \<times> ('k, 'v) Hashmap" where
  "hm_step A (Put_op key val) m = (let (old, enomem, m') = hashmapPut A m key val in ((old, enomem), m'))"
| "hm_step A (Remove_op key) m = (let (old, m') = hashmapRemove m key in ((old, False), m'))"
| "hm_step A (Memoize_op key f) m = (let (val, enomem, m') = hashmapMemoize A m key f in ((val, enomem), m'))"

text \<open>What a client sees of the table: \<open>M key\<close> is the value of the one key equal to \<open>key\<close>.  An
  operation that reports \<^verbatim>\<open>ENOMEM\<close> was to add a key and leaves the map alone.\<close>

fun map_spec ::
  "('k \<Rightarrow> 'k \<Rightarrow> bool) \<Rightarrow> ('k, 'v) map_op \<Rightarrow> ('k \<Rightarrow> 'v ptr option) \<Rightarrow> 'v ptr \<times> bool \<Rightarrow>
     ('k \<Rightarrow> 'v ptr option) \<Rightarrow> bool" where
  "map_spec eq (Put_op key val) M (old, enomem) M' \<longleftrightarrow>
     old = Option.bind (M key) id \<and>
     (if enomem then M key = None \<and> M' = M
      else M' = (\<lambda>k. if eq key k then Some val else M k))"
| "map_spec eq (Remove_op key) M (old, enomem) M' \<longleftrightarrow>
     old = Option.bind (M key) id \<and> \<not> enomem \<and> M' = (\<lambda>k. if eq key k then None else M k)"
| "map_spec eq (Memoize_op key f) M (val, enomem) M' \<longleftrightarrow>
     (case M key of
        Some v \<Rightarrow> val = v \<and> \<not> enomem \<and> M' = M
      | None \<Rightarrow>
          if enomem then val = None \<and> M' = M
          else val = f key \<and> M' = (\<lambda>k. if eq key k then Some (f key) else M k))"

lemma hm_step_sim:
  assumes "alloc_fits A" "hm_inv m" "hm_step A op m = (out, m')"
  shows "hm_inv m' \<and> hm_equals m' = hm_equals m \<and> map_spec (hm_equals m) op (hm_map m) out (hm_map m')"
proof (cases op)
  case (Put_op key val)
  obtain old enomem where out: "out = (old, enomem)" by (cases out)
  with assms(3) Put_op have "hashmapPut A m key val = (old, enomem, m')"
    by (auto split: prod.splits)
  from hashmapPut_map [OF assms(2,1) this] show ?thesis by (auto simp: Put_op out)
next
  case (Remove_op key)
  obtain old enomem where out: "out = (old, enomem)" by (cases out)
  with assms(3) Remove_op have "hashmapRemove m key = (old, m')" "\<not> enomem"
    by (auto split: prod.splits)
  with hashmapRemove_map [OF assms(2) this(1)] show ?thesis by (auto simp: Remove_op out)
next
  case (Memoize_op key f)
  obtain old enomem m2 where put: "hashmapPut A m key (f key) = (old, enomem, m2)" by (metis prod_cases3)
  from hashmapPut_map [OF assms(2,1) put] assms(2,3) put show ?thesis
    by (auto simp: Memoize_op hashmapMemoize_eq fun_eq_iff split: option.splits bool.splits)
qed

interpretation hm: simulation "\<lambda>m. alloc_fits A \<and> hm_inv m \<and> hm_equals m = eq" hm_map "hm_step A" "map_spec eq"
  for A and eq :: "'k \<Rightarrow> 'k \<Rightarrow> bool"
  by unfold_locales (use hm_step_sim in blast)+

subsection \<open>Iteration and collisions\<close>

text \<open>A callback that stops at the entry \<open>e\<close> has seen exactly the entries before it and \<open>e\<close>.\<close>

fun visit :: "('k \<Rightarrow> 'v ptr \<Rightarrow> 'c \<Rightarrow> bool \<times> 'c) \<Rightarrow> ('k, 'v) Entry list \<Rightarrow> 'c \<Rightarrow> bool \<times> 'c" where
  "visit f [] c = (True, c)"
| "visit f (e # es) c = (let (go, c') = f (e_key e) (e_value e) c in if go then visit f es c' else (False, c'))"

lemma for_each_chain_visit: "for_each_chain f es c = visit f es c"
  by (induction es arbitrary: c) (auto split: prod.splits bool.splits)

lemma visit_append:
  "visit f (xs @ ys) c = (case visit f xs c of (True, c') \<Rightarrow> visit f ys c' | (False, c') \<Rightarrow> (False, c'))"
  by (induction xs arbitrary: c) (auto split: prod.splits)

lemma for_each_bucket_visit: "for_each_bucket f B c = snd (visit f (concat B) c)"
  by (induction B arbitrary: c)
    (auto simp: for_each_chain_visit visit_append split: prod.splits bool.splits)

lemma chain_collisions_eq: "chain_collisions c n = n + of_nat (length c - 1)"
proof (induction c arbitrary: n)
  case (Cons e es)
  then show ?case by (cases es) auto
qed simp

lemma count_collisions_eq: "count_collisions B n = n + of_nat (\<Sum>c \<leftarrow> B. length c - 1)"
  by (induction B arbitrary: n) (auto simp: chain_collisions_eq)

lemma visit_collect:
  "visit (\<lambda>k v c. (P k v, c @ [(k, v)])) es c =
     (\<forall>e \<in> set es. P (e_key e) (e_value e),
      c @ map (\<lambda>e. (e_key e, e_value e)) (takeWhile (\<lambda>e. P (e_key e) (e_value e)) es @
          take 1 (dropWhile (\<lambda>e. P (e_key e) (e_value e)) es)))"
  by (induction es arbitrary: c) auto

lemma sum_chain_lengths: "(\<Sum>c \<leftarrow> B. length c - 1) + length (filter (\<lambda>c. c \<noteq> []) B) = length (concat B)"
  by (induction B) (auto simp: Suc_le_eq)

lemma hashmapCountCollisions_eq:
  assumes "hm_inv m"
  shows "unat (hashmapCountCollisions m) + length (filter (\<lambda>c. c \<noteq> []) (buckets m)) = unat (hashmapSize m)"
proof -
  have "(\<Sum>c \<leftarrow> buckets m. length c - 1) < 2 ^ 32"
    using sum_chain_lengths [of "buckets m"] assms by (simp add: hm_inv_def del: length_concat)
  then have "unat (hashmapCountCollisions m) = (\<Sum>c \<leftarrow> buckets m. length c - 1)"
    by (simp add: hashmapCountCollisions_def count_collisions_eq unat_of_nat_lt)
  then show ?thesis
    using sum_chain_lengths [of "buckets m"] assms by (simp add: hm_inv_def hashmapSize_def)
qed

lemma capacity_enough:
  fixes n c :: u32
  assumes "minimumBucketCount c < n" "unat c < 2 ^ 30" "unat n < 2 ^ 30"
  shows "c \<le> n * 3 div 4"
proof -
  have "unat (c * 4) = unat c * 4" "unat (n * 3) = unat n * 3"
    using assms(2,3) by (simp_all add: unat_word_ariths)
  with assms(1) show ?thesis
    by (simp add: minimumBucketCount_def word_less_nat_alt word_le_nat_alt unat_div)
qed

subsection \<open>Properties\<close>

text \<open>C2: Refinement.  Whatever sequence of \<^verbatim>\<open>hashmapPut\<close>, \<^verbatim>\<open>hashmapRemove\<close> and \<^verbatim>\<open>hashmapMemoize\<close> calls a
  client makes on a table from \<^verbatim>\<open>hashmapCreate\<close>, with callbacks that satisfy the documented contract,
  every returned value and every \<^verbatim>\<open>ENOMEM\<close> is what the map specification allows, and at the end
  \<^verbatim>\<open>hashmapGet\<close> and \<^verbatim>\<open>hashmapContainsKey\<close> answer as the specified map does, whatever rehashing took
  place.\<close>

theorem hashmap_refines_map:
  assumes "alloc_fits A" "equivp equals" "\<forall>a b. equals a b \<longrightarrow> hash a = hash b"
    and "hashmapCreate A initialCapacity hash equals = Some m"
    and "run_ops (hm_step A) ops m = (outs, m')"
  shows "\<exists>M. spec_ops (map_spec equals) ops (\<lambda>_. None) outs M \<and>
    (\<forall>key. hashmapGet m' key = Option.bind (M key) id \<and> (hashmapContainsKey m' key \<longleftrightarrow> M key \<noteq> None))"
proof -
  have cong: "equals a b \<Longrightarrow> hash a = hash b" for a b using assms(3) by blast
  note init = hashmapCreate_inv [OF assms(4,1,2) cong]
  then have pre: "alloc_fits A \<and> hm_inv m \<and> hm_equals m = equals" using assms(1) by simp
  have inv: "hm_inv m'" using hm.run_inv [OF pre assms(5)] by simp
  moreover have "spec_ops (map_spec equals) ops (\<lambda>_. None) outs (hm_map m')"
    using hm.run_spec [OF pre assms(5)] init(3) by simp
  ultimately show ?thesis using hashmapGet_map [OF inv] hashmapContainsKey_map [OF inv] by blast
qed

definition w_alloc :: alloc where
  "w_alloc = \<lparr>map_ok = True, table_ok = (\<lambda>n. n \<le> 512), entry_ok = (\<lambda>n. n < 3)\<rparr>"

definition w_ops :: "(i32, nat) map_op list" where
  "w_ops = [Put_op 1 (Some 10), Put_op 5 (Some 50), Put_op 1 (Some 11), Put_op 9 None,
     Put_op 13 (Some 130), Remove_op 5, Memoize_op 21 (\<lambda>_. Some 210)]"

definition w_table :: "(i32, nat) Hashmap" where
  "w_table = the (hashmapCreate w_alloc 1 (hashmapIntHash id) (hashmapIntEquals id))"

lemma w_alloc_fits: "alloc_fits w_alloc"
  by (simp add: alloc_fits_def w_alloc_def)

lemma int_keys:
  "equivp (hashmapIntEquals id)"
  "\<forall>a b. hashmapIntEquals id a b \<longrightarrow> hashmapIntHash id a = hashmapIntHash id b"
  by (auto simp: hashmapIntEquals_def hashmapIntHash_def intro!: equivpI reflpI sympI transpI)

lemma w_table_created: "hashmapCreate w_alloc 1 (hashmapIntHash id) (hashmapIntEquals id) = Some w_table"
proof -
  have "hashmapCreate w_alloc 1 (hashmapIntHash id) (hashmapIntEquals id) = (None :: (i32, nat) Hashmap option) \<Longrightarrow> False"
    by (simp add: hashmapCreate_def w_alloc_def minimumBucketCount_def doubling_numeral word_le_nat_alt)
  then show ?thesis unfolding w_table_def by force
qed

theorem hashmap_refines_map_witness:
  "\<exists>M. spec_ops (map_spec (hashmapIntEquals id)) w_ops (\<lambda>_. None) (fst (run_ops (hm_step w_alloc) w_ops w_table)) M \<and>
    M 1 = Some (Some 11) \<and> M 5 = None \<and> M 9 = Some None \<and> M 13 = None \<and> M 21 = Some (Some 210)"
proof -
  let ?r = "run_ops (hm_step w_alloc) w_ops w_table"
  obtain M where M: "spec_ops (map_spec (hashmapIntEquals id)) w_ops (\<lambda>_. None) (fst ?r) M"
    "\<And>key. hashmapGet (snd ?r) key = Option.bind (M key) id \<and> (hashmapContainsKey (snd ?r) key \<longleftrightarrow> M key \<noteq> None)"
    using hashmap_refines_map [OF w_alloc_fits int_keys w_table_created, of w_ops "fst ?r" "snd ?r"] by auto
  have "let m = snd ?r in hashmapGet m 1 = Some 11 \<and> \<not> hashmapContainsKey m 5 \<and> hashmapGet m 9 = None \<and>
    hashmapContainsKey m 9 \<and> \<not> hashmapContainsKey m 13 \<and> hashmapGet m 21 = Some 210"
    by code_simp
  with M(2) have "M 1 = Some (Some 11)" "M 5 = None" "M 9 = Some None" "M 13 = None" "M 21 = Some (Some 210)"
    by (auto simp: Let_def bind_eq_Some_conv)
  with M(1) show ?thesis by blast
qed



text \<open>C26: Iteration.  \<^verbatim>\<open>hashmapForEach\<close> with a callback that records what it is given, and stops when \<open>P\<close>
  fails, visits a prefix of one enumeration of the map: each key once up to \<^verbatim>\<open>equals\<close>, all of them when
  the callback never stops.\<close>

theorem hashmapForEach_visits:
  assumes "hm_inv m"
  shows "\<exists>ps. (\<forall>P. hashmapForEach m (\<lambda>k v c. (P k v, c @ [(k, v)])) [] =
        takeWhile (\<lambda>(k, v). P k v) ps @ take 1 (dropWhile (\<lambda>(k, v). P k v) ps)) \<and>
    length ps = unat (hashmapSize m) \<and>
    (\<forall>i < length ps. \<forall>j < length ps. hm_equals m (fst (ps ! i)) (fst (ps ! j)) \<longrightarrow> i = j) \<and>
    (\<forall>key v. hm_map m key = Some v \<longleftrightarrow> (\<exists>k. (k, v) \<in> set ps \<and> hm_equals m k key))"
proof -
  let ?ps = "map (\<lambda>e. (e_key e, e_value e)) (entries m)"
  have uk: "distinct (entries m)"
    "\<And>d e. d \<in> set (entries m) \<Longrightarrow> e \<in> set (entries m) \<Longrightarrow> hm_equals m (e_key d) (e_key e) \<Longrightarrow> d = e"
    using hm_inv_table(3) [OF assms] unfolding unique_keys_def by blast+
  have "i = j" if "i < length ?ps" "j < length ?ps" "hm_equals m (fst (?ps ! i)) (fst (?ps ! j))" for i j
    using uk(2) [of "entries m ! i" "entries m ! j"] that nth_eq_iff_index_eq [OF uk(1), of i j]
    by (simp del: set_concat length_concat)
  moreover have "hm_map m key = Some v \<longleftrightarrow> (\<exists>k. (k, v) \<in> set ?ps \<and> hm_equals m k key)" for key v
    unfolding map_Some [OF assms] by (auto simp del: set_concat)
  moreover have "hashmapForEach m (\<lambda>k v c. (P k v, c @ [(k, v)])) [] =
        takeWhile (\<lambda>(k, v). P k v) ?ps @ take 1 (dropWhile (\<lambda>(k, v). P k v) ?ps)" for P
    unfolding hashmapForEach_def for_each_bucket_visit visit_collect
    by (simp add: takeWhile_map dropWhile_map comp_def take_map del: map_concat)
  moreover have "length ?ps = unat (hashmapSize m)"
    using assms by (simp add: hm_inv_def hashmapSize_def del: length_concat)
  ultimately show ?thesis by blast
qed

theorem hashmapForEach_visits_witness:
  "length (hashmapForEach (snd (run_ops (hm_step w_alloc) (take 2 w_ops) w_table)) (\<lambda>k v c. (True, c @ [(k, v)])) []) = 2"
proof -
  let ?m = "snd (run_ops (hm_step w_alloc) (take 2 w_ops) w_table)"
  have "alloc_fits w_alloc \<and> hm_inv w_table \<and> hm_equals w_table = hashmapIntEquals id"
    using hashmapCreate_inv [OF w_table_created w_alloc_fits int_keys(1)] int_keys(2) w_alloc_fits by blast
  then have "hm_inv ?m" using hm.run_inv surjective_pairing by blast
  moreover have "unat (hashmapSize ?m) = 2" by code_simp
  moreover have "(\<lambda>(k :: i32, v :: nat ptr). True) = (\<lambda>_. True)" by auto
  moreover have "length (takeWhile P ps) + length (dropWhile P ps) = length ps" for P and ps :: "(i32 \<times> nat ptr) list"
    by (simp flip: length_append)
  ultimately show ?thesis using hashmapForEach_visits [of ?m] by fastforce
qed

end
