(* ===== verification/CArray.thy ===== *)
theory CArray
  imports Prelude
begin

text \<open>
  The growable array of pointers of \<^verbatim>\<open>src/core/libcutils/array.c\<close>.  \<open>contents\<close> is the allocated block,
  one element for each of its \<^verbatim>\<open>capacity\<close> cells (the empty list stands for the null pointer, before the
  first allocation); cells at and above \<^verbatim>\<open>size\<close> hold whatever was there.  \<^verbatim>\<open>size\<close> and \<^verbatim>\<open>capacity\<close> are
  32-bit signed integers and a pointer has 4 bytes.  A failed \<^verbatim>\<open>assert\<close> and an access outside the block
  are values of \<open>fault\<close>.  The argument of type \<open>mem\<close> says which allocations succeed and what a fresh
  cell holds.
\<close>

datatype fault = Assert_failed | Out_of_block

record 'v Array =
  contents :: "'v option list"
  a_size :: int
  capacity :: int

record 'v mem =
  fits :: "nat \<Rightarrow> bool"
  junk :: "nat \<Rightarrow> 'v option"

definition malloc_cells :: "'v mem \<Rightarrow> nat \<Rightarrow> 'v option list option" where
  "malloc_cells M n = (if fits M n then Some (map (junk M) [0..<n]) else None)"

definition realloc_cells :: "'v mem \<Rightarrow> 'v option list \<Rightarrow> nat \<Rightarrow> 'v option list option" where
  "realloc_cells M xs n = (if fits M n then Some (take n xs @ map (junk M) [length xs..<n]) else None)"

subsection \<open>Operations\<close>

definition INITIAL_CAPACITY :: int where "INITIAL_CAPACITY = 4"

definition MAX_CAPACITY :: int where "MAX_CAPACITY = (2 ^ 32 - 1) div 4"

definition arrayCreate :: "bool \<Rightarrow> 'v Array option" where
  "arrayCreate ok = (if ok then Some \<lparr>contents = [], a_size = 0, capacity = 0\<rparr> else None)"

text \<open>The doubling loop; \<open>None\<close> when the iterations run out.\<close>

fun double_capacity :: "nat \<Rightarrow> int \<Rightarrow> int \<Rightarrow> int option" where
  "double_capacity 0 newCapacity wanted = None"
| "double_capacity (Suc fuel) newCapacity wanted =
     (if newCapacity < wanted
      then let newCap = c_int (newCapacity * 2);
               newCap = (if newCap < newCapacity \<or> newCap > MAX_CAPACITY then MAX_CAPACITY else newCap)
           in double_capacity fuel newCap wanted
      else Some newCapacity)"

text \<open>The result is the returned status and the array.\<close>

definition ensureCapacity :: "'v mem \<Rightarrow> 'v Array \<Rightarrow> int \<Rightarrow> int \<times> 'v Array" where
  "ensureCapacity M a wanted =
     (let oldCapacity = capacity a in
      if wanted > oldCapacity then
        let newCapacity = (if oldCapacity = 0 then INITIAL_CAPACITY else oldCapacity) in
        if wanted > MAX_CAPACITY then (-1, a)
        else case double_capacity 32 newCapacity wanted of
               None \<Rightarrow> (-1, a)
             | Some newCapacity \<Rightarrow>
                 if newCapacity < 0 \<or> newCapacity > MAX_CAPACITY then (-1, a)
                 else (case if contents a = [] then malloc_cells M (nat newCapacity)
                            else realloc_cells M (contents a) (nat newCapacity) of
                         None \<Rightarrow> (-1, a)
                       | Some newContents \<Rightarrow> (0, a\<lparr>capacity := newCapacity, contents := newContents\<rparr>))
      else (0, a))"

definition store :: "'v Array \<Rightarrow> int \<Rightarrow> 'v option \<Rightarrow> fault + 'v Array" where
  "store a i p =
     (if 0 \<le> i \<and> nat i < length (contents a) then Inr (a\<lparr>contents := (contents a)[nat i := p]\<rparr>)
      else Inl Out_of_block)"

definition arrayAdd :: "'v mem \<Rightarrow> 'v Array \<Rightarrow> 'v option \<Rightarrow> fault + int \<times> 'v Array" where
  "arrayAdd M a pointer =
     (let size = a_size a;
          (result, a) = ensureCapacity M a (c_int (size + 1)) in
      if result < 0 then Inr (result, a)
      else case store a size pointer of
             Inl f \<Rightarrow> Inl f
           | Inr a \<Rightarrow> Inr (0, a\<lparr>a_size := c_int (a_size a + 1)\<rparr>))"

definition checkBounds :: "'v Array \<Rightarrow> int \<Rightarrow> bool" where
  "checkBounds a index \<longleftrightarrow> index < a_size a \<and> index \<ge> 0"

definition load :: "'v Array \<Rightarrow> int \<Rightarrow> fault + 'v option" where
  "load a i = (if 0 \<le> i \<and> nat i < length (contents a) then Inr (contents a ! nat i) else Inl Out_of_block)"

definition arrayGet :: "'v Array \<Rightarrow> int \<Rightarrow> fault + 'v option" where
  "arrayGet a index = (if \<not> checkBounds a index then Inl Assert_failed else load a index)"

text \<open>\<^verbatim>\<open>memmove\<close> and \<^verbatim>\<open>memset\<close> on \<open>n\<close> cells of the block.\<close>

definition memmove_cells :: "'v Array \<Rightarrow> int \<Rightarrow> int \<Rightarrow> int \<Rightarrow> fault + 'v Array" where
  "memmove_cells a dst src n =
     (if 0 \<le> dst \<and> 0 \<le> src \<and> 0 \<le> n \<and> nat (dst + n) \<le> length (contents a) \<and> nat (src + n) \<le> length (contents a)
      then Inr (a\<lparr>contents := take (nat dst) (contents a) @ take (nat n) (drop (nat src) (contents a)) @
             drop (nat (dst + n)) (contents a)\<rparr>)
      else Inl Out_of_block)"

definition memset_cells :: "'v Array \<Rightarrow> int \<Rightarrow> int \<Rightarrow> fault + 'v Array" where
  "memset_cells a dst n =
     (if 0 \<le> dst \<and> 0 \<le> n \<and> nat (dst + n) \<le> length (contents a)
      then Inr (a\<lparr>contents := take (nat dst) (contents a) @ replicate (nat n) None @
             drop (nat (dst + n)) (contents a)\<rparr>)
      else Inl Out_of_block)"

definition arrayRemove :: "'v Array \<Rightarrow> int \<Rightarrow> fault + 'v option \<times> 'v Array" where
  "arrayRemove a index =
     (if \<not> checkBounds a index then Inl Assert_failed
      else case load a index of
             Inl f \<Rightarrow> Inl f
           | Inr pointer \<Rightarrow>
               let newSize = c_int (a_size a - 1) in
               (case if index \<noteq> newSize then memmove_cells a index (index + 1) (newSize - index) else Inr a of
                  Inl f \<Rightarrow> Inl f
                | Inr a \<Rightarrow> Inr (pointer, a\<lparr>a_size := newSize\<rparr>)))"

definition arraySet :: "'v Array \<Rightarrow> int \<Rightarrow> 'v option \<Rightarrow> fault + 'v option \<times> 'v Array" where
  "arraySet a index pointer =
     (if \<not> checkBounds a index then Inl Assert_failed
      else case load a index of
             Inl f \<Rightarrow> Inl f
           | Inr old \<Rightarrow>
               (case store a index pointer of
                  Inl f \<Rightarrow> Inl f
                | Inr a \<Rightarrow> Inr (old, a)))"

text \<open>\<^verbatim>\<open>contents\<close> has type \<^verbatim>\<open>void**\<close>, so that \<^verbatim>\<open>contents + sizeof(void*) * oldSize\<close> is the cell number
  \<open>4 * oldSize\<close>.\<close>

definition arraySetSize :: "'v mem \<Rightarrow> 'v Array \<Rightarrow> int \<Rightarrow> fault + int \<times> 'v Array" where
  "arraySetSize M a newSize =
     (if newSize < 0 then Inl Assert_failed
      else let oldSize = a_size a in
        if newSize > oldSize then
          let (result, a) = ensureCapacity M a newSize in
          if result < 0 then Inr (result, a)
          else case memset_cells a (4 * oldSize) (newSize - oldSize) of
                 Inl f \<Rightarrow> Inl f
               | Inr a \<Rightarrow> Inr (0, a\<lparr>a_size := newSize\<rparr>)
        else Inr (0, a\<lparr>a_size := newSize\<rparr>))"

definition arraySize :: "'v Array \<Rightarrow> int" where
  "arraySize a = a_size a"

definition arrayUnwrap :: "'v Array \<Rightarrow> 'v option list" where
  "arrayUnwrap a = contents a"

subsection \<open>Invariant and abstraction\<close>

definition arr_inv :: "'v Array \<Rightarrow> bool" where
  "arr_inv a \<longleftrightarrow>
     0 \<le> a_size a \<and> a_size a \<le> capacity a \<and> capacity a \<le> MAX_CAPACITY \<and> length (contents a) = nat (capacity a)"

definition elems :: "'v Array \<Rightarrow> 'v option list" where
  "elems a = take (nat (a_size a)) (contents a)"

subsection \<open>Capacity\<close>

lemma MAX_CAPACITY_eq: "MAX_CAPACITY = 1073741823"
  by (simp add: MAX_CAPACITY_def)

text \<open>Doubling from a positive capacity reaches every bound up to \<^verbatim>\<open>MAX_CAPACITY\<close> within 31 rounds.\<close>

lemma double_capacity_returns:
  assumes "0 < c" "c \<le> MAX_CAPACITY" "wanted \<le> MAX_CAPACITY" "MAX_CAPACITY \<le> c * 2 ^ fuel"
  shows "\<exists>c'. double_capacity (Suc fuel) c wanted = Some c' \<and> wanted \<le> c' \<and> c \<le> c' \<and> c' \<le> MAX_CAPACITY \<and>
    (c' = c \<or> c' < 2 * wanted)"
  using assms
proof (induction fuel arbitrary: c)
  case (Suc fuel)
  show ?case
  proof (cases "c < wanted")
    case True
    define n where "n = (if c * 2 > MAX_CAPACITY then MAX_CAPACITY else c * 2)"
    have n: "0 < n" "n \<le> MAX_CAPACITY" "c \<le> n" "n \<le> 2 * c"
      using Suc.prems(1,2) by (auto simp: n_def MAX_CAPACITY_eq)
    have "c_int (c * 2) = c * 2"
      using Suc.prems(1,2) by (simp add: MAX_CAPACITY_eq)
    then have step: "double_capacity (Suc (Suc fuel)) c wanted = double_capacity (Suc fuel) n wanted"
      using True Suc.prems(1) by (simp add: n_def Let_def del: double_capacity.simps)
        (simp add: double_capacity.simps(2) [of "Suc fuel"])
    have "MAX_CAPACITY \<le> n * 2 ^ fuel"
      using Suc.prems(4) mult_left_mono [of 1 "2 ^ fuel" MAX_CAPACITY] by (auto simp: n_def MAX_CAPACITY_eq)
    from Suc.IH [OF n(1,2) Suc.prems(3) this] obtain c' where
      "double_capacity (Suc fuel) n wanted = Some c'" "wanted \<le> c'" "n \<le> c'" "c' \<le> MAX_CAPACITY"
      "c' = n \<or> c' < 2 * wanted" by blast
    with step n True show ?thesis by (intro exI [of _ c']) auto
  qed (use Suc.prems in auto)
qed auto

lemma malloc_cells_SomeD: "malloc_cells M n = Some xs \<Longrightarrow> length xs = n"
  by (auto simp: malloc_cells_def split: if_splits)

lemma realloc_cells_SomeD:
  "realloc_cells M xs n = Some ys \<Longrightarrow> length xs \<le> n \<Longrightarrow> length ys = n \<and> take (length xs) ys = xs"
  by (auto simp: realloc_cells_def split: if_splits)

text \<open>\<^verbatim>\<open>ensureCapacity\<close> on a good array: it fails only beyond \<^verbatim>\<open>MAX_CAPACITY\<close> or without memory, and then
  changes nothing; else the block has room and keeps its cells.\<close>

lemma ensureCapacity_cases:
  assumes inv: "arr_inv a" and wanted: "0 < wanted" and run: "ensureCapacity M a wanted = (r, a')"
  obtains (failed) "r = -1" "a' = a" "wanted > capacity a" "wanted > MAX_CAPACITY \<or> (\<exists>n. \<not> fits M n)"
  | (enough) "r = 0" "arr_inv a'" "a_size a' = a_size a" "wanted \<le> capacity a'" "capacity a \<le> capacity a'"
      "take (length (contents a)) (contents a') = contents a"
proof (cases "wanted \<le> capacity a")
  case True
  then show ?thesis using enough inv run by (auto simp: ensureCapacity_def)
next
  case more: False
  show ?thesis
  proof (cases "wanted > MAX_CAPACITY")
    case True
    then show ?thesis using failed more run by (auto simp: ensureCapacity_def)
  next
    case False
    define c where "c = (if capacity a = 0 then INITIAL_CAPACITY else capacity a)"
    have c: "0 < c" "c \<le> MAX_CAPACITY" "capacity a \<le> c"
      using inv by (auto simp: c_def arr_inv_def INITIAL_CAPACITY_def MAX_CAPACITY_eq)
    obtain n where n: "double_capacity 32 c wanted = Some n" "wanted \<le> n" "c \<le> n" "n \<le> MAX_CAPACITY"
      using double_capacity_returns [OF c(1,2), of wanted 31] False c(1)
      by (auto simp: MAX_CAPACITY_eq simp del: double_capacity.simps)
    define new where "new = (if contents a = [] then malloc_cells M (nat n) else realloc_cells M (contents a) (nat n))"
    have eq: "(r, a') = (case new of None \<Rightarrow> (-1, a) | Some xs \<Rightarrow> (0, a\<lparr>capacity := n, contents := xs\<rparr>))"
      unfolding run [symmetric] ensureCapacity_def Let_def c_def [symmetric] n(1) option.case new_def
      using more False n(3,4) c by auto
    show ?thesis
    proof (cases new)
      case None
      then have "\<not> fits M (nat n)"
        by (auto simp: new_def malloc_cells_def realloc_cells_def split: if_splits)
      with eq None more show ?thesis by (intro failed) auto
    next
      case (Some xs)
      have "length (contents a) \<le> nat n" using inv n c by (auto simp: arr_inv_def)
      then have "length xs = nat n \<and> take (length (contents a)) xs = contents a"
        using Some malloc_cells_SomeD [of M "nat n" xs] realloc_cells_SomeD [of M "contents a" "nat n" xs]
        by (auto simp: new_def split: if_splits)
      with eq Some inv n c show ?thesis by (intro enough) (auto simp: arr_inv_def)
    qed
  qed
qed

subsection \<open>Refinement of a list\<close>

datatype 'v arr_op = Add "'v option" | Get int | Remove int | Set int "'v option" | SetSize int

datatype 'v arr_out = Fault fault | Status int | Pointer "'v option"

fun arr_step :: "'v mem \<Rightarrow> 'v arr_op \<Rightarrow> 'v Array \<Rightarrow> 'v arr_out \<times> 'v Array" where
  "arr_step M (Add p) a = (case arrayAdd M a p of Inl f \<Rightarrow> (Fault f, a) | Inr (r, a') \<Rightarrow> (Status r, a'))"
| "arr_step M (Get i) a = (case arrayGet a i of Inl f \<Rightarrow> (Fault f, a) | Inr p \<Rightarrow> (Pointer p, a))"
| "arr_step M (Remove i) a = (case arrayRemove a i of Inl f \<Rightarrow> (Fault f, a) | Inr (p, a') \<Rightarrow> (Pointer p, a'))"
| "arr_step M (Set i p) a = (case arraySet a i p of Inl f \<Rightarrow> (Fault f, a) | Inr (q, a') \<Rightarrow> (Pointer q, a'))"
| "arr_step M (SetSize n) a = (case arraySetSize M a n of Inl f \<Rightarrow> (Fault f, a) | Inr (r, a') \<Rightarrow> (Status r, a'))"

text \<open>The list specification.  Adding fails only at the maximal capacity or without memory.  For a
  \<^verbatim>\<open>SetSize\<close> that grows a non-empty array it promises the length and the old elements only: the new
  cells are not cleared, and the call may write outside the block.\<close>

definition in_range :: "'a list \<Rightarrow> int \<Rightarrow> bool" where
  "in_range xs i \<longleftrightarrow> 0 \<le> i \<and> nat i < length xs"

definition no_room :: "'v mem \<Rightarrow> int \<Rightarrow> bool" where
  "no_room M n \<longleftrightarrow> n > MAX_CAPACITY \<or> (\<exists>k. \<not> fits M k)"

fun arr_spec :: "'v mem \<Rightarrow> 'v arr_op \<Rightarrow> 'v option list \<Rightarrow> 'v arr_out \<Rightarrow> 'v option list \<Rightarrow> bool" where
  "arr_spec M (Add p) xs out xs' \<longleftrightarrow>
     out = Status 0 \<and> xs' = xs @ [p] \<or> out = Status (-1) \<and> xs' = xs \<and> no_room M (int (length xs) + 1)"
| "arr_spec M (Get i) xs out xs' \<longleftrightarrow>
     xs' = xs \<and> out = (if in_range xs i then Pointer (xs ! nat i) else Fault Assert_failed)"
| "arr_spec M (Remove i) xs out xs' \<longleftrightarrow>
     (if in_range xs i then out = Pointer (xs ! nat i) \<and> xs' = take (nat i) xs @ drop (Suc (nat i)) xs
      else out = Fault Assert_failed \<and> xs' = xs)"
| "arr_spec M (Set i p) xs out xs' \<longleftrightarrow>
     (if in_range xs i then out = Pointer (xs ! nat i) \<and> xs' = xs[nat i := p]
      else out = Fault Assert_failed \<and> xs' = xs)"
| "arr_spec M (SetSize n) xs out xs' \<longleftrightarrow>
     (if n < 0 then out = Fault Assert_failed \<and> xs' = xs
      else if nat n \<le> length xs then out = Status 0 \<and> xs' = take (nat n) xs
      else out = Status (-1) \<and> xs' = xs \<and> no_room M n \<or>
        (if xs = [] then out = Status 0 \<and> xs' = replicate (nat n) None
         else out = Fault Out_of_block \<and> xs' = xs \<or>
           out = Status 0 \<and> length xs' = nat n \<and> take (length xs) xs' = xs))"

lemma elems_length: "arr_inv a \<Longrightarrow> length (elems a) = nat (a_size a)"
  by (auto simp: elems_def arr_inv_def min_def)

lemma elems_keep:
  assumes "arr_inv a" "a_size a' = a_size a" "take (length (contents a)) (contents a') = contents a"
  shows "elems a' = elems a"
proof -
  have "nat (a_size a) \<le> length (contents a)" using assms(1) by (auto simp: arr_inv_def)
  then have "take (nat (a_size a)) (take (length (contents a)) (contents a')) = take (nat (a_size a)) (contents a')"
    by (simp add: min_def)
  with assms(2,3) show ?thesis by (simp add: elems_def)
qed

lemma checkBounds_iff: "arr_inv a \<Longrightarrow> checkBounds a i = in_range (elems a) i"
  by (auto simp: checkBounds_def in_range_def elems_length)

lemma load_elem: "arr_inv a \<Longrightarrow> in_range (elems a) i \<Longrightarrow> load a i = Inr (elems a ! nat i)"
  by (auto simp: in_range_def elems_length load_def arr_inv_def elems_def)

lemma arrayAdd_spec:
  assumes inv: "arr_inv a"
  shows "\<exists>r a'. arrayAdd M a p = Inr (r, a') \<and> arr_inv a' \<and>
    (r = 0 \<and> elems a' = elems a @ [p] \<or> r = -1 \<and> a' = a \<and> no_room M (int (length (elems a)) + 1))"
proof -
  have sz: "0 \<le> a_size a" "a_size a \<le> MAX_CAPACITY" using inv by (auto simp: arr_inv_def)
  then have id: "c_int (a_size a + 1) = a_size a + 1" by (simp add: MAX_CAPACITY_eq)
  have pos: "0 < a_size a + 1" using sz by simp
  obtain r b where run: "ensureCapacity M a (a_size a + 1) = (r, b)" by fastforce
  show ?thesis
  proof (cases rule: ensureCapacity_cases [OF inv pos run, case_names failed enough])
    case failed
    with run id sz inv show ?thesis by (simp add: arrayAdd_def no_room_def elems_length)
  next
    case enough
    have "elems b = elems a" by (rule elems_keep [OF inv enough(3,6)])
    have "nat (a_size a) < length (contents b)"
      using enough(2,4) sz by (auto simp: arr_inv_def)
    then show ?thesis
      using run id sz enough \<open>elems b = elems a\<close>
      by (auto simp: arrayAdd_def store_def arr_inv_def elems_def nat_add_distrib take_Suc_conv_app_nth Let_def)
  qed
qed

lemma arrayRemove_spec:
  assumes inv: "arr_inv a" and i: "in_range (elems a) i"
  shows "\<exists>a'. arrayRemove a i = Inr (elems a ! nat i, a') \<and> arr_inv a' \<and>
    elems a' = take (nat i) (elems a) @ drop (Suc (nat i)) (elems a)"
proof -
  have sz: "0 \<le> i" "i < a_size a" "a_size a \<le> capacity a" "capacity a \<le> MAX_CAPACITY"
    "length (contents a) = nat (capacity a)"
    using inv i by (auto simp: arr_inv_def in_range_def elems_length)
  then have id: "c_int (a_size a - 1) = a_size a - 1" by (simp add: MAX_CAPACITY_eq)
  obtain j k where jk: "i = int j" "a_size a = int (Suc (j + k))" "Suc (j + k) \<le> length (contents a)"
  proof
    show "i = int (nat i)" "a_size a = int (Suc (nat i + nat (a_size a - 1 - i)))"
      "Suc (nat i + nat (a_size a - 1 - i)) \<le> length (contents a)" using sz by auto
  qed
  let ?c = "contents a"
  have el: "elems a = take (Suc (j + k)) ?c"
    unfolding elems_def jk(2) nat_int ..
  have "nat (int j + 1) = Suc j" "nat (int j + int k) = j + k" "nat (int j + 1 + int k) = Suc (j + k)" by auto
  then have "memmove_cells a i (i + 1) (a_size a - 1 - i) =
      Inr (a\<lparr>contents := take j ?c @ take k (drop (Suc j) ?c) @ drop (j + k) ?c\<rparr>)"
    using jk by (simp add: memmove_cells_def)
  moreover have "load a i = Inr (elems a ! j)" using load_elem [OF inv i] jk by simp
  moreover have "checkBounds a i" using sz by (simp add: checkBounds_def)
  moreover define new where "new = (if k = 0 then ?c else take j ?c @ take k (drop (Suc j) ?c) @ drop (j + k) ?c)"
  ultimately have "arrayRemove a i = Inr (elems a ! j, a\<lparr>contents := new, a_size := int (j + k)\<rparr>)"
    using id jk(1,2) by (simp add: arrayRemove_def Let_def)
  moreover have "length new = length ?c"
    using jk(3) by (simp add: new_def)
  moreover have "take (j + k) new = take j (elems a) @ drop (Suc j) (elems a)"
    using jk(3) by (simp add: new_def el drop_take)
  moreover have "nat i = j" "int (j + k) < a_size a" using jk by simp_all
  ultimately show ?thesis
    using sz by (auto simp: arr_inv_def elems_def simp del: of_nat_add)
qed

lemma arraySet_spec:
  assumes inv: "arr_inv a" and i: "in_range (elems a) i"
  shows "\<exists>a'. arraySet a i p = Inr (elems a ! nat i, a') \<and> arr_inv a' \<and> elems a' = (elems a)[nat i := p]"
  using assms
  by (auto simp: arraySet_def checkBounds_iff load_elem store_def arr_inv_def elems_def in_range_def
      take_update_swap)

lemma memset_cells_SomeD:
  assumes "memset_cells a dst n = Inr a'"
  shows "a_size a' = a_size a \<and> capacity a' = capacity a \<and> length (contents a') = length (contents a) \<and>
    take (nat dst) (contents a') = take (nat dst) (contents a) \<and>
    take (nat n) (drop (nat dst) (contents a')) = replicate (nat n) None"
  using assms by (auto simp: memset_cells_def nat_add_distrib split: if_splits)

lemma arraySetSize_shrink:
  "arr_inv a \<Longrightarrow> 0 \<le> n \<Longrightarrow> n \<le> a_size a \<Longrightarrow>
   \<exists>a'. arraySetSize M a n = Inr (0, a') \<and> arr_inv a' \<and> elems a' = take (nat n) (elems a)"
  by (auto simp: arraySetSize_def arr_inv_def elems_def min_def)

lemma arraySetSize_grow:
  assumes inv: "arr_inv a" and n: "a_size a < n" and run: "arraySetSize M a n = out"
  shows "out = Inr (-1, a) \<and> no_room M n \<or> out = Inl Out_of_block \<and> 0 < a_size a \<or>
    (\<exists>a'. out = Inr (0, a') \<and> arr_inv a' \<and> length (elems a') = nat n \<and>
       take (nat (a_size a)) (elems a') = elems a \<and> (a_size a = 0 \<longrightarrow> elems a' = replicate (nat n) None))"
proof -
  have sz: "0 \<le> a_size a" using inv by (simp add: arr_inv_def)
  then have pos: "0 < n" using n by simp
  obtain r b where cap: "ensureCapacity M a n = (r, b)" by fastforce
  show ?thesis
  proof (cases rule: ensureCapacity_cases [OF inv pos cap, case_names failed enough])
    case failed
    with cap run n pos show ?thesis by (auto simp: arraySetSize_def no_room_def)
  next
    case enough
    have len: "nat n \<le> length (contents b)" using enough(2,4) by (auto simp: arr_inv_def)
    show ?thesis
    proof (cases "memset_cells b (4 * a_size a) (n - a_size a)")
      case (Inl f)
      then have "f = Out_of_block" "a_size a \<noteq> 0"
        using sz n len by (auto simp: memset_cells_def split: if_splits)
      with Inl cap run n pos sz enough(1) show ?thesis by (auto simp: arraySetSize_def)
    next
      case (Inr c)
      from memset_cells_SomeD [OF Inr] have c: "capacity c = capacity b" "length (contents c) = length (contents b)"
        "take (nat (4 * a_size a)) (contents c) = take (nat (4 * a_size a)) (contents b)"
        "take (nat (n - a_size a)) (drop (nat (4 * a_size a)) (contents c)) = replicate (nat (n - a_size a)) None"
        by auto
      have "nat (a_size a) \<le> nat (4 * a_size a)" using sz by simp
      with c(3) have "take (nat (a_size a)) (contents c) = take (nat (a_size a)) (contents b)"
        by (metis min.absorb1 take_take)
      also have "\<dots> = elems a"
        using elems_keep [OF inv enough(3,6)] enough(3) by (simp add: elems_def)
      finally have keep: "take (nat (a_size a)) (contents c) = elems a" .
      have out: "out = Inr (0, c\<lparr>a_size := n\<rparr>)"
        using Inr cap run n pos enough(1) by (simp add: arraySetSize_def)
      have "arr_inv (c\<lparr>a_size := n\<rparr>)" using c enough(2,4) pos by (simp add: arr_inv_def)
      moreover have "take (nat (a_size a)) (take (nat n) (contents c)) = elems a"
        using keep n nat_mono [of "a_size a" n] by (simp add: min_def)
      moreover have "take (nat n) (contents c) = replicate (nat n) None" if "a_size a = 0"
        using c(4) that by simp
      ultimately show ?thesis
        using out len c(2) by (auto simp: elems_def)
    qed
  qed
qed

lemma arr_step_sim:
  assumes inv: "arr_inv a" and step: "arr_step M op a = (out, a')"
  shows "arr_inv a' \<and> arr_spec M op (elems a) out (elems a')"
proof (cases op)
  case (Add p)
  with arrayAdd_spec [OF inv, of M p] step show ?thesis by auto
next
  case (Get i)
  with step inv show ?thesis
    by (cases "in_range (elems a) i") (auto simp: arrayGet_def checkBounds_iff load_elem)
next
  case (Remove i)
  show ?thesis
  proof (cases "in_range (elems a) i")
    case True
    with arrayRemove_spec [OF inv True] Remove step show ?thesis by auto
  next
    case False
    with step inv Remove show ?thesis by (auto simp: arrayRemove_def checkBounds_iff)
  qed
next
  case (Set i p)
  show ?thesis
  proof (cases "in_range (elems a) i")
    case True
    with arraySet_spec [OF inv True, of p] Set step show ?thesis by auto
  next
    case False
    with step inv Set show ?thesis by (auto simp: arraySet_def checkBounds_iff)
  qed
next
  case (SetSize n)
  have len: "length (elems a) = nat (a_size a)" by (rule elems_length [OF inv])
  have sz: "0 \<le> a_size a" using inv by (simp add: arr_inv_def)
  consider "n < 0" | "0 \<le> n" "n \<le> a_size a" | "a_size a < n" by linarith
  then show ?thesis
  proof cases
    case 1
    with step SetSize inv show ?thesis by (auto simp: arraySetSize_def)
  next
    case 2
    with arraySetSize_shrink [OF inv 2, of M] SetSize step len show ?thesis by auto
  next
    case 3
    from arraySetSize_grow [OF inv 3 refl, of M] SetSize step len sz 3 inv show ?thesis
      by (auto split: sum.splits)
  qed
qed

interpretation arr: simulation arr_inv elems "arr_step M" "arr_spec M" for M :: "'v mem"
  by unfold_locales (use arr_step_sim in blast)+

subsection \<open>Properties\<close>

text \<open>C27: Refinement.  Every sequence of array operations on a fresh array gives the outputs and the
  elements the list specification allows; in particular no operation but a growing \<^verbatim>\<open>arraySetSize\<close>
  touches memory outside the block, and an addition fails only at the maximal capacity or without
  memory (the doubling loop always ends).\<close>

theorem array_refines_list:
  assumes "arrayCreate True = Some a" "run_ops (arr_step M) ops a = (outs, a')"
  shows "arr_inv a' \<and> spec_ops (arr_spec M) ops [] outs (elems a') \<and> arraySize a' = int (length (elems a'))"
proof -
  have a: "arr_inv a" "elems a = []"
    using assms(1) by (auto simp: arrayCreate_def arr_inv_def elems_def MAX_CAPACITY_eq)
  have inv: "arr_inv a'" by (rule arr.run_inv [OF a(1) assms(2)])
  moreover have "spec_ops (arr_spec M) ops [] outs (elems a')"
    using arr.run_spec [OF a(1) assms(2)] a(2) by simp
  ultimately show ?thesis using elems_length [OF inv] by (simp add: arraySize_def arr_inv_def)
qed

definition w_mem :: "nat mem" where
  "w_mem = \<lparr>fits = (\<lambda>n. n < 9), junk = (\<lambda>i. Some 99)\<rparr>"

theorem array_refines_list_witness:
  "spec_ops (arr_spec w_mem) [Add (Some 1), Add (Some 2), Add None, Remove 0, Set 1 (Some 5), Get 7] []
     [Status 0, Status 0, Status 0, Pointer (Some 1), Pointer None, Fault Assert_failed] [Some 2, Some 5]"
proof -
  let ?ops = "[Add (Some 1), Add (Some 2), Add None, Remove 0, Set 1 (Some 5), Get 7]"
  have create: "arrayCreate True = Some \<lparr>contents = [], a_size = 0, capacity = 0\<rparr>"
    by (simp add: arrayCreate_def)
  have run: "run_ops (arr_step w_mem) ?ops \<lparr>contents = [], a_size = 0, capacity = 0\<rparr> =
    ([Status 0, Status 0, Status 0, Pointer (Some 1), Pointer None, Fault Assert_failed],
     \<lparr>contents = [Some 2, Some 5, None, Some 99], a_size = 2, capacity = 4\<rparr>)"
    by code_simp
  show ?thesis using array_refines_list [OF create run] by (simp add: elems_def)
qed

text \<open>C28: Growing a non-empty array within its capacity.  The header promises that \<^verbatim>\<open>arraySetSize\<close> sets new
  pointers to \<^verbatim>\<open>NULL\<close>; the code scales the offset of \<^verbatim>\<open>memset\<close> twice, so that it clears the cells from
  \<open>4 * size\<close> on: the call writes outside the block when that range does not fit, and otherwise leaves
  what was in the new cells below \<open>4 * size\<close>.\<close>

theorem arraySetSize_leaves_stale_cells:
  assumes "arr_inv a" "0 < a_size a" "a_size a < n" "n \<le> capacity a"
  shows "(if 3 * a_size a + n > capacity a then arraySetSize M a n = Inl Out_of_block
     else \<exists>a'. arraySetSize M a n = Inr (0, a') \<and>
       (\<forall>i. nat (a_size a) \<le> i \<and> i < nat n \<and> i < nat (4 * a_size a) \<longrightarrow> elems a' ! i = contents a ! i))"
proof -
  have cap: "ensureCapacity M a n = (0, a)" using assms(4) by (simp add: ensureCapacity_def)
  have len: "length (contents a) = nat (capacity a)" using assms(1) by (simp add: arr_inv_def)
  show ?thesis
    using assms len cap
    by (auto simp: arraySetSize_def memset_cells_def elems_def nth_append min_def Let_def)
qed

definition w_array :: "nat Array" where
  "w_array = \<lparr>contents = [Some 1, Some 2, Some 3, Some 4, Some 5, Some 6, Some 7, Some 8], a_size = 1, capacity = 8\<rparr>"

theorem arraySetSize_leaves_stale_cells_witness:
  "arraySetSize w_mem w_array 7 = Inl Out_of_block \<and>
   (\<exists>a'. arraySetSize w_mem w_array 3 = Inr (0, a') \<and> elems a' ! 1 = Some 2)"
  using arraySetSize_leaves_stale_cells [of w_array 7 w_mem] arraySetSize_leaves_stale_cells [of w_array 3 w_mem]
  by (auto simp: arr_inv_def MAX_CAPACITY_eq w_array_def)

end
