(* ===== verification/Init_Tokenizer.thy ===== *)
theory Init_Tokenizer
  imports Prelude
begin

text \<open>
  The tokenizer of \<^verbatim>\<open>src/core/init/parser.c\<close>.  It rewrites the file buffer in place: quotes and escapes are
  removed by copying the text of a token down over itself, and a NUL is stored behind it.  The model
  keeps the buffer explicitly; every read and write is checked, and \<open>None\<close> stands for an access outside
  the buffer.  The second half is a lexer on immutable strings, and the proof that the in-place
  tokenizer implements it without leaving the buffer or damaging earlier tokens.
\<close>

abbreviation (input) "SP \<equiv> CHR '' ''"
abbreviation (input) "DQUOTE \<equiv> CHR 0x22"
abbreviation (input) "BACKSLASH \<equiv> CHR 0x5C"
abbreviation (input) "HASH \<equiv> CHR ''#''"

datatype token = T_EOF | T_TEXT | T_NEWLINE

record parse_state =
  buf :: string
  ptr :: nat
  tok_text :: nat
  line :: int
  nexttoken :: "token option"

definition rd :: "string \<Rightarrow> nat \<Rightarrow> char option" where
  "rd b x = (if x < length b then Some (b ! x) else None)"

definition wr :: "string \<Rightarrow> nat \<Rightarrow> char \<Rightarrow> string option" where
  "wr b s c = (if s < length b then Some (b[s := c]) else None)"

lemma rd_SomeD: "rd b x = Some c \<Longrightarrow> x < length b \<and> b ! x = c"
  by (auto simp: rd_def split: if_splits)

lemma wr_SomeD: "wr b s c = Some b' \<Longrightarrow> s < length b \<and> b' = b[s := c]"
  by (auto simp: wr_def split: if_splits)

lemma rd_drop: "rd b x = Some c \<Longrightarrow> drop x b = c # drop (x + 1) b"
  by (auto simp: rd_def Cons_nth_drop_Suc split: if_splits)

lemma rd_None: "rd b x = None \<Longrightarrow> drop x b = []"
  by (simp add: rd_def split: if_splits)

subsection \<open>The tokenizer\<close>

text \<open>\<^verbatim>\<open>while((*x == ' ') || (*x == '\t')) x++;\<close>\<close>

function eat_blanks :: "string \<Rightarrow> nat \<Rightarrow> nat option" where
  "eat_blanks b x =
     (case rd b x of
        None \<Rightarrow> None
      | Some c \<Rightarrow> if c = SP \<or> c = TAB then eat_blanks b (x + 1) else Some x)"
  by pat_completeness auto
termination by (relation "measure (\<lambda>(b, x). length b - x)") (auto dest: rd_SomeD)

text \<open>\<^verbatim>\<open>while (*x && (*x != '\n')) x++;\<close>\<close>

function comment_end :: "string \<Rightarrow> nat \<Rightarrow> nat option" where
  "comment_end b x =
     (case rd b x of
        None \<Rightarrow> None
      | Some c \<Rightarrow> if c \<noteq> NUL \<and> c \<noteq> LF then comment_end b (x + 1) else Some x)"
  by pat_completeness auto
termination by (relation "measure (\<lambda>(b, x). length b - x)") (auto dest: rd_SomeD)

declare eat_blanks.simps [simp del] comment_end.simps [simp del]

lemma eat_blanks_SomeD:
  "eat_blanks b x = Some x' \<Longrightarrow> x \<le> x' \<and> drop x' b = dropWhile (\<lambda>c. c = SP \<or> c = TAB) (drop x b) \<and> x' < length b"
proof (induction b x rule: eat_blanks.induct)
  case (1 b x)
  from "1.prems" obtain c where c: "rd b x = Some c"
    by (subst (asm) eat_blanks.simps) (auto split: option.splits)
  then have d: "drop x b = c # drop (x + 1) b" by (rule rd_drop)
  show ?case
  proof (cases "c = SP \<or> c = TAB")
    case True
    with "1.prems" c have "eat_blanks b (x + 1) = Some x'" by (subst (asm) eat_blanks.simps) simp
    with "1.IH" [OF c True] d True show ?thesis by auto
  next
    case False
    with "1.prems" c have "x' = x" by (subst (asm) eat_blanks.simps) simp
    with False c d show ?thesis by (auto dest: rd_SomeD)
  qed
qed

lemma eat_blanks_None:
  "eat_blanks b x = None \<Longrightarrow> dropWhile (\<lambda>c. c = SP \<or> c = TAB) (drop x b) = []"
proof (induction b x rule: eat_blanks.induct)
  case (1 b x)
  show ?case
  proof (cases "rd b x")
    case None
    then show ?thesis by (simp add: rd_None)
  next
    case (Some c)
    with "1.prems" have c: "(c = SP \<or> c = TAB) \<and> eat_blanks b (x + 1) = None"
      by (simp add: eat_blanks.simps [of b x] split: if_splits)
    with "1.IH" [OF Some] rd_drop [OF Some] show ?thesis by simp
  qed
qed

text \<open>What the text scanner leaves behind: the token, the buffer, \<^verbatim>\<open>ptr\<close>, \<^verbatim>\<open>line\<close> and \<^verbatim>\<open>nexttoken\<close>.\<close>

type_synonym scan = "token \<times> string \<times> nat \<times> int \<times> token option"

definition textdone :: "string \<Rightarrow> nat \<Rightarrow> nat \<Rightarrow> int \<Rightarrow> token option \<Rightarrow> scan option" where
  "textdone b s x ln nt = (case wr b s NUL of None \<Rightarrow> None | Some b \<Rightarrow> Some (T_TEXT, b, x, ln, nt))"

text \<open>The loop at \<^verbatim>\<open>textresume\<close> (\<open>quoted = False\<close>) and the loop inside a quotation (\<open>quoted = True\<close>); \<open>s\<close> is
  where the next character of the token goes, \<open>x\<close> the character that is read.\<close>

function text_loop :: "bool \<Rightarrow> string \<Rightarrow> nat \<Rightarrow> nat \<Rightarrow> int \<Rightarrow> scan option" where
  "text_loop True b s x ln =
     (case rd b x of
        None \<Rightarrow> None
      | Some c \<Rightarrow>
          if c = NUL then Some (T_EOF, b, x, ln, None)
          else if c = DQUOTE then text_loop False b s (x + 1) ln
          else (case wr b s c of None \<Rightarrow> None | Some b \<Rightarrow> text_loop True b (s + 1) (x + 1) ln))"
| "text_loop False b s x ln =
     (case rd b x of
        None \<Rightarrow> None
      | Some c \<Rightarrow>
          if c = NUL then textdone b s x ln None
          else if c = SP \<or> c = TAB \<or> c = CR then textdone b s (x + 1) ln None
          else if c = LF then textdone b s (x + 1) ln (Some T_NEWLINE)
          else if c = DQUOTE then text_loop True b s (x + 1) ln
          else if c = BACKSLASH then
            (case rd b (x + 1) of
               None \<Rightarrow> None
             | Some d \<Rightarrow>
                 if d = NUL then textdone b s (x + 1) ln None
                 else if d = CHR ''n'' then
                   (case wr b s LF of None \<Rightarrow> None | Some b \<Rightarrow> text_loop False b (s + 1) (x + 2) ln)
                 else if d = CHR ''r'' then
                   (case wr b s CR of None \<Rightarrow> None | Some b \<Rightarrow> text_loop False b (s + 1) (x + 2) ln)
                 else if d = CHR ''t'' then
                   (case wr b s TAB of None \<Rightarrow> None | Some b \<Rightarrow> text_loop False b (s + 1) (x + 2) ln)
                 else if d = BACKSLASH then
                   (case wr b s BACKSLASH of None \<Rightarrow> None | Some b \<Rightarrow> text_loop False b (s + 1) (x + 2) ln)
                 else if d = CR then
                   (case rd b (x + 2) of
                      None \<Rightarrow> None
                    | Some e \<Rightarrow>
                        if e \<noteq> LF then text_loop False b s (x + 2) ln
                        else (case eat_blanks b (x + 2) of
                                None \<Rightarrow> None
                              | Some x' \<Rightarrow> text_loop False b s x' (ln + 1)))
                 else if d = LF then
                   (case eat_blanks b (x + 2) of
                      None \<Rightarrow> None
                    | Some x' \<Rightarrow> text_loop False b s x' (ln + 1))
                 else (case wr b s d of None \<Rightarrow> None | Some b \<Rightarrow> text_loop False b (s + 1) (x + 2) ln))
          else (case wr b s c of None \<Rightarrow> None | Some b \<Rightarrow> text_loop False b (s + 1) (x + 1) ln))"
  by pat_completeness auto
termination
  by (relation "measure (\<lambda>(q, b, s, x, ln). length b - x)") (auto dest!: rd_SomeD wr_SomeD eat_blanks_SomeD)

declare text_loop.simps [simp del]

function start_loop :: "string \<Rightarrow> nat \<Rightarrow> int \<Rightarrow> nat \<Rightarrow> (token \<times> parse_state) option" where
  "start_loop b x ln t =
     (case rd b x of
        None \<Rightarrow> None
      | Some c \<Rightarrow>
          if c = NUL then
            Some (T_EOF, \<lparr>buf = b, ptr = x, tok_text = t, line = ln, nexttoken = None\<rparr>)
          else if c = LF then
            Some (T_NEWLINE, \<lparr>buf = b, ptr = x + 1, tok_text = t, line = ln + 1, nexttoken = None\<rparr>)
          else if c = SP \<or> c = TAB \<or> c = CR then start_loop b (x + 1) ln t
          else if c = HASH then
            (case comment_end b x of
               None \<Rightarrow> None
             | Some x \<Rightarrow>
                 Some (T_NEWLINE, \<lparr>buf = b, ptr = x, tok_text = t, line = ln + 1, nexttoken = None\<rparr>))
          else
            (case text_loop False b x x ln of
               None \<Rightarrow> None
             | Some (tk, b, x', ln, nt) \<Rightarrow>
                 Some (tk, \<lparr>buf = b, ptr = x', tok_text = x, line = ln, nexttoken = nt\<rparr>)))"
  by pat_completeness auto
termination by (relation "measure (\<lambda>(b, x, ln, t). length b - x)") (auto dest: rd_SomeD)

declare start_loop.simps [simp del]

definition next_token :: "parse_state \<Rightarrow> (token \<times> parse_state) option" where
  "next_token st =
     (case nexttoken st of
        Some t \<Rightarrow> Some (t, st\<lparr>nexttoken := None\<rparr>)
      | None \<Rightarrow> start_loop (buf st) (ptr st) (line st) (tok_text st))"

subsection \<open>The lexer on strings\<close>

text \<open>One word: the token, its text, the rest of the input, the line breaks inside it, and the pending
  token.  \<open>None\<close>: the input has no terminating NUL.\<close>

type_synonym word_res = "token \<times> string \<times> string \<times> int \<times> token option"

definition add_char :: "char \<Rightarrow> word_res option \<Rightarrow> word_res option" where
  "add_char c = map_option (\<lambda>(tk, w, rest, k, nt). (tk, c # w, rest, k, nt))"

definition add_line :: "word_res option \<Rightarrow> word_res option" where
  "add_line = map_option (\<lambda>(tk, w, rest, k, nt). (tk, w, rest, k + 1, nt))"

definition unescape :: "char \<Rightarrow> char" where
  "unescape d = (if d = CHR ''n'' then LF else if d = CHR ''r'' then CR else if d = CHR ''t'' then TAB else d)"

function lex_word :: "bool \<Rightarrow> string \<Rightarrow> word_res option" where
  "lex_word q [] = None"
| "lex_word True (c # cs) =
     (if c = NUL then Some (T_EOF, [], c # cs, 0, None)
      else if c = DQUOTE then lex_word False cs
      else add_char c (lex_word True cs))"
| "lex_word False (c # cs) =
     (if c = NUL then Some (T_TEXT, [], c # cs, 0, None)
      else if c = SP \<or> c = TAB \<or> c = CR then Some (T_TEXT, [], cs, 0, None)
      else if c = LF then Some (T_TEXT, [], cs, 0, Some T_NEWLINE)
      else if c = DQUOTE then lex_word True cs
      else if c = BACKSLASH then
        (case cs of
           [] \<Rightarrow> None
         | d # ds \<Rightarrow>
             if d = NUL then Some (T_TEXT, [], cs, 0, None)
             else if d = CR then
               (case ds of [] \<Rightarrow> None | e # es \<Rightarrow> if e \<noteq> LF then lex_word False ds else add_line (lex_word False ds))
             else if d = LF then add_line (lex_word False (dropWhile (\<lambda>c. c = SP \<or> c = TAB) ds))
             else add_char (unescape d) (lex_word False ds))
      else add_char c (lex_word False cs))"
  by pat_completeness auto
termination
  by (relation "measure (\<lambda>(q, cs). length cs)") (auto simp: less_Suc_eq_le length_dropWhile_le le_SucI)

definition scan_ok :: "bool \<Rightarrow> string \<Rightarrow> nat \<Rightarrow> nat \<Rightarrow> int \<Rightarrow> scan option \<Rightarrow> bool" where
  "scan_ok q b s x ln r \<longleftrightarrow>
     (case lex_word q (drop x b) of
        None \<Rightarrow> r = None
      | Some (tk, w, rest, k, nt) \<Rightarrow>
          \<exists>b'. r = Some (tk, b', length b - length rest, ln + k, nt) \<and> length b' = length b \<and>
               take s b' = take s b \<and> drop (length b - length rest) b' = rest \<and>
               (tk = T_TEXT \<longrightarrow> take (length w + 1) (drop s b') = w @ [NUL] \<and> s + length w + length rest \<le> length b) \<and>
               x + length rest \<le> length b)"

lemma scan_ok_skip:
  assumes "lex_word q (drop x b) = lex_word q' (drop x2 b)" "x \<le> x2" "scan_ok q' b s x2 ln r"
  shows "scan_ok q b s x ln r"
  using assms by (auto simp: scan_ok_def split: option.splits)

lemma scan_ok_line:
  assumes "lex_word q (drop x b) = add_line (lex_word q' (drop x2 b))" "x \<le> x2" "scan_ok q' b s x2 (ln + 1) r"
  shows "scan_ok q b s x ln r"
  using assms by (auto simp: scan_ok_def add_line_def split: option.splits)

lemma scan_ok_done:
  assumes "s \<le> x" "lex_word q (drop x b) = Some (T_TEXT, [], drop x2 b, 0, nt)" "x \<le> x2" "x2 \<le> length b" "s < length b"
    and "drop x2 (b[s := NUL]) = drop x2 b"
  shows "scan_ok q b s x ln (textdone b s x2 ln nt)"
  using assms by (auto simp: scan_ok_def textdone_def wr_def drop_update_swap take_Suc_conv_app_nth
      Cons_nth_drop_Suc [symmetric] split: option.splits)

lemma scan_ok_char:
  assumes lex: "lex_word q (drop x b) = add_char c (lex_word q' (drop x2 b))" and s: "s < x2" "s < length b" "x \<le> x2"
    and ok: "scan_ok q' (b[s := c]) (s + 1) x2 ln r"
  shows "scan_ok q b s x ln r"
proof (cases "lex_word q' (drop x2 b)")
  case None
  with lex ok s show ?thesis by (simp add: scan_ok_def add_char_def)
next
  case (Some res)
  then obtain tk w rest k nt where res: "lex_word q' (drop x2 b) = Some (tk, w, rest, k, nt)" by (cases res) auto
  with ok s obtain b' where b': "r = Some (tk, b', length b - length rest, ln + k, nt)" "length b' = length b"
    "take (s + 1) b' = take (s + 1) (b[s := c])" "drop (length b - length rest) b' = rest"
    "tk = T_TEXT \<longrightarrow> take (length w + 1) (drop (s + 1) b') = w @ [NUL] \<and> s + 1 + length w + length rest \<le> length b" "x2 + length rest \<le> length b"
    by (auto simp: scan_ok_def)
  have tk: "take s b' = take s b"
    using arg_cong [OF b'(3), of "take s"] by (simp add: min_def)
  have "b' ! s = c"
    using arg_cong [OF b'(3), of "\<lambda>l. l ! s"] s by simp
  then have "drop s b' = c # drop (s + 1) b'" using s b'(2) by (metis Cons_nth_drop_Suc Suc_eq_plus1)
  with b' tk lex res s show ?thesis by (auto simp: scan_ok_def add_char_def)
qed

lemma lex_word_escape:
  "drop x b = BACKSLASH # d # ds \<Longrightarrow> d \<notin> {NUL, CR, LF} \<Longrightarrow>
   lex_word False (drop x b) = add_char (unescape d) (lex_word False ds)"
  by (simp add: char_consts)

text \<open>One round of each loop, given that the scans that start further on are right.\<close>

definition scans_from :: "string \<Rightarrow> nat \<Rightarrow> bool" where
  "scans_from b x \<longleftrightarrow>
     (\<forall>q b' s' x' ln'. length b' = length b \<longrightarrow> x < x' \<longrightarrow> s' \<le> x' \<longrightarrow> x' \<le> length b \<longrightarrow>
        scan_ok q b' s' x' ln' (text_loop q b' s' x' ln'))"

lemma scans_fromD:
  "scans_from b x \<Longrightarrow> length b' = length b \<Longrightarrow> x < x' \<Longrightarrow> s' \<le> x' \<Longrightarrow> x' \<le> length b \<Longrightarrow>
   scan_ok q b' s' x' ln' (text_loop q b' s' x' ln')"
  by (simp add: scans_from_def)

lemma copy_step:
  assumes fr: "scans_from b x" and x: "s \<le> x" "x < x2" "x2 \<le> length b"
    and lex: "lex_word q (drop x b) = add_char c (lex_word q' (drop x2 b))"
  shows "scan_ok q b s x ln (case wr b s c of None \<Rightarrow> None | Some b \<Rightarrow> text_loop q' b (s + 1) x2 ln)"
proof -
  have "wr b s c = Some (b[s := c])" using x by (simp add: wr_def)
  moreover have "scan_ok q' (b[s := c]) (s + 1) x2 ln (text_loop q' (b[s := c]) (s + 1) x2 ln)"
    by (rule scans_fromD [OF fr]) (use x in simp_all)
  ultimately show ?thesis using scan_ok_char [OF lex] x by simp
qed

lemma quoted_step:
  assumes fr: "scans_from b x" and s: "s \<le> x" and c: "rd b x = Some c"
  shows "scan_ok True b s x ln (text_loop True b s x ln)"
proof -
  note d = rd_drop [OF c] and lt = rd_SomeD [OF c]
  consider "c = NUL" | "c = DQUOTE" "c \<noteq> NUL" | "c \<noteq> NUL" "c \<noteq> DQUOTE" by blast
  then show ?thesis
  proof cases
    case 1
    with c d lt show ?thesis by (auto simp: scan_ok_def text_loop.simps)
  next
    case 2
    have "scan_ok False b s (x + 1) ln (text_loop False b s (x + 1) ln)"
      by (rule scans_fromD [OF fr]) (use s lt in simp_all)
    then show ?thesis
      using c d 2 by (intro scan_ok_skip [of True x b False "x + 1"]) (simp_all add: text_loop.simps(1))
  next
    case 3
    with copy_step [OF fr s, of "x + 1" True c True] c d lt show ?thesis by (simp add: text_loop.simps(1))
  qed
qed

lemma escape_step:
  assumes fr: "scans_from b x" and s: "s \<le> x" and c: "rd b x = Some BACKSLASH" and dd: "rd b (x + 1) = Some d"
  shows "scan_ok False b s x ln (text_loop False b s x ln)"
proof -
  have dr: "drop x b = BACKSLASH # d # drop (x + 2) b"
    using rd_drop [OF c] rd_drop [OF dd] by simp
  have lt: "x + 2 \<le> length b" using rd_SomeD [OF dd] by simp
  have char: "scan_ok False b s x ln (case wr b s (unescape d) of None \<Rightarrow> None | Some b \<Rightarrow> text_loop False b (s + 1) (x + 2) ln)"
    if "d \<notin> {NUL, CR, LF}"
    using copy_step [OF fr s, of "x + 2" False "unescape d" False] lex_word_escape [OF dr that] lt by simp
  have cont: "scan_ok False b s x ln (case eat_blanks b (x + 2) of None \<Rightarrow> None | Some x' \<Rightarrow> text_loop False b s x' (ln + 1))"
    if lex: "lex_word False (drop x b) = add_line (lex_word False (dropWhile (\<lambda>c. c = SP \<or> c = TAB) (drop (x + 2) b)))"
  proof (cases "eat_blanks b (x + 2)")
    case None
    have "lex_word False (drop x b) = None"
      unfolding lex eat_blanks_None [OF None] by (simp add: add_line_def)
    with None show ?thesis by (simp add: scan_ok_def)
  next
    case (Some x')
    from eat_blanks_SomeD [OF this] have x': "x + 2 \<le> x'" "x' < length b"
      "drop x' b = dropWhile (\<lambda>c. c = SP \<or> c = TAB) (drop (x + 2) b)" by auto
    have "scan_ok False b s x' (ln + 1) (text_loop False b s x' (ln + 1))"
      by (rule scans_fromD [OF fr]) (use s x' in simp_all)
    with Some x' lex show ?thesis by (auto intro: scan_ok_line [of False x b False x'])
  qed
  consider "d = NUL" | "d = CR" | "d = LF" | "d \<notin> {NUL, CR, LF}" by blast
  then show ?thesis
  proof cases
    case 1
    have "scan_ok False b s x ln (textdone b s (x + 1) ln None)"
      using dr 1 s lt by (intro scan_ok_done) (simp_all add: char_consts Cons_nth_drop_Suc [symmetric])
    with 1 c dd show ?thesis by (simp add: text_loop.simps(2) char_consts)
  next
    case 2
    show ?thesis
    proof (cases "rd b (x + 2)")
      case None
      with 2 c dd dr rd_None [OF None] show ?thesis by (simp add: text_loop.simps(2) char_consts scan_ok_def)
    next
      case (Some e)
      note de = rd_drop [OF Some]
      show ?thesis
      proof (cases "e = LF")
        case True
        then have "lex_word False (drop x b) = add_line (lex_word False (dropWhile (\<lambda>c. c = SP \<or> c = TAB) (drop (x + 2) b)))"
          using dr de 2 by (simp add: char_consts)
        from cont [OF this] True Some 2 c dd show ?thesis by (simp add: text_loop.simps(2) char_consts)
      next
        case False
        have "scan_ok False b s (x + 2) ln (text_loop False b s (x + 2) ln)"
          by (rule scans_fromD [OF fr]) (use s lt in simp_all)
        moreover have "lex_word False (drop x b) = lex_word False (drop (x + 2) b)"
          using dr de 2 False by (simp add: char_consts)
        ultimately have "scan_ok False b s x ln (text_loop False b s (x + 2) ln)"
          by (intro scan_ok_skip [of False x b False "x + 2"]) simp_all
        with False Some 2 c dd show ?thesis by (simp add: text_loop.simps(2) char_consts)
      qed
    qed
  next
    case 3
    then have "lex_word False (drop x b) = add_line (lex_word False (dropWhile (\<lambda>c. c = SP \<or> c = TAB) (drop (x + 2) b)))"
      using dr by (simp add: char_consts)
    from cont [OF this] 3 c dd show ?thesis by (simp add: text_loop.simps(2) char_consts)
  next
    case 4
    from char [OF 4] 4 c dd show ?thesis
      by (auto simp: text_loop.simps(2) [of b s x] char_consts unescape_def split: if_splits)
  qed
qed

lemma plain_step:
  assumes fr: "scans_from b x" and s: "s \<le> x" and c: "rd b x = Some c"
  shows "scan_ok False b s x ln (text_loop False b s x ln)"
proof -
  note d = rd_drop [OF c] and lt = rd_SomeD [OF c]
  consider "c = NUL" | "c = SP \<or> c = TAB \<or> c = CR" | "c = LF" | "c = DQUOTE" | "c = BACKSLASH"
    | "c \<notin> {NUL, SP, TAB, CR, LF, DQUOTE, BACKSLASH}" by blast
  then show ?thesis
  proof cases
    case 1
    have "drop x (b[s := NUL]) = drop x b"
      using s lt 1 list_update_id [of b x] by (cases "s = x") auto
    then have "scan_ok False b s x ln (textdone b s x ln None)"
      using d 1 s lt by (intro scan_ok_done) simp_all
    with 1 c show ?thesis by (simp add: text_loop.simps(2))
  next
    case 2
    have "scan_ok False b s x ln (textdone b s (x + 1) ln None)"
      using d 2 s lt by (intro scan_ok_done) (auto simp: char_consts)
    with 2 c show ?thesis by (auto simp: text_loop.simps(2) char_consts)
  next
    case 3
    have "scan_ok False b s x ln (textdone b s (x + 1) ln (Some T_NEWLINE))"
      using d 3 s lt by (intro scan_ok_done) (auto simp: char_consts)
    with 3 c show ?thesis by (auto simp: text_loop.simps(2) char_consts)
  next
    case 4
    have "scan_ok True b s (x + 1) ln (text_loop True b s (x + 1) ln)"
      by (rule scans_fromD [OF fr]) (use s lt in simp_all)
    then show ?thesis
      using c d 4 by (intro scan_ok_skip [of False x b True "x + 1"]) (simp_all add: text_loop.simps(2) char_consts)
  next
    case 5
    show ?thesis
    proof (cases "rd b (x + 1)")
      case None
      with 5 c d rd_None [OF None] show ?thesis by (simp add: text_loop.simps(2) char_consts scan_ok_def)
    next
      case (Some e)
      with escape_step [OF fr s] c 5 show ?thesis by simp
    qed
  next
    case 6
    with copy_step [OF fr s, of "x + 1" False c False] c d lt show ?thesis
      by (simp add: text_loop.simps(2))
  qed
qed

lemma text_loop_ok: "s \<le> x \<Longrightarrow> x \<le> length b \<Longrightarrow> scan_ok q b s x ln (text_loop q b s x ln)"
proof (induction "length b - x" arbitrary: q b s x ln rule: less_induct)
  case less
  have fr: "scans_from b x"
    unfolding scans_from_def using less by auto
  show ?case
  proof (cases "rd b x")
    case None
    with rd_None [OF None] show ?thesis by (cases q) (simp_all add: scan_ok_def text_loop.simps)
  next
    case (Some c)
    with plain_step [OF fr] quoted_step [OF fr] less.prems show ?thesis by (cases q) simp_all
  qed
qed

text \<open>The token at the start of an input.\<close>

fun lex_token :: "string \<Rightarrow> word_res option" where
  "lex_token [] = None"
| "lex_token (c # cs) =
     (if c = NUL then Some (T_EOF, [], c # cs, 0, None)
      else if c = LF then Some (T_NEWLINE, [], cs, 1, None)
      else if c = SP \<or> c = TAB \<or> c = CR then lex_token cs
      else if c = HASH then
        (case dropWhile (\<lambda>c. c \<noteq> NUL \<and> c \<noteq> LF) cs of
           [] \<Rightarrow> None
         | rest \<Rightarrow> Some (T_NEWLINE, [], rest, 1, None))
      else lex_word False (c # cs))"

lemma comment_end_eq:
  "comment_end b x = (case dropWhile (\<lambda>c. c \<noteq> NUL \<and> c \<noteq> LF) (drop x b) of [] \<Rightarrow> None | rest \<Rightarrow> Some (length b - length rest))"
proof (induction b x rule: comment_end.induct)
  case (1 b x)
  show ?case
  proof (cases "rd b x")
    case None
    then show ?thesis by (simp add: comment_end.simps [of b x] rd_None)
  next
    case (Some c)
    show ?thesis
    proof (cases "c \<noteq> NUL \<and> c \<noteq> LF")
      case True
      with "1.IH" [OF Some True] rd_drop [OF Some] show ?thesis
        by (simp add: comment_end.simps [of b x] Some)
    next
      case False
      have "length b - length (drop x b) = x" using rd_SomeD [OF Some] by simp
      with False rd_drop [OF Some] rd_SomeD [OF Some] show ?thesis
        by (auto simp: comment_end.simps [of b x] Some)
    qed
  qed
qed

text \<open>The state after a token, against the lexer.  \<open>token_at\<close>: the text of a token that was handed out.\<close>

definition token_at :: "parse_state \<Rightarrow> nat \<Rightarrow> string \<Rightarrow> bool" where
  "token_at st t w \<longleftrightarrow> take (length w + 1) (drop t (buf st)) = w @ [NUL] \<and> t + length w \<le> ptr st"

definition token_ok :: "parse_state \<Rightarrow> word_res \<Rightarrow> token \<times> parse_state \<Rightarrow> bool" where
  "token_ok st = (\<lambda>(tk, w, rest, k, nt) (tk', st').
     tk' = tk \<and> drop (ptr st') (buf st') = rest \<and> length (buf st') = length (buf st) \<and>
     ptr st \<le> ptr st' \<and> ptr st' \<le> length (buf st) \<and> take (ptr st) (buf st') = take (ptr st) (buf st) \<and>
     line st' = line st + k \<and> nexttoken st' = nt \<and> (tk = T_TEXT \<longrightarrow> token_at st' (tok_text st') w))"

lemma start_loop_ok:
  assumes "x0 \<le> x" "x \<le> length b" "st = \<lparr>buf = b, ptr = x0, tok_text = t, line = ln, nexttoken = None\<rparr>"
  shows "case lex_token (drop x b) of
      None \<Rightarrow> start_loop b x ln t = None
    | Some r \<Rightarrow> \<exists>res. start_loop b x ln t = Some res \<and> token_ok st r res"
  using assms
proof (induction "length b - x" arbitrary: x rule: less_induct)
  case less
  show ?case
  proof (cases "rd b x")
    case None
    then show ?thesis by (simp add: start_loop.simps rd_None)
  next
    case (Some c)
    note d = rd_drop [OF Some] and lt = rd_SomeD [OF Some]
    consider "c = NUL" | "c = LF" | "c = SP \<or> c = TAB \<or> c = CR" | "c = HASH"
      | "c \<notin> {NUL, LF, SP, TAB, CR, HASH}" by blast
    then show ?thesis
    proof cases
      case 1
      with Some d lt less.prems show ?thesis by (simp add: start_loop.simps token_ok_def)
    next
      case 2
      with Some d lt less.prems show ?thesis by (simp add: start_loop.simps token_ok_def char_consts)
    next
      case 3
      have "lex_token (drop x b) = lex_token (drop (x + 1) b)" using d 3 by (auto simp: char_consts)
      moreover have "start_loop b x ln t = start_loop b (x + 1) ln t"
        using Some 3 by (subst start_loop.simps) (auto simp: char_consts)
      moreover have "case lex_token (drop (x + 1) b) of None \<Rightarrow> start_loop b (x + 1) ln t = None
          | Some r \<Rightarrow> \<exists>res. start_loop b (x + 1) ln t = Some res \<and> token_ok st r res"
        by (rule less.hyps) (use less.prems lt in auto)
      ultimately show ?thesis by (simp only:)
    next
      case 4
      define r where "r = dropWhile (\<lambda>c. c \<noteq> NUL \<and> c \<noteq> LF) (drop (x + 1) b)"
      have ce: "comment_end b x = (case r of [] \<Rightarrow> None | rest \<Rightarrow> Some (length b - length rest))"
        using d 4 by (simp add: comment_end_eq r_def char_consts)
      have lex: "lex_token (drop x b) = (case r of [] \<Rightarrow> None | rest \<Rightarrow> Some (T_NEWLINE, [], rest, 1, None))"
        using d 4 by (simp add: r_def char_consts)
      have "length r \<le> length (drop (x + 1) b)" unfolding r_def by (rule length_dropWhile_le)
      then have len: "x \<le> length b - length r" using lt by auto
      have "b = (take (x + 1) b @ takeWhile (\<lambda>c. c \<noteq> NUL \<and> c \<noteq> LF) (drop (x + 1) b)) @ r"
        by (simp add: r_def)
      then obtain p where "b = p @ r" by blast
      then have dr: "drop (length b - length r) b = r" by simp
      have run: "start_loop b x ln t = (case r of [] \<Rightarrow> None | rest \<Rightarrow>
          Some (T_NEWLINE, \<lparr>buf = b, ptr = length b - length rest, tok_text = t, line = ln + 1, nexttoken = None\<rparr>))"
        using Some 4 ce by (subst start_loop.simps) (simp add: char_consts split: list.splits)
      show ?thesis
        using len dr less.prems by (auto simp: lex run token_ok_def split: list.splits)
    next
      case 5
      have lex: "lex_token (drop x b) = lex_word False (drop x b)" using d 5 by simp
      have st: "start_loop b x ln t = (case text_loop False b x x ln of None \<Rightarrow> None
          | Some (tk, b, x', ln, nt) \<Rightarrow> Some (tk, \<lparr>buf = b, ptr = x', tok_text = x, line = ln, nexttoken = nt\<rparr>))"
        using Some 5 by (subst start_loop.simps) simp
      have "scan_ok False b x x ln (text_loop False b x x ln)" by (rule text_loop_ok) (use less.prems in simp_all)
      then show ?thesis
      proof (cases "lex_word False (drop x b)")
        case None
        with \<open>scan_ok _ _ _ _ _ _\<close> show ?thesis by (simp add: lex st scan_ok_def)
      next
        case (Some r)
        obtain tk w rest k nt where r: "r = (tk, w, rest, k, nt)" by (cases r)
        with Some \<open>scan_ok _ _ _ _ _ _\<close> obtain b' where b':
          "text_loop False b x x ln = Some (tk, b', length b - length rest, ln + k, nt)" "length b' = length b"
          "take x b' = take x b" "drop (length b - length rest) b' = rest"
          "tk = T_TEXT \<longrightarrow> take (length w + 1) (drop x b') = w @ [NUL] \<and> x + length w + length rest \<le> length b"
          "x + length rest \<le> length b"
          by (auto simp: scan_ok_def)
        have "take x0 b' = take x0 b"
          using less.prems(1) b'(3) by (metis min.absorb1 take_take)
        then show ?thesis
          using b' less.prems Some by (auto simp: lex st r token_ok_def token_at_def)
      qed
    qed
  qed
qed

subsection \<open>Totality and progress\<close>

text \<open>A result that is right for the input \<open>cs\<close>: a word was found unless the NUL is missing, the rest is a
  suffix that keeps the NUL, and the word has none.\<close>

definition res_ok :: "string \<Rightarrow> word_res option \<Rightarrow> bool" where
  "res_ok cs r \<longleftrightarrow>
     (case r of
        None \<Rightarrow> NUL \<notin> set cs
      | Some (tk, w, rest, k, nt) \<Rightarrow>
          (\<exists>p. cs = p @ rest \<and> NUL \<notin> set p) \<and> NUL \<notin> set w \<and> tk \<noteq> T_NEWLINE \<and> (nt = None \<or> tk = T_TEXT \<and> nt = Some T_NEWLINE))"

lemma res_ok_skip: "NUL \<notin> set p \<Longrightarrow> res_ok ds r \<Longrightarrow> res_ok (p @ ds) r"
proof -
  assume p: "NUL \<notin> set p" and r: "res_ok ds r"
  have "\<exists>q. p @ ds = q @ rest \<and> NUL \<notin> set q" if "\<exists>q. ds = q @ rest \<and> NUL \<notin> set q" for rest
    using that p by (metis Un_iff append_assoc set_append)
  with p r show ?thesis by (auto simp: res_ok_def split: option.splits)
qed

lemma res_ok_char: "c \<noteq> NUL \<Longrightarrow> NUL \<notin> set p \<Longrightarrow> res_ok ds r \<Longrightarrow> res_ok (p @ ds) (add_char c r)"
  using res_ok_skip [of p ds r] unfolding res_ok_def add_char_def by (cases r) auto

lemma res_ok_line: "NUL \<notin> set p \<Longrightarrow> res_ok ds r \<Longrightarrow> res_ok (p @ ds) (add_line r)"
  using res_ok_skip [of p ds r] unfolding res_ok_def add_line_def by (cases r) auto

lemma res_ok_found:
  "NUL \<notin> set p \<Longrightarrow> tk \<noteq> T_NEWLINE \<Longrightarrow> nt = None \<or> tk = T_TEXT \<and> nt = Some T_NEWLINE \<Longrightarrow> res_ok (p @ ds) (Some (tk, [], ds, k, nt))"
  by (auto simp: res_ok_def)

lemma unescape_no_NUL: "d \<noteq> NUL \<Longrightarrow> unescape d \<noteq> NUL"
  by (auto simp: unescape_def char_consts)

lemma lex_escape_ok:
  assumes "\<And>ds'. length ds' \<le> length ds \<Longrightarrow> res_ok ds' (lex_word False ds')"
  shows "res_ok (BACKSLASH # d # ds) (lex_word False (BACKSLASH # d # ds))"
proof -
  have ds: "res_ok ds (lex_word False ds)" by (rule assms) simp
  let ?ws = "takeWhile (\<lambda>c. c = SP \<or> c = TAB) ds" and ?r = "dropWhile (\<lambda>c. c = SP \<or> c = TAB) ds"
  have split: "BACKSLASH # d # ds = (BACKSLASH # d # ?ws) @ ?r" by simp
  have ws: "NUL \<notin> set ?ws" by (auto dest: set_takeWhileD simp: char_consts)
  have r: "res_ok ?r (lex_word False ?r)" by (rule assms) (rule length_dropWhile_le)
  consider "d = NUL" | "d = CR" | "d = LF" | "d \<notin> {NUL, CR, LF}" by blast
  then show ?thesis
  proof cases
    case 1
    then show ?thesis using res_ok_found [of "[BACKSLASH]" T_TEXT None "d # ds" 0] by (simp add: char_consts)
  next
    case 2
    then show ?thesis
      using res_ok_skip [OF _ ds, of "[BACKSLASH, d]"] res_ok_line [OF _ ds, of "[BACKSLASH, d]"]
      by (auto simp: char_consts res_ok_def split: list.splits)
  next
    case 3
    then show ?thesis using res_ok_line [OF _ r, of "BACKSLASH # d # ?ws"] ws by (auto simp: char_consts)
  next
    case 4
    then show ?thesis
      using res_ok_char [OF unescape_no_NUL _ ds, of d "[BACKSLASH, d]"] by (auto simp: char_consts)
  qed
qed

lemma lex_word_ok: "res_ok cs (lex_word q cs)"
proof (induction "length cs" arbitrary: q cs rule: less_induct)
  case less
  show ?case
  proof (cases cs)
    case Nil
    then show ?thesis by (simp add: res_ok_def)
  next
    case (Cons c ds)
    have ds: "res_ok ds (lex_word q ds)" for q by (rule less) (simp add: Cons)
    show ?thesis
    proof (cases q)
      case True
      then show ?thesis
        unfolding Cons
        using res_ok_found [of "[]" T_EOF None "c # ds" 0] res_ok_skip [OF _ ds, of "[c]" False] res_ok_char [OF _ _ ds, of c "[c]" True]
        by (auto simp: char_consts)
    next
      case False
      show ?thesis
      proof (cases "c = BACKSLASH")
        case True
        show ?thesis
        proof (cases ds)
          case Nil
          with True False Cons show ?thesis by (simp add: res_ok_def char_consts)
        next
          case (Cons d es)
          have "res_ok (BACKSLASH # d # es) (lex_word False (BACKSLASH # d # es))"
            by (rule lex_escape_ok, rule less) (simp add: \<open>cs = c # ds\<close> Cons)
          with True False Cons \<open>cs = c # ds\<close> show ?thesis by simp
        qed
      next
        case ne: False
        then show ?thesis
          using False res_ok_found [of "[]" T_TEXT None "c # ds" 0] res_ok_found [of "[c]" T_TEXT _ ds 0]
            res_ok_skip [OF _ ds, of "[c]" True] res_ok_char [OF _ _ ds, of c "[c]" False]
          unfolding Cons by (auto simp: char_consts)
      qed
    qed
  qed
qed

lemma lex_word_le: "lex_word q cs = Some (tk, w, rest, k, nt) \<Longrightarrow> length rest \<le> length cs"
  using lex_word_ok [of cs q] by (auto simp: res_ok_def)

definition rest_le :: "nat \<Rightarrow> word_res option \<Rightarrow> bool" where
  "rest_le n r \<longleftrightarrow> (\<forall>tk w rest k nt. r = Some (tk, w, rest, k, nt) \<longrightarrow> length rest \<le> n)"

lemma rest_le_simps:
  "rest_le n None" "rest_le n (add_char c r) = rest_le n r" "rest_le n (add_line r) = rest_le n r"
  "rest_le n (Some (tk, w, rest, k, nt)) \<longleftrightarrow> length rest \<le> n"
  by (auto simp: rest_le_def add_char_def add_line_def)

lemma rest_le_lex: "length cs \<le> n \<Longrightarrow> rest_le n (lex_word q cs)"
  unfolding rest_le_def using lex_word_le order_trans by blast

lemma lex_word_progress:
  assumes "c \<noteq> NUL"
  shows "rest_le (length cs) (lex_word False (c # cs))"
proof -
  have "length (dropWhile P ds) \<le> Suc (length ds)" for P and ds :: string
    using length_dropWhile_le [of P ds] by simp
  then show ?thesis
    unfolding lex_word.simps(3) using assms
    by (simp add: rest_le_simps rest_le_lex split: list.splits del: lex_word.simps)
qed

text \<open>The same for a whole token, which consumes input unless it is the end of the file.\<close>

definition tok_ok :: "string \<Rightarrow> word_res option \<Rightarrow> bool" where
  "tok_ok cs r \<longleftrightarrow>
     (case r of
        None \<Rightarrow> NUL \<notin> set cs
      | Some (tk, w, rest, k, nt) \<Rightarrow>
          (\<exists>p. cs = p @ rest \<and> NUL \<notin> set p) \<and> NUL \<notin> set w \<and> (nt = None \<or> tk = T_TEXT \<and> nt = Some T_NEWLINE) \<and>
          (tk \<noteq> T_EOF \<longrightarrow> length rest < length cs))"

lemma tok_ok_skip: "c \<noteq> NUL \<Longrightarrow> tok_ok cs r \<Longrightarrow> tok_ok (c # cs) r"
proof -
  assume c: "c \<noteq> NUL" and r: "tok_ok cs r"
  have "\<exists>q. c # cs = q @ rest \<and> NUL \<notin> set q" if "\<exists>q. cs = q @ rest \<and> NUL \<notin> set q" for rest
    using that c by (metis append_Cons set_ConsD)
  with c r show ?thesis by (auto simp: tok_ok_def split: option.splits)
qed

lemma tok_ok_newline:
  "NUL \<notin> set p \<Longrightarrow> p \<noteq> [] \<Longrightarrow> cs = p @ rest \<Longrightarrow>
   tok_ok cs (case rest of [] \<Rightarrow> None | a # r \<Rightarrow> Some (T_NEWLINE, [], a # r, k, None))"
  by (cases rest) (auto simp: tok_ok_def)

lemma lex_token_ok: "tok_ok cs (lex_token cs)"
proof (induction cs)
  case (Cons c cs)
  consider "c = NUL" | "c = LF" | "c = SP \<or> c = TAB \<or> c = CR" | "c = HASH"
    | "c \<notin> {NUL, LF, SP, TAB, CR, HASH}" by blast
  then show ?case
  proof cases
    case 1
    then show ?thesis by (simp add: tok_ok_def)
  next
    case 2
    have "c # cs = [c] @ cs" by simp
    with 2 show ?thesis by (auto simp: tok_ok_def char_consts)
  next
    case 3
    then show ?thesis using tok_ok_skip [OF _ Cons.IH, of c] by (auto simp: char_consts)
  next
    case 4
    let ?P = "\<lambda>c. c \<noteq> NUL \<and> c \<noteq> LF"
    have t: "NUL \<notin> set (c # takeWhile ?P cs)" using 4 by (auto dest: set_takeWhileD simp: char_consts)
    have split: "c # cs = (c # takeWhile ?P cs) @ dropWhile ?P cs" by simp
    have "lex_token (c # cs) = (case dropWhile ?P cs of [] \<Rightarrow> None | rest \<Rightarrow> Some (T_NEWLINE, [], rest, 1, None))"
      using 4 by (simp add: char_consts)
    then show ?thesis using tok_ok_newline [OF t _ split, of 1] by (simp only: list.distinct not_False_eq_True)
  next
    case 5
    then have lex: "lex_token (c # cs) = lex_word False (c # cs)" by simp
    show ?thesis
      using lex_word_ok [of "c # cs" False] lex_word_progress [of c cs] 5 unfolding lex
      by (auto simp: tok_ok_def res_ok_def rest_le_def less_Suc_eq_le simp del: lex_word.simps split: option.splits)
  qed
qed (simp add: tok_ok_def)

lemma lex_token_less: "lex_token cs = Some (tk, w, rest, k, nt) \<Longrightarrow> tk \<noteq> T_EOF \<Longrightarrow> length rest < length cs"
  using lex_token_ok [of cs] by (simp add: tok_ok_def)

lemma next_token_lex:
  assumes "nexttoken st = None" "ptr st \<le> length (buf st)"
  shows "case lex_token (drop (ptr st) (buf st)) of
      None \<Rightarrow> next_token st = None
    | Some r \<Rightarrow> \<exists>res. next_token st = Some res \<and> token_ok st r res"
  using start_loop_ok [OF order_refl assms(2), of st "tok_text st" "line st"] assms(1)
  by (auto simp: next_token_def split: option.splits)

definition tok_measure :: "parse_state \<Rightarrow> nat" where
  "tok_measure st = 2 * (length (buf st) - ptr st) + (if nexttoken st = None then 0 else 1)"

lemma next_token_decreases:
  assumes run: "next_token st = Some (tk, st')" and tk: "tk \<noteq> T_EOF"
  shows "tok_measure st' < tok_measure st"
proof (cases "nexttoken st")
  case None
  have le: "ptr st \<le> length (buf st)"
  proof (rule ccontr)
    assume "\<not> ?thesis"
    then have "next_token st = None" using None by (simp add: next_token_def start_loop.simps rd_def)
    with run show False by simp
  qed
  from next_token_lex [OF None le] run obtain w rest k nt where
    lex: "lex_token (drop (ptr st) (buf st)) = Some (tk, w, rest, k, nt)" and ok: "token_ok st (tk, w, rest, k, nt) (tk, st')"
    by (auto simp: token_ok_def split: option.splits)
  have "length rest < length (drop (ptr st) (buf st))"
    using lex_token_ok [of "drop (ptr st) (buf st)"] tk unfolding lex by (simp add: tok_ok_def)
  moreover have "length rest = length (buf st') - ptr st'" "length (buf st') = length (buf st)"
    using ok by (auto simp: token_ok_def)
  ultimately show ?thesis by (simp add: tok_measure_def)
next
  case (Some t)
  with run show ?thesis by (auto simp: next_token_def tok_measure_def)
qed

lemma token_at_cstr: "token_at st t w \<Longrightarrow> NUL \<notin> set w \<Longrightarrow> cstr (drop t (buf st)) = w"
  using append_take_drop_id [of "length w + 1" "drop t (buf st)"]
  by (simp add: token_at_def) (metis append.assoc append_Cons append_Nil cstr_append_NUL)

lemma token_at_last:
  assumes "token_at st t w" "t + length w = ptr st"
  shows "\<exists>r. drop (ptr st) (buf st) = NUL # r"
proof -
  have "drop (length w) (take (length w + 1) (drop t (buf st))) = [NUL]"
    using assms(1) by (simp add: token_at_def)
  then have "take 1 (drop (ptr st) (buf st)) = [NUL]"
    using assms(2) by (simp add: drop_take add.commute)
  then show ?thesis by (cases "drop (ptr st) (buf st)") auto
qed

lemma token_at_kept:
  assumes at: "token_at st t v" and lex: "lex_token (drop (ptr st) (buf st)) = Some r"
    and ok: "token_ok st r (tk, st')"
  shows "token_at st' t v"
proof (cases "t + length v = ptr st")
  case True
  then obtain rs where "drop (ptr st) (buf st) = NUL # rs" using token_at_last at by blast
  with lex ok have "drop (ptr st') (buf st') = drop (ptr st) (buf st)" "length (buf st') = length (buf st)"
    "take (ptr st) (buf st') = take (ptr st) (buf st)" "ptr st \<le> ptr st'" "ptr st' \<le> length (buf st)"
    by (auto simp: token_ok_def)
  moreover from this have "ptr st' = ptr st"
    by (metis \<open>drop (ptr st) (buf st) = NUL # rs\<close> diff_diff_cancel length_drop nat_le_linear
        drop_eq_Nil list.distinct(1))
  ultimately have "buf st' = buf st" by (metis append_take_drop_id)
  with at \<open>ptr st' = ptr st\<close> show ?thesis by (simp add: token_at_def)
next
  case False
  with at have lt: "t + length v < ptr st" by (simp add: token_at_def)
  have keep: "take (ptr st) (buf st') = take (ptr st) (buf st)" "ptr st \<le> ptr st'"
    using ok by (auto simp: token_ok_def split: prod.splits)
  have key: "take (length v + 1) (drop t b) = drop t (take (t + length v + 1) (take (ptr st) b))" for b :: string
    using lt by (simp add: drop_take min_def)
  have "take (length v + 1) (drop t (buf st')) = take (length v + 1) (drop t (buf st))"
    by (simp only: key keep(1))
  with at keep(2) show ?thesis by (simp add: token_at_def)
qed

subsection \<open>The lines of a file\<close>

text \<open>The argument vectors \<^verbatim>\<open>parse_config\<close> collects, one for each non-empty line; words beyond the limit of
  \<^verbatim>\<open>INIT_PARSER_MAXARGS\<close> are dropped, and so is a last line with no newline.\<close>

definition INIT_PARSER_MAXARGS :: nat where "INIT_PARSER_MAXARGS = 64"

definition add_arg :: "string list \<Rightarrow> string \<Rightarrow> string list" where
  "add_arg args w = (if length args < INIT_PARSER_MAXARGS then args @ [w] else args)"

function config_lines :: "string \<Rightarrow> string list \<Rightarrow> string list list" where
  "config_lines cs args =
     (case lex_token cs of
        None \<Rightarrow> []
      | Some (T_EOF, w, rest, k, nt) \<Rightarrow> []
      | Some (T_NEWLINE, w, rest, k, nt) \<Rightarrow> (if args = [] then [] else [args]) @ config_lines rest []
      | Some (T_TEXT, w, rest, k, nt) \<Rightarrow>
          (if nt = None then config_lines rest (add_arg args w)
           else add_arg args w # config_lines rest []))"
  by pat_completeness auto
termination
  by (relation "measure (\<lambda>(cs, args). length cs)") (auto dest: lex_token_less)

declare config_lines.simps [simp del]

text \<open>A printer: every word in quotes.\<close>

definition quote_word :: "string \<Rightarrow> string" where
  "quote_word w = DQUOTE # w @ [DQUOTE, SP]"

definition print_lines :: "string list list \<Rightarrow> string" where
  "print_lines ls = concat (map (\<lambda>l. concat (map quote_word l) @ [LF]) ls)"

lemma lex_quoted:
  "NUL \<notin> set w \<Longrightarrow> DQUOTE \<notin> set w \<Longrightarrow> lex_word True (w @ DQUOTE # SP # r) = Some (T_TEXT, w, r, 0, None)"
  by (induction w) (auto simp: char_consts add_char_def)

lemma lex_quote_word:
  "NUL \<notin> set w \<Longrightarrow> DQUOTE \<notin> set w \<Longrightarrow> lex_token (quote_word w @ r) = Some (T_TEXT, w, r, 0, None)"
proof -
  assume w: "NUL \<notin> set w" "DQUOTE \<notin> set w"
  have "lex_token (DQUOTE # cs) = lex_word True cs" for cs by (simp add: char_consts)
  with lex_quoted [OF w, of r] show ?thesis by (simp add: quote_word_def)
qed

definition printable :: "string list \<Rightarrow> bool" where
  "printable l \<longleftrightarrow> l \<noteq> [] \<and> length l \<le> INIT_PARSER_MAXARGS \<and> (\<forall>w \<in> set l. NUL \<notin> set w \<and> DQUOTE \<notin> set w)"

lemma config_lines_words:
  assumes "\<forall>w \<in> set l. NUL \<notin> set w \<and> DQUOTE \<notin> set w" "length args + length l \<le> INIT_PARSER_MAXARGS"
  shows "config_lines (concat (map quote_word l) @ r) args = config_lines r (args @ l)"
  using assms
proof (induction l arbitrary: args)
  case (Cons w l)
  then have "config_lines (quote_word w @ (concat (map quote_word l) @ r)) args =
      config_lines (concat (map quote_word l) @ r) (args @ [w])"
    by (subst config_lines.simps) (simp add: lex_quote_word add_arg_def)
  with Cons show ?case by simp
qed simp

lemma config_lines_newline: "args \<noteq> [] \<Longrightarrow> config_lines (LF # r) args = args # config_lines r []"
  by (subst config_lines.simps) (simp add: char_consts)

lemma config_lines_print:
  "\<forall>l \<in> set ls. printable l \<Longrightarrow> config_lines (print_lines ls @ NUL # r) [] = ls"
proof (induction ls)
  case Nil
  then show ?case by (subst config_lines.simps) (simp add: print_lines_def)
next
  case (Cons l ls)
  have "print_lines (l # ls) @ NUL # r = concat (map quote_word l) @ LF # (print_lines ls @ NUL # r)"
    by (simp add: print_lines_def)
  with Cons show ?case by (simp add: config_lines_words config_lines_newline printable_def)
qed

subsection \<open>Properties\<close>

text \<open>C9: The in-place tokenizer on a NUL-terminated buffer stays inside the buffer and returns, for every
  input, the token the lexer on strings finds: the text it points to is the unquoted word, the rest of
  the input and everything in front of \<^verbatim>\<open>ptr\<close> are unchanged, and the texts of all tokens handed out
  earlier stay intact.\<close>

theorem next_token_implements_lexer:
  assumes "nexttoken st = None" "ptr st \<le> length (buf st)" "NUL \<in> set (drop (ptr st) (buf st))"
  shows "\<exists>tk w rest k nt st'. lex_token (drop (ptr st) (buf st)) = Some (tk, w, rest, k, nt) \<and>
    next_token st = Some (tk, st') \<and> drop (ptr st') (buf st') = rest \<and> NUL \<in> set rest \<and>
    ptr st \<le> ptr st' \<and> ptr st' \<le> length (buf st') \<and> length (buf st') = length (buf st) \<and>
    take (ptr st) (buf st') = take (ptr st) (buf st) \<and> line st' = line st + k \<and> nexttoken st' = nt \<and>
    (tk = T_TEXT \<longrightarrow> cstr (drop (tok_text st') (buf st')) = w \<and> token_at st' (tok_text st') w) \<and>
    (\<forall>t v. token_at st t v \<longrightarrow> token_at st' t v)"
proof -
  obtain tk w rest k nt where lex: "lex_token (drop (ptr st) (buf st)) = Some (tk, w, rest, k, nt)"
    using lex_token_ok [of "drop (ptr st) (buf st)"] assms(3) by (auto simp: tok_ok_def split: option.splits)
  then have f: "NUL \<notin> set w" "NUL \<in> set rest"
    using lex_token_ok [of "drop (ptr st) (buf st)"] assms(3) by (auto simp: tok_ok_def)
  from next_token_lex [OF assms(1,2)] lex obtain st' where
    st': "next_token st = Some (tk, st')" "token_ok st (tk, w, rest, k, nt) (tk, st')"
    by (auto simp: token_ok_def)
  have keep: "token_at st t v \<Longrightarrow> token_at st' t v" for t v
    by (rule token_at_kept [OF _ lex st'(2)])
  show ?thesis
    using lex f st' keep token_at_cstr [of st' "tok_text st'" w]
    by (intro exI [of _ tk] exI [of _ w] exI [of _ rest] exI [of _ k] exI [of _ nt] exI [of _ st'])
      (simp add: token_ok_def)
qed

theorem next_token_implements_lexer_witness:
  "\<exists>st'. next_token \<lparr>buf = ''  a'' @ [BACKSLASH] @ ''nb x'' @ [LF, NUL], ptr = 0, tok_text = 0, line = 1, nexttoken = None\<rparr> =
     Some (T_TEXT, st') \<and> cstr (drop (tok_text st') (buf st')) = [CHR ''a'', LF, CHR ''b'']"
  using next_token_implements_lexer
    [of "\<lparr>buf = ''  a'' @ [BACKSLASH] @ ''nb x'' @ [LF, NUL], ptr = 0, tok_text = 0, line = 1, nexttoken = None\<rparr>"]
  by (auto simp: char_consts add_char_def unescape_def)



text \<open>The comment in the code calls a backslash before carriage return and line feed a line continuation.
  Only the carriage return is skipped: the line feed ends the line.\<close>

lemma backslash_cr_lf_ends_line:
  "config_lines (''a'' @ [BACKSLASH, CR, LF] @ ''b'' @ [LF, NUL]) [] = [[''a''], [''b'']]"
  by (simp add: config_lines.simps char_consts add_char_def add_line_def add_arg_def INIT_PARSER_MAXARGS_def)

end
