(* ===== verification/Init_Keywords.thy ===== *)
theory Init_Keywords
  imports Prelude
begin

text \<open>
  The keywords of the configuration language of \<^verbatim>\<open>init\<close>: the table \<^verbatim>\<open>src/core/init/keywords.h\<close> and the
  hand-written \<^verbatim>\<open>switch\<close> of \<^verbatim>\<open>lookup_keyword\<close> in \<^verbatim>\<open>src/core/init/init_parser.c\<close>.
\<close>

datatype (plugins only: code) keyword = K_UNKNOWN
  | K_capability
  | K_chdir
  | K_chroot
  | K_class
  | K_class_start
  | K_class_stop
  | K_console
  | K_critical
  | K_disabled
  | K_domainname
  | K_exec
  | K_export
  | K_group
  | K_hostname
  | K_ifup
  | K_insmod
  | K_import
  | K_keycodes
  | K_mkdir
  | K_mount
  | K_on
  | K_oneshot
  | K_onrestart
  | K_restart
  | K_service
  | K_setenv
  | K_setkey
  | K_setprop
  | K_setrlimit
  | K_socket
  | K_start
  | K_stop
  | K_trigger
  | K_symlink
  | K_sysclktz
  | K_user
  | K_wait
  | K_write
  | K_copy
  | K_chown
  | K_chmod
  | K_loglevel
  | K_ioprio

text \<open>The flags \<^verbatim>\<open>SECTION\<close>, \<^verbatim>\<open>COMMAND\<close> and \<^verbatim>\<open>OPTION\<close>; every keyword has one of them but \<^verbatim>\<open>K_UNKNOWN\<close>.\<close>

datatype kw_flag = SECTION | COMMAND | OPTION

fun keyword_info :: "keyword \<Rightarrow> string \<times> nat \<times> kw_flag option" where
  "keyword_info K_UNKNOWN = (''unknown'', 0, None)"
| "keyword_info K_capability = (''capability'', 0 + 1, Some OPTION)"
| "keyword_info K_chdir = (''chdir'', 1 + 1, Some COMMAND)"
| "keyword_info K_chroot = (''chroot'', 1 + 1, Some COMMAND)"
| "keyword_info K_class = (''class'', 0 + 1, Some OPTION)"
| "keyword_info K_class_start = (''class_start'', 1 + 1, Some COMMAND)"
| "keyword_info K_class_stop = (''class_stop'', 1 + 1, Some COMMAND)"
| "keyword_info K_console = (''console'', 0 + 1, Some OPTION)"
| "keyword_info K_critical = (''critical'', 0 + 1, Some OPTION)"
| "keyword_info K_disabled = (''disabled'', 0 + 1, Some OPTION)"
| "keyword_info K_domainname = (''domainname'', 1 + 1, Some COMMAND)"
| "keyword_info K_exec = (''exec'', 1 + 1, Some COMMAND)"
| "keyword_info K_export = (''export'', 2 + 1, Some COMMAND)"
| "keyword_info K_group = (''group'', 0 + 1, Some OPTION)"
| "keyword_info K_hostname = (''hostname'', 1 + 1, Some COMMAND)"
| "keyword_info K_ifup = (''ifup'', 1 + 1, Some COMMAND)"
| "keyword_info K_insmod = (''insmod'', 1 + 1, Some COMMAND)"
| "keyword_info K_import = (''import'', 1 + 1, Some COMMAND)"
| "keyword_info K_keycodes = (''keycodes'', 0 + 1, Some OPTION)"
| "keyword_info K_mkdir = (''mkdir'', 1 + 1, Some COMMAND)"
| "keyword_info K_mount = (''mount'', 3 + 1, Some COMMAND)"
| "keyword_info K_on = (''on'', 0 + 1, Some SECTION)"
| "keyword_info K_oneshot = (''oneshot'', 0 + 1, Some OPTION)"
| "keyword_info K_onrestart = (''onrestart'', 0 + 1, Some OPTION)"
| "keyword_info K_restart = (''restart'', 1 + 1, Some COMMAND)"
| "keyword_info K_service = (''service'', 0 + 1, Some SECTION)"
| "keyword_info K_setenv = (''setenv'', 2 + 1, Some OPTION)"
| "keyword_info K_setkey = (''setkey'', 0 + 1, Some COMMAND)"
| "keyword_info K_setprop = (''setprop'', 2 + 1, Some COMMAND)"
| "keyword_info K_setrlimit = (''setrlimit'', 3 + 1, Some COMMAND)"
| "keyword_info K_socket = (''socket'', 0 + 1, Some OPTION)"
| "keyword_info K_start = (''start'', 1 + 1, Some COMMAND)"
| "keyword_info K_stop = (''stop'', 1 + 1, Some COMMAND)"
| "keyword_info K_trigger = (''trigger'', 1 + 1, Some COMMAND)"
| "keyword_info K_symlink = (''symlink'', 1 + 1, Some COMMAND)"
| "keyword_info K_sysclktz = (''sysclktz'', 1 + 1, Some COMMAND)"
| "keyword_info K_user = (''user'', 0 + 1, Some OPTION)"
| "keyword_info K_wait = (''wait'', 1 + 1, Some COMMAND)"
| "keyword_info K_write = (''write'', 2 + 1, Some COMMAND)"
| "keyword_info K_copy = (''copy'', 2 + 1, Some COMMAND)"
| "keyword_info K_chown = (''chown'', 2 + 1, Some COMMAND)"
| "keyword_info K_chmod = (''chmod'', 2 + 1, Some COMMAND)"
| "keyword_info K_loglevel = (''loglevel'', 1 + 1, Some COMMAND)"
| "keyword_info K_ioprio = (''ioprio'', 0 + 1, Some OPTION)"

definition kw_name :: "keyword \<Rightarrow> string" where
  "kw_name kw = fst (keyword_info kw)"

definition kw_nargs :: "keyword \<Rightarrow> nat" where
  "kw_nargs kw = fst (snd (keyword_info kw))"

definition kw_is :: "keyword \<Rightarrow> kw_flag \<Rightarrow> bool" where
  "kw_is kw flag \<longleftrightarrow> snd (snd (keyword_info kw)) = Some flag"

text \<open>The \<^verbatim>\<open>switch\<close> on the first character, with the comparisons in the order of the code.\<close>

definition lookup_keyword :: "string \<Rightarrow> keyword" where
  "lookup_keyword str =
     (case str of
        [] \<Rightarrow> K_UNKNOWN
      | c # s \<Rightarrow>
          if c = CHR ''c'' then
            (if s = ''opy'' then K_copy
             else if s = ''apability'' then K_capability
             else if s = ''hdir'' then K_chdir
             else if s = ''hroot'' then K_chroot
             else if s = ''lass'' then K_class
             else if s = ''lass_start'' then K_class_start
             else if s = ''lass_stop'' then K_class_stop
             else if s = ''onsole'' then K_console
             else if s = ''hown'' then K_chown
             else if s = ''hmod'' then K_chmod
             else if s = ''ritical'' then K_critical
             else K_UNKNOWN)
          else if c = CHR ''d'' then
            (if s = ''isabled'' then K_disabled
             else if s = ''omainname'' then K_domainname
             else K_UNKNOWN)
          else if c = CHR ''e'' then
            (if s = ''xec'' then K_exec
             else if s = ''xport'' then K_export
             else K_UNKNOWN)
          else if c = CHR ''g'' then
            (if s = ''roup'' then K_group
             else K_UNKNOWN)
          else if c = CHR ''h'' then
            (if s = ''ostname'' then K_hostname
             else K_UNKNOWN)
          else if c = CHR ''i'' then
            (if s = ''oprio'' then K_ioprio
             else if s = ''fup'' then K_ifup
             else if s = ''nsmod'' then K_insmod
             else if s = ''mport'' then K_import
             else K_UNKNOWN)
          else if c = CHR ''k'' then
            (if s = ''eycodes'' then K_keycodes
             else K_UNKNOWN)
          else if c = CHR ''l'' then
            (if s = ''oglevel'' then K_loglevel
             else K_UNKNOWN)
          else if c = CHR ''m'' then
            (if s = ''kdir'' then K_mkdir
             else if s = ''ount'' then K_mount
             else K_UNKNOWN)
          else if c = CHR ''o'' then
            (if s = ''n'' then K_on
             else if s = ''neshot'' then K_oneshot
             else if s = ''nrestart'' then K_onrestart
             else K_UNKNOWN)
          else if c = CHR ''r'' then
            (if s = ''estart'' then K_restart
             else K_UNKNOWN)
          else if c = CHR ''s'' then
            (if s = ''ervice'' then K_service
             else if s = ''etenv'' then K_setenv
             else if s = ''etkey'' then K_setkey
             else if s = ''etprop'' then K_setprop
             else if s = ''etrlimit'' then K_setrlimit
             else if s = ''ocket'' then K_socket
             else if s = ''tart'' then K_start
             else if s = ''top'' then K_stop
             else if s = ''ymlink'' then K_symlink
             else if s = ''ysclktz'' then K_sysclktz
             else K_UNKNOWN)
          else if c = CHR ''t'' then
            (if s = ''rigger'' then K_trigger
             else K_UNKNOWN)
          else if c = CHR ''u'' then
            (if s = ''ser'' then K_user
             else K_UNKNOWN)
          else if c = CHR ''w'' then
            (if s = ''rite'' then K_write
             else if s = ''ait'' then K_wait
             else K_UNKNOWN)
          else K_UNKNOWN)"

section \<open>The keyword switch and the table\<close>

lemma lookup_kw_name: "lookup_keyword (kw_name kw) = kw"
  by (cases kw) (simp_all add: lookup_keyword_def kw_name_def)

lemma kw_name_lookup: "lookup_keyword s = kw \<Longrightarrow> kw \<noteq> K_UNKNOWN \<Longrightarrow> s = kw_name kw"
  by (auto simp: lookup_keyword_def kw_name_def split: list.splits if_splits)

lemma section_keyword: "kw_is kw SECTION \<longleftrightarrow> kw = K_on \<or> kw = K_service"
  by (cases kw) (simp_all add: kw_is_def)

end
