(* ===== verification/Init_Config.thy ===== *)
theory Init_Config
  imports Init_Tokenizer Init_Keywords Android_Ids
begin

text \<open>
  The configuration of \<^verbatim>\<open>init\<close> and its parser: the structures of \<^verbatim>\<open>src/core/init/init.h\<close>, and \<^verbatim>\<open>src/core/init/init_parser.c\<close> up to the functions that work on the queue.
  Services and actions are only ever added at the end of their lists, so a pointer to one of them is
  its position.  The embedded list nodes of commands, sockets and environment variables link fresh
  objects only, so those lists are Isabelle lists.  \<open>None\<close> as the result of a parsing function stands for
  undefined behaviour: a null pointer from \<^verbatim>\<open>malloc\<close> that is used unchecked, or the use of an argument
  cell that was never written.  The argument \<open>mem_ok n\<close> says whether the allocation number \<open>n\<close> succeeds.
\<close>

section \<open>Structures\<close>

text \<open>The functions a command can call: \<^verbatim>\<open>do_\<close>\<open>k\<close> for a command keyword \<open>k\<close>, and the actions that \<^verbatim>\<open>main\<close>
  queues itself.\<close>

datatype boot_action =
    wait_for_coldboot_done_action | property_init_action | keychord_init_action | console_init_action
  | set_init_properties_action | property_service_init_action | signal_init_action | check_startup_action
  | queue_property_triggers_action

datatype func = Do keyword | Boot boot_action

record command =
  cmd_func :: func
  cmd_args :: "string list"

record action =
  act_name :: string
  commands :: "command list"

record socketinfo =
  si_name :: string
  si_type :: string
  si_uid :: u32
  si_gid :: u32
  si_perm :: int

record svcenvinfo =
  ei_name :: string
  ei_value :: "string option"   \<comment> \<open>\<open>None\<close>: a pointer that was never written\<close>

datatype IoSchedClass = IoSchedClass_NONE | IoSchedClass_RT | IoSchedClass_BE | IoSchedClass_IDLE

abbreviation (input) SVC_DISABLED :: u32 where "SVC_DISABLED \<equiv> 1"
abbreviation (input) SVC_ONESHOT :: u32 where "SVC_ONESHOT \<equiv> 2"
abbreviation (input) SVC_RUNNING :: u32 where "SVC_RUNNING \<equiv> 4"
abbreviation (input) SVC_RESTARTING :: u32 where "SVC_RESTARTING \<equiv> 8"
abbreviation (input) SVC_CONSOLE :: u32 where "SVC_CONSOLE \<equiv> 16"
abbreviation (input) SVC_CRITICAL :: u32 where "SVC_CRITICAL \<equiv> 32"

definition NR_SVC_SUPP_GIDS :: nat where "NR_SVC_SUPP_GIDS = 12"

record service =
  svc_name :: string
  classname :: string
  flags :: u32
  svc_pid :: int
  time_started :: int
  time_crashed :: int
  nr_crashed :: int
  svc_uid :: u32
  svc_gid :: u32
  supp_gids :: "u32 list"
  nr_supp_gids :: nat
  sockets :: "socketinfo list"
  envvars :: "svcenvinfo list"
  onrestart :: "command list"
  keycodes :: "int list option"   \<comment> \<open>\<open>None\<close>: the null pointer\<close>
  nkeycodes :: nat
  keychord_id :: int
  ioprio_class :: IoSchedClass
  ioprio_pri :: int
  svc_args :: "string list"

text \<open>What \<^verbatim>\<open>calloc\<close> gives, with the fields \<^verbatim>\<open>parse_service\<close> sets.\<close>

definition new_service :: "string \<Rightarrow> string list \<Rightarrow> service" where
  "new_service name args =
     \<lparr>svc_name = name, classname = ''default'', flags = 0, svc_pid = 0, time_started = 0, time_crashed = 0,
      nr_crashed = 0, svc_uid = 0, svc_gid = 0, supp_gids = replicate NR_SVC_SUPP_GIDS 0, nr_supp_gids = 0,
      sockets = [], envvars = [], onrestart = [], keycodes = None, nkeycodes = 0, keychord_id = 0,
      ioprio_class = IoSchedClass_NONE, ioprio_pri = 0, svc_args = args\<rparr>"

record config =
  services :: "service list"
  actions :: "action list"
  allocs :: nat               \<comment> \<open>number of allocations so far\<close>
  perrors :: "string list"    \<comment> \<open>messages of \<^verbatim>\<open>parse_error\<close>, newest first\<close>

section \<open>Helpers\<close>

definition parse_error :: "string \<Rightarrow> 'a config_scheme \<Rightarrow> 'a config_scheme" where
  "parse_error msg c = c\<lparr>perrors := msg # perrors c\<rparr>"

definition alloc_step :: "'a config_scheme \<Rightarrow> 'a config_scheme" where
  "alloc_step c = c\<lparr>allocs := allocs c + 1\<rparr>"

fun android_name_to_id_loop :: "(string \<times> u32) list \<Rightarrow> string \<Rightarrow> u32" where
  "android_name_to_id_loop [] name = -1"
| "android_name_to_id_loop (info # infos) name =
     (if fst info = name then snd info else android_name_to_id_loop infos name)"

definition android_name_to_id :: "string \<Rightarrow> u32" where
  "android_name_to_id name = android_name_to_id_loop android_ids name"

definition decode_uid :: "string \<Rightarrow> u32" where
  "decode_uid s =
     (if s = [] then -1
      else if c_isalpha (s ! 0) then android_name_to_id s
      else let (v, erange) = strtoul s 0 in if erange then -1 else v)"

fun valid_chars :: "string \<Rightarrow> bool" where
  "valid_chars [] = True"
| "valid_chars (c # cs) =
     (if \<not> c_isalnum c \<and> c \<noteq> CHR ''_'' \<and> c \<noteq> CHR ''-'' then False else valid_chars cs)"

definition valid_name :: "string \<Rightarrow> bool" where
  "valid_name name = (if length name > 16 then False else valid_chars name)"

text \<open>The position of the first service that satisfies a test: \<^verbatim>\<open>list_for_each\<close> over \<^verbatim>\<open>service_list\<close>.\<close>

fun find_index :: "('a \<Rightarrow> bool) \<Rightarrow> 'a list \<Rightarrow> nat option" where
  "find_index P [] = None"
| "find_index P (x # xs) = (if P x then Some 0 else map_option Suc (find_index P xs))"

definition service_find_by_name :: "string \<Rightarrow> 'a config_scheme \<Rightarrow> nat option" where
  "service_find_by_name name c = find_index (\<lambda>svc. svc_name svc = name) (services c)"

definition service_find_by_pid :: "int \<Rightarrow> 'a config_scheme \<Rightarrow> nat option" where
  "service_find_by_pid pid c = find_index (\<lambda>svc. svc_pid svc = pid) (services c)"

definition service_find_by_keychord :: "int \<Rightarrow> 'a config_scheme \<Rightarrow> nat option" where
  "service_find_by_keychord kid c = find_index (\<lambda>svc. keychord_id svc = kid) (services c)"

definition update_service :: "nat \<Rightarrow> (service \<Rightarrow> service) \<Rightarrow> 'a config_scheme \<Rightarrow> 'a config_scheme" where
  "update_service i f c = c\<lparr>services := (services c)[i := f (services c ! i)]\<rparr>"

section \<open>Sections and lines\<close>

text \<open>The arguments of a line: the \<open>nargs\<close> words of the line, and what the cells of \<^verbatim>\<open>args\<close> behind them still
  hold from earlier lines (\<open>None\<close> if nothing was written there).\<close>

type_synonym stale = "nat \<Rightarrow> string option"

definition arg_cell :: "string list \<Rightarrow> stale \<Rightarrow> nat \<Rightarrow> string option" where
  "arg_cell args rest i = (if i < length args then Some (args ! i) else rest i)"

datatype line_parser = parse_line_no_op | parse_line_service_of nat | parse_line_action_of nat

definition parse_service ::
  "(nat \<Rightarrow> bool) \<Rightarrow> string list \<Rightarrow> 'a config_scheme \<Rightarrow> nat option \<times> 'a config_scheme" where
  "parse_service mem_ok args c =
     (if length args < 3 then (None, parse_error ''services must have a name and a program'' c)
      else if \<not> valid_name (args ! 1) then (None, parse_error ''invalid service name'' c)
      else if service_find_by_name (args ! 1) c \<noteq> None then
        (None, parse_error ''ignored duplicate definition of service'' c)
      else if \<not> mem_ok (allocs c) then (None, parse_error ''out of memory'' (alloc_step c))
      else (Some (length (services c)),
            (alloc_step c)\<lparr>services := services c @ [new_service (args ! 1) (drop 2 args)]\<rparr>))"

definition parse_action ::
  "(nat \<Rightarrow> bool) \<Rightarrow> string list \<Rightarrow> 'a config_scheme \<Rightarrow> (nat option \<times> 'a config_scheme) option" where
  "parse_action mem_ok args c =
     (if length args < 2 then Some (None, parse_error ''actions must have a trigger'' c)
      else if length args > 2 then Some (None, parse_error ''actions may not have extra parameters'' c)
      else if \<not> mem_ok (allocs c) then None
      else Some (Some (length (actions c)),
                 (alloc_step c)\<lparr>actions := actions c @ [\<lparr>act_name = args ! 1, commands = []\<rparr>]\<rparr>))"


text \<open>The options of a service that take arguments, one definition for each \<^verbatim>\<open>case\<close> of \<^verbatim>\<open>parse_line_service\<close>.\<close>

definition opt_class :: "string list \<Rightarrow> nat \<Rightarrow> 'a config_scheme \<Rightarrow> 'a config_scheme" where
  "opt_class args i c =
     (if length args \<noteq> 2 then parse_error ''class option requires a classname'' c
      else update_service i (\<lambda>s. s\<lparr>classname := args ! 1\<rparr>) c)"

definition opt_ioprio :: "string list \<Rightarrow> nat \<Rightarrow> 'a config_scheme \<Rightarrow> 'a config_scheme" where
  "opt_ioprio args i c =
     (if length args \<noteq> 3 then parse_error ''ioprio optin usage'' c
      else
        let pri = sint (fst (strtoul (args ! 2) 8));
            c = update_service i (\<lambda>s. s\<lparr>ioprio_pri := pri\<rparr>) c in
        if pri < 0 \<or> pri > 7 then parse_error ''priority value must be range 0 - 7'' c
        else if args ! 1 = ''rt'' then update_service i (\<lambda>s. s\<lparr>ioprio_class := IoSchedClass_RT\<rparr>) c
        else if args ! 1 = ''be'' then update_service i (\<lambda>s. s\<lparr>ioprio_class := IoSchedClass_BE\<rparr>) c
        else if args ! 1 = ''idle'' then update_service i (\<lambda>s. s\<lparr>ioprio_class := IoSchedClass_IDLE\<rparr>) c
        else parse_error ''ioprio option usage'' c)"

fun store_gids :: "u32 list \<Rightarrow> nat \<Rightarrow> string list \<Rightarrow> u32 list" where
  "store_gids gids n [] = gids"
| "store_gids gids n (a # as) = store_gids (gids[n := decode_uid a]) (n + 1) as"

definition opt_group :: "string list \<Rightarrow> nat \<Rightarrow> 'a config_scheme \<Rightarrow> 'a config_scheme" where
  "opt_group args i c =
     (if length args < 2 then parse_error ''group option requires a group id'' c
      else if length args > NR_SVC_SUPP_GIDS + 2 then parse_error ''group option accepts at most 12 supp. groups'' c
      else update_service i
             (\<lambda>s. s\<lparr>svc_gid := decode_uid (args ! 1), supp_gids := store_gids (supp_gids s) 0 (drop 2 args),
                    nr_supp_gids := length args - 2\<rparr>) c)"

definition opt_keycodes :: "(nat \<Rightarrow> bool) \<Rightarrow> string list \<Rightarrow> nat \<Rightarrow> 'a config_scheme \<Rightarrow> 'a config_scheme" where
  "opt_keycodes mem_ok args i c =
     (if length args < 2 then parse_error ''keycodes option requires atleast one keycode'' c
      else if \<not> mem_ok (allocs c) then
        parse_error ''could not allocate keycodes'' (update_service i (\<lambda>s. s\<lparr>keycodes := None\<rparr>) (alloc_step c))
      else update_service i
             (\<lambda>s. s\<lparr>keycodes := Some (map atoi (drop 1 args)), nkeycodes := length args - 1\<rparr>) (alloc_step c))"

definition opt_onrestart ::
  "(nat \<Rightarrow> bool) \<Rightarrow> string list \<Rightarrow> stale \<Rightarrow> nat \<Rightarrow> 'a config_scheme \<Rightarrow> 'a config_scheme option" where
  "opt_onrestart mem_ok args rest i c =
     (let nargs = length args - 1 in
      case arg_cell args rest 1 of
        None \<Rightarrow> None
      | Some a \<Rightarrow>
          let kw = lookup_keyword a in
          if \<not> kw_is kw COMMAND then Some (parse_error ''invalid command'' c)
          else if nargs < kw_nargs kw then Some (parse_error ''requires arguments'' c)
          else if \<not> mem_ok (allocs c) then None
          else Some (update_service i
                 (\<lambda>s. s\<lparr>onrestart := onrestart s @ [\<lparr>cmd_func = Do kw, cmd_args = drop 1 args\<rparr>]\<rparr>) (alloc_step c)))"

definition opt_setenv ::
  "(nat \<Rightarrow> bool) \<Rightarrow> string list \<Rightarrow> stale \<Rightarrow> nat \<Rightarrow> 'a config_scheme \<Rightarrow> 'a config_scheme" where
  "opt_setenv mem_ok args rest i c =
     (if length args < 2 then parse_error ''setenv option requires name and value arguments'' c
      else if \<not> mem_ok (allocs c) then parse_error ''out of memory'' (alloc_step c)
      else update_service i
             (\<lambda>s. s\<lparr>envvars := \<lparr>ei_name = args ! 1, ei_value = arg_cell args rest 2\<rparr> # envvars s\<rparr>) (alloc_step c))"

definition opt_socket :: "(nat \<Rightarrow> bool) \<Rightarrow> string list \<Rightarrow> nat \<Rightarrow> 'a config_scheme \<Rightarrow> 'a config_scheme" where
  "opt_socket mem_ok args i c =
     (if length args < 4 then parse_error ''socket option requires name, type, perm arguments'' c
      else if args ! 2 \<noteq> ''dgram'' \<and> args ! 2 \<noteq> ''stream'' \<and> args ! 2 \<noteq> ''seqpacket'' then
        parse_error ''socket type must be dgram, stream or seqpacket'' c
      else if \<not> mem_ok (allocs c) then parse_error ''out of memory'' (alloc_step c)
      else
        let si = \<lparr>si_name = args ! 1, si_type = args ! 2,
                  si_uid = (if length args > 4 then decode_uid (args ! 4) else 0),
                  si_gid = (if length args > 5 then decode_uid (args ! 5) else 0),
                  si_perm = sint (fst (strtoul (args ! 3) 8))\<rparr> in
        update_service i (\<lambda>s. s\<lparr>sockets := si # sockets s\<rparr>) (alloc_step c))"

definition opt_user :: "string list \<Rightarrow> nat \<Rightarrow> 'a config_scheme \<Rightarrow> 'a config_scheme" where
  "opt_user args i c =
     (if length args \<noteq> 2 then parse_error ''user option requires a user id'' c
      else update_service i (\<lambda>s. s\<lparr>svc_uid := decode_uid (args ! 1)\<rparr>) c)"

definition set_flag :: "u32 \<Rightarrow> nat \<Rightarrow> 'a config_scheme \<Rightarrow> 'a config_scheme" where
  "set_flag f i c = update_service i (\<lambda>s. s\<lparr>flags := flags s OR f\<rparr>) c"

definition parse_line_service ::
  "(nat \<Rightarrow> bool) \<Rightarrow> string list \<Rightarrow> stale \<Rightarrow> nat \<Rightarrow> 'a config_scheme \<Rightarrow> 'a config_scheme option" where
  "parse_line_service mem_ok args rest i c =
     (if args = [] then Some c
      else
        let c = update_service i (\<lambda>s. s\<lparr>ioprio_class := IoSchedClass_NONE\<rparr>) c in
        case lookup_keyword (args ! 0) of
          K_capability \<Rightarrow> Some c
        | K_class \<Rightarrow> Some (opt_class args i c)
        | K_console \<Rightarrow> Some (set_flag SVC_CONSOLE i c)
        | K_disabled \<Rightarrow> Some (set_flag SVC_DISABLED i c)
        | K_ioprio \<Rightarrow> Some (opt_ioprio args i c)
        | K_group \<Rightarrow> Some (opt_group args i c)
        | K_keycodes \<Rightarrow> Some (opt_keycodes mem_ok args i c)
        | K_oneshot \<Rightarrow> Some (set_flag SVC_ONESHOT i c)
        | K_onrestart \<Rightarrow> opt_onrestart mem_ok args rest i c
        | K_critical \<Rightarrow> Some (set_flag SVC_CRITICAL i c)
        | K_setenv \<Rightarrow> Some (opt_setenv mem_ok args rest i c)
        | K_socket \<Rightarrow> Some (opt_socket mem_ok args i c)
        | K_user \<Rightarrow> Some (opt_user args i c)
        | _ \<Rightarrow> Some (parse_error ''invalid option'' c))"

definition update_action :: "nat \<Rightarrow> (action \<Rightarrow> action) \<Rightarrow> 'a config_scheme \<Rightarrow> 'a config_scheme" where
  "update_action i f c = c\<lparr>actions := (actions c)[i := f (actions c ! i)]\<rparr>"

definition parse_line_action ::
  "(nat \<Rightarrow> bool) \<Rightarrow> string list \<Rightarrow> nat \<Rightarrow> 'a config_scheme \<Rightarrow> 'a config_scheme option" where
  "parse_line_action mem_ok args i c =
     (if args = [] then Some c
      else
        let kw = lookup_keyword (args ! 0) in
        if \<not> kw_is kw COMMAND then Some (parse_error ''invalid command'' c)
        else if length args < kw_nargs kw then Some (parse_error ''requires arguments'' c)
        else if \<not> mem_ok (allocs c) then None
        else Some (update_action i
               (\<lambda>a. a\<lparr>commands := commands a @ [\<lparr>cmd_func = Do kw, cmd_args = args\<rparr>]\<rparr>) (alloc_step c)))"

definition parse_line ::
  "(nat \<Rightarrow> bool) \<Rightarrow> line_parser \<Rightarrow> string list \<Rightarrow> stale \<Rightarrow> 'a config_scheme \<Rightarrow> 'a config_scheme option" where
  "parse_line mem_ok lp args rest c =
     (case lp of
        parse_line_no_op \<Rightarrow> Some c
      | parse_line_service_of i \<Rightarrow> parse_line_service mem_ok args rest i c
      | parse_line_action_of i \<Rightarrow> parse_line_action mem_ok args i c)"

definition parse_new_section ::
  "(nat \<Rightarrow> bool) \<Rightarrow> keyword \<Rightarrow> string list \<Rightarrow> 'a config_scheme \<Rightarrow> (line_parser \<times> 'a config_scheme) option" where
  "parse_new_section mem_ok kw args c =
     (case kw of
        K_service \<Rightarrow>
          (case parse_service mem_ok args c of
             (Some i, c) \<Rightarrow> Some (parse_line_service_of i, c)
           | (None, c) \<Rightarrow> Some (parse_line_no_op, c))
      | K_on \<Rightarrow>
          (case parse_action mem_ok args c of
             None \<Rightarrow> None
           | Some (Some i, c) \<Rightarrow> Some (parse_line_action_of i, c)
           | Some (None, c) \<Rightarrow> Some (parse_line_no_op, c))
      | _ \<Rightarrow> Some (parse_line_no_op, c))"

text \<open>What \<^verbatim>\<open>parse_config\<close> does at the end of a line with arguments.\<close>

definition end_of_line ::
  "(nat \<Rightarrow> bool) \<Rightarrow> line_parser \<Rightarrow> string list \<Rightarrow> stale \<Rightarrow> 'a config_scheme \<Rightarrow> (line_parser \<times> 'a config_scheme) option" where
  "end_of_line mem_ok lp args rest c =
     (let kw = lookup_keyword (args ! 0) in
      if kw_is kw SECTION then
        (case parse_line mem_ok lp [] rest c of
           None \<Rightarrow> None
         | Some c \<Rightarrow> parse_new_section mem_ok kw args c)
      else
        (case parse_line mem_ok lp args rest c of
           None \<Rightarrow> None
         | Some c \<Rightarrow> Some (lp, c)))"

text \<open>The main loop.  \<open>cells\<close> is the array \<^verbatim>\<open>args\<close>, of which the first \<open>nargs\<close> cells belong to the current line.\<close>

function parse_config ::
  "(nat \<Rightarrow> bool) \<Rightarrow> parse_state \<Rightarrow> nat \<Rightarrow> stale \<Rightarrow> line_parser \<Rightarrow> 'a config_scheme \<Rightarrow> 'a config_scheme option" where
  "parse_config mem_ok st nargs cells lp c =
     (case next_token st of
        None \<Rightarrow> None
      | Some (tk, st) \<Rightarrow>
          (case tk of
             T_EOF \<Rightarrow> parse_line mem_ok lp [] cells c
           | T_NEWLINE \<Rightarrow>
               if nargs = 0 then parse_config mem_ok st nargs cells lp c
               else (case end_of_line mem_ok lp (map (\<lambda>i. the (cells i)) [0..<nargs]) cells c of
                       None \<Rightarrow> None
                     | Some (lp, c) \<Rightarrow> parse_config mem_ok st 0 cells lp c)
           | T_TEXT \<Rightarrow>
               if nargs < INIT_PARSER_MAXARGS
               then parse_config mem_ok st (nargs + 1) (cells(nargs := Some (cstr (drop (tok_text st) (buf st))))) lp c
               else parse_config mem_ok st nargs cells lp c))"
  by pat_completeness auto
termination
  by (relation "measure (\<lambda>(m, st, n, cs, lp, c). tok_measure st)") (auto dest: next_token_decreases)

declare parse_config.simps [simp del]

definition init_parse_config_file ::
  "(nat \<Rightarrow> bool) \<Rightarrow> (string \<Rightarrow> string option) \<Rightarrow> string \<Rightarrow> 'a config_scheme \<Rightarrow> (int \<times> 'a config_scheme) option" where
  "init_parse_config_file mem_ok read_file fn c =
     (case read_file fn of
        None \<Rightarrow> Some (-1, c)
      | Some d \<Rightarrow>
          (case parse_config mem_ok
                  \<lparr>buf = d @ [LF, NUL], ptr = 0, tok_text = 0, line = 1, nexttoken = None\<rparr>
                  0 (\<lambda>_. None) parse_line_no_op c of
             None \<Rightarrow> None
           | Some c \<Rightarrow> Some (0, c)))"

end
