(* ===== verification/Init_List.thy ===== *)
theory Init_List
  imports Prelude
begin

text \<open>
  The circular doubly linked lists of \<^verbatim>\<open>src/core/init/list.h\<close> and \<^verbatim>\<open>src/core/init/util.c\<close>.  The list nodes are
  embedded in the objects they link, so a node is named by its owner: \<open>Head\<close> is the list head, \<open>Node a\<close>
  the node inside the object \<open>a\<close>.  The two pointer fields of all nodes form the heap of the list.  A
  list is what \<^verbatim>\<open>list_for_each\<close> visits; an object linked twice into the same list breaks the ring, and
  the last part of the theory says how.
\<close>

datatype 'a node = Head | Node 'a

record 'a links =
  nxt :: "'a node \<Rightarrow> 'a node"
  prv :: "'a node \<Rightarrow> 'a node"

subsection \<open>Operations\<close>

definition list_init :: "'a node \<Rightarrow> 'a links \<Rightarrow> 'a links" where
  "list_init node h =
     (let h = h\<lparr>nxt := (nxt h)(node := node)\<rparr>
      in h\<lparr>prv := (prv h)(node := node)\<rparr>)"

definition list_add_tail :: "'a node \<Rightarrow> 'a node \<Rightarrow> 'a links \<Rightarrow> 'a links" where
  "list_add_tail l item h =
     (let h = h\<lparr>nxt := (nxt h)(item := l)\<rparr>;
          h = h\<lparr>prv := (prv h)(item := prv h l)\<rparr>;
          h = h\<lparr>nxt := (nxt h)(prv h l := item)\<rparr>
      in h\<lparr>prv := (prv h)(l := item)\<rparr>)"

definition list_remove :: "'a node \<Rightarrow> 'a links \<Rightarrow> 'a links" where
  "list_remove item h =
     (let h = h\<lparr>prv := (prv h)(nxt h item := prv h item)\<rparr>
      in h\<lparr>nxt := (nxt h)(prv h item := nxt h item)\<rparr>)"

definition list_empty :: "'a node \<Rightarrow> 'a links \<Rightarrow> bool" where
  "list_empty l h \<longleftrightarrow> l = nxt h l"

definition list_head :: "'a node \<Rightarrow> 'a links \<Rightarrow> 'a node" where
  "list_head l h = nxt h l"

definition list_tail :: "'a node \<Rightarrow> 'a links \<Rightarrow> 'a node" where
  "list_tail l h = prv h l"

text \<open>The nodes \<^verbatim>\<open>list_for_each\<close> visits from \<open>node\<close> on; \<open>None\<close> when the steps run out before the head is
  seen again.\<close>

fun for_each_nodes :: "nat \<Rightarrow> 'a node \<Rightarrow> 'a node \<Rightarrow> 'a links \<Rightarrow> 'a node list option" where
  "for_each_nodes 0 l node h = None"
| "for_each_nodes (Suc fuel) l node h =
     (if node = l then Some []
      else map_option ((#) node) (for_each_nodes fuel l (nxt h node) h))"

definition list_for_each :: "nat \<Rightarrow> 'a node \<Rightarrow> 'a links \<Rightarrow> 'a node list option" where
  "list_for_each fuel l h = for_each_nodes fuel l (nxt h l) h"

subsection \<open>Rings\<close>

text \<open>\<open>ring h ns\<close>: the nodes \<open>ns\<close> are distinct and linked to their neighbours in both directions, the
  last one to the first.\<close>

fun linked :: "'a links \<Rightarrow> 'a node list \<Rightarrow> bool" where
  "linked h (x # y # ns) \<longleftrightarrow> nxt h x = y \<and> prv h y = x \<and> linked h (y # ns)"
| "linked h _ \<longleftrightarrow> True"

definition ring :: "'a links \<Rightarrow> 'a node list \<Rightarrow> bool" where
  "ring h ns \<longleftrightarrow> distinct ns \<and> ns \<noteq> [] \<and> linked h (ns @ [hd ns])"

definition dll :: "'a links \<Rightarrow> 'a list \<Rightarrow> bool" where
  "dll h xs \<longleftrightarrow> ring h (Head # map Node xs)"

lemma linked_Cons:
  "ns \<noteq> [] \<Longrightarrow> linked h (x # ns) \<longleftrightarrow> nxt h x = hd ns \<and> prv h (hd ns) = x \<and> linked h ns"
  by (cases ns) auto

lemma linked_append:
  "xs \<noteq> [] \<Longrightarrow> ys \<noteq> [] \<Longrightarrow>
   linked h (xs @ ys) \<longleftrightarrow> linked h xs \<and> nxt h (last xs) = hd ys \<and> prv h (hd ys) = last xs \<and> linked h ys"
proof (induction xs)
  case (Cons x xs)
  then show ?case by (cases "xs = []") (auto simp: linked_Cons)
qed simp

lemma linked_cong:
  assumes "\<And>n. n \<in> set (butlast ns) \<Longrightarrow> nxt h' n = nxt h n" "\<And>n. n \<in> set (tl ns) \<Longrightarrow> prv h' n = prv h n"
  shows "linked h' ns = linked h ns"
  using assms
proof (induction ns)
  case (Cons x ns)
  then have "linked h' ns = linked h ns" if "ns \<noteq> []"
    using that by (auto simp: in_set_butlastD dest: list.set_sel(2))
  with Cons.prems show ?case by (cases "ns = []") (auto simp: linked_Cons)
qed simp

lemma dll_ends:
  assumes "dll h xs"
  shows "nxt h Head = hd (map Node xs @ [Head])" "prv h Head = last (Head # map Node xs)"
proof -
  have "linked h ((Head # map Node xs) @ [Head])" using assms by (simp add: dll_def ring_def)
  then show "prv h Head = last (Head # map Node xs)" by (subst (asm) linked_append) auto
  show "nxt h Head = hd (map Node xs @ [Head])"
    using assms by (simp add: dll_def ring_def linked_Cons)
qed

lemma dll_distinct: "dll h xs \<Longrightarrow> distinct xs"
  by (simp add: dll_def ring_def distinct_map)

lemma dll_add_tail:
  assumes dll: "dll h xs" and x: "x \<notin> set xs"
  shows "dll (list_add_tail Head (Node x) h) (xs @ [x])"
proof -
  let ?ns = "Head # map Node xs" and ?h = "list_add_tail Head (Node x) h"
  have lst: "prv h Head = last ?ns" by (rule dll_ends [OF dll])
  have ne: "last ?ns \<noteq> Node x" using x by (cases xs rule: rev_cases) auto
  have d: "distinct ?ns" and l: "linked h (?ns @ [Head])" using dll by (auto simp: dll_def ring_def)
  have nl: "n \<noteq> last ?ns" if "n \<in> set (butlast ?ns)" for n
    using d that by (metis append_butlast_last_id disjoint_iff distinct_append list.distinct(1) list.set_intros(1))
  have "linked ?h ?ns = linked h ?ns"
  proof (rule linked_cong)
    fix n assume n: "n \<in> set (butlast ?ns)"
    then have "n \<in> set ?ns" by (rule in_set_butlastD)
    then show "nxt ?h n = nxt h n"
      using x nl [OF n] lst by (auto simp: list_add_tail_def Let_def)
  next
    fix n assume "n \<in> set (tl ?ns)"
    then show "prv ?h n = prv h n" using x by (auto simp: list_add_tail_def Let_def)
  qed
  moreover have "linked h ?ns" using l by (subst (asm) linked_append) auto
  moreover have "nxt ?h (last ?ns) = Node x" "prv ?h (Node x) = last ?ns" "nxt ?h (Node x) = Head" "prv ?h Head = Node x"
    using ne lst by (auto simp: list_add_tail_def Let_def)
  ultimately have "linked ?h (?ns @ [Node x, Head])" by (subst linked_append) auto
  then show ?thesis using d x by (auto simp: dll_def ring_def)
qed

lemma dll_remove:
  assumes dll: "dll h (xs @ x # ys)"
  shows "dll (list_remove (Node x) h) (xs @ ys)"
proof -
  let ?A = "Head # map Node xs" and ?B = "map Node ys @ [Head]" and ?h = "list_remove (Node x) h"
  have d: "distinct (?A @ Node x # map Node ys)" and l: "linked h (?A @ Node x # ?B)"
    using dll by (auto simp: dll_def ring_def)
  have eqs: "linked h ?A" "nxt h (last ?A) = Node x" "prv h (Node x) = last ?A"
    "nxt h (Node x) = hd ?B" "prv h (hd ?B) = Node x" "linked h ?B"
    using l linked_append [of ?A "Node x # ?B" h] linked_Cons [of ?B h "Node x"] by auto
  have A: "last ?A \<in> set ?A" by (rule last_in_set) simp
  have neA: "n \<noteq> last ?A" if "n \<in> set (butlast ?A)" for n
    using d that by (metis append_butlast_last_id distinct_append disjoint_iff list.distinct(1) list.set_intros(1))
  have B: "hd ?B \<notin> set (tl ?A)" using d by (cases ys) auto
  have h: "nxt ?h = (nxt h)(last ?A := hd ?B)" "prv ?h = (prv h)(hd ?B := last ?A)"
    using eqs d A by (cases ys; auto simp: list_remove_def Let_def fun_upd_def)+
  have "linked ?h ?A"
    using linked_cong [of ?A ?h h] eqs(1) neA B unfolding h by (metis fun_upd_apply)
  moreover have "linked ?h ?B"
  proof -
    have "n \<noteq> last ?A" if "n \<in> set (butlast ?B)" for n using d A that by auto
    moreover have "n \<noteq> hd ?B" if "n \<in> set (tl ?B)" for n using d that by (cases ys) auto
    ultimately show ?thesis
      using linked_cong [of ?B ?h h] eqs(6) unfolding h by (metis fun_upd_apply)
  qed
  ultimately have "linked ?h (?A @ ?B)"
    by (subst linked_append) (simp_all add: h)
  then show ?thesis using d by (auto simp: dll_def ring_def)
qed

subsection \<open>Traversal\<close>

lemma for_each_nodes_linked:
  "linked h (map Node xs @ [Head]) \<Longrightarrow> length xs < fuel \<Longrightarrow>
   for_each_nodes fuel Head (hd (map Node xs @ [Head])) h = Some (map Node xs)"
proof (induction xs arbitrary: fuel)
  case Nil
  then show ?case by (cases fuel) auto
next
  case (Cons x xs)
  then obtain f where f: "fuel = Suc f" by (cases fuel) auto
  from Cons.prems(1) have "nxt h (Node x) = hd (map Node xs @ [Head])" "linked h (map Node xs @ [Head])"
    by (auto simp: linked_Cons)
  with Cons.IH [of f] Cons.prems(2) f show ?case by simp
qed

lemma dll_for_each: "dll h xs \<Longrightarrow> length xs < fuel \<Longrightarrow> list_for_each fuel Head h = Some (map Node xs)"
  using for_each_nodes_linked [of h xs fuel] dll_ends(1) [of h xs]
  by (simp add: list_for_each_def dll_def ring_def linked_Cons)

lemma dll_init: "dll (list_init Head h) []"
  by (simp add: dll_def ring_def list_init_def Let_def)

lemma dll_empty_iff: "dll h xs \<Longrightarrow> list_empty Head h \<longleftrightarrow> xs = []"
  using dll_ends(1) [of h xs] by (cases xs) (auto simp: list_empty_def)

lemma dll_head: "dll h (x # xs) \<Longrightarrow> list_head Head h = Node x"
  using dll_ends(1) [of h "x # xs"] by (simp add: list_head_def)

lemma dll_tail: "dll h (xs @ [x]) \<Longrightarrow> list_tail Head h = Node x"
  using dll_ends(2) [of h "xs @ [x]"] by (simp add: list_tail_def)

subsection \<open>The queue\<close>

text \<open>The pending-action queue of \<^verbatim>\<open>init_parser.c\<close>: \<^verbatim>\<open>action_add_queue_tail\<close>, \<^verbatim>\<open>action_remove_queue_head\<close> and
  \<^verbatim>\<open>action_queue_empty\<close> on the node \<^verbatim>\<open>qlist\<close> of an action.\<close>

definition action_add_queue_tail :: "'a \<Rightarrow> 'a links \<Rightarrow> 'a links" where
  "action_add_queue_tail act q = list_add_tail Head (Node act) q"

definition action_remove_queue_head :: "'a links \<Rightarrow> 'a option \<times> 'a links" where
  "action_remove_queue_head q =
     (if list_empty Head q then (None, q)
      else case list_head Head q of
             Head \<Rightarrow> (None, q)
           | Node act \<Rightarrow> (Some act, list_remove (Node act) q))"

definition action_queue_empty :: "'a links \<Rightarrow> bool" where
  "action_queue_empty q = list_empty Head q"

text \<open>What the users of the queue rely on.\<close>

locale fifo =
  fixes is_queue :: "'q \<Rightarrow> 'a list \<Rightarrow> bool"
    and enq :: "'a \<Rightarrow> 'q \<Rightarrow> 'q"
    and deq :: "'q \<Rightarrow> 'a option \<times> 'q"
  assumes enq_list: "is_queue q xs \<Longrightarrow> x \<notin> set xs \<Longrightarrow> is_queue (enq x q) (xs @ [x])"
    and deq_empty: "is_queue q [] \<Longrightarrow> deq q = (None, q)"
    and deq_list: "is_queue q (x # xs) \<Longrightarrow> fst (deq q) = Some x \<and> is_queue (snd (deq q)) xs"
begin

lemma enq_all:
  "is_queue q xs \<Longrightarrow> distinct (xs @ ys) \<Longrightarrow> is_queue (fold enq ys q) (xs @ ys)"
proof (induction ys arbitrary: q xs)
  case (Cons y ys)
  then have "is_queue (enq y q) (xs @ [y])" by (intro enq_list) auto
  from Cons.IH [OF this] Cons.prems show ?case by auto
qed simp

lemma deq_all:
  "is_queue q xs \<Longrightarrow> n < length xs \<Longrightarrow> fst (deq (((\<lambda>q. snd (deq q)) ^^ n) q)) = Some (xs ! n)"
proof (induction n arbitrary: q xs)
  case 0
  then show ?case using deq_list by (cases xs) auto
next
  case (Suc n)
  then obtain x ys where "xs = x # ys" by (cases xs) auto
  with Suc deq_list [of q x ys] show ?case by (simp add: funpow_Suc_right del: funpow.simps)
qed

lemma deq_end: "is_queue q xs \<Longrightarrow> is_queue (((\<lambda>q. snd (deq q)) ^^ length xs) q) []"
proof (induction xs arbitrary: q)
  case (Cons x xs)
  then have "is_queue (snd (deq q)) xs" using deq_list by blast
  from Cons.IH [OF this] show ?case by (simp add: funpow_Suc_right del: funpow.simps)
qed simp

end

lemma queue_ops:
  "dll q xs \<Longrightarrow> x \<notin> set xs \<Longrightarrow> dll (action_add_queue_tail x q) (xs @ [x])"
  "dll q [] \<Longrightarrow> action_remove_queue_head q = (None, q)"
  "dll q (x # xs) \<Longrightarrow> action_remove_queue_head q = (Some x, list_remove (Node x) q) \<and> dll (list_remove (Node x) q) xs"
  using dll_remove [of q "[]" x xs]
  by (simp_all add: action_add_queue_tail_def action_remove_queue_head_def dll_add_tail dll_empty_iff dll_head)

interpretation aq: fifo dll action_add_queue_tail action_remove_queue_head
  by unfold_locales (simp_all add: queue_ops)

text \<open>The \<open>n\<close>-th action the queue hands out.\<close>

definition dequeued :: "'a links \<Rightarrow> nat \<Rightarrow> 'a option" where
  "dequeued q n = fst (action_remove_queue_head (((\<lambda>q. snd (action_remove_queue_head q)) ^^ n) q))"

lemma dequeued_Suc: "dequeued q (Suc n) = dequeued (snd (action_remove_queue_head q)) n"
  by (simp add: dequeued_def funpow_Suc_right del: funpow.simps)

lemma dequeued_0: "dequeued q 0 = fst (action_remove_queue_head q)"
  by (simp add: dequeued_def)

subsection \<open>An action queued twice\<close>

text \<open>The queue after \<open>x\<close>, already in it, was added again: from the head one reaches the actions that
  were before \<open>x\<close>, then \<open>x\<close>, whose successor is \<open>nx\<close>.\<close>

definition broken :: "'a links \<Rightarrow> 'a list \<Rightarrow> 'a \<Rightarrow> 'a node \<Rightarrow> bool" where
  "broken q xs x nx \<longleftrightarrow>
     distinct (xs @ [x]) \<and> linked q (Head # map Node xs) \<and> nxt q (last (Head # map Node xs)) = Node x \<and>
     nxt q (Node x) = nx"

lemma remove_head_links:
  assumes "nxt q Head = Node y"
  shows "action_remove_queue_head q =
    (Some y, q\<lparr>nxt := (nxt q)(((prv q)(nxt q (Node y) := prv q (Node y))) (Node y) := nxt q (Node y)),
               prv := (prv q)(nxt q (Node y) := prv q (Node y))\<rparr>)"
  using assms
  by (simp add: action_remove_queue_head_def list_empty_def list_head_def list_remove_def Let_def)

lemma broken_step:
  assumes b: "broken q (y # xs) x nx"
  shows "\<exists>q'. action_remove_queue_head q = (Some y, q') \<and> broken q' xs x nx \<and> (xs = [] \<longrightarrow> prv q' (Node x) = Head)"
proof -
  let ?z = "hd (map Node (xs @ [x]))" and ?q = "q\<lparr>nxt := (nxt q)(Head := hd (map Node (xs @ [x]))),
      prv := (prv q)(hd (map Node (xs @ [x])) := Head)\<rparr>"
  have d: "distinct (y # xs @ [x])" and l: "linked q (Head # Node y # map Node xs)"
    and e: "nxt q (last (Node y # map Node xs)) = Node x" "nxt q (Node x) = nx"
    using b by (auto simp: broken_def)
  have z: "nxt q (Node y) = ?z" using l e by (cases xs) auto
  have zy: "?z \<noteq> Node y" using d by (cases xs) auto
  have py: "prv q (Node y) = Head" "nxt q Head = Node y" using l by auto
  then have run: "action_remove_queue_head q = (Some y, ?q)"
    using remove_head_links [OF py(2)] z zy by auto
  have "linked ?q (Head # map Node xs)"
  proof (cases xs)
    case (Cons w ws)
    have "linked ?q (map Node xs) = linked q (map Node xs)"
      by (rule linked_cong) (use d Cons in \<open>auto dest: in_set_butlastD split: if_splits\<close>)
    with l Cons show ?thesis by auto
  qed simp
  moreover have "nxt ?q (last (Head # map Node xs)) = Node x"
    using e by (cases xs rule: rev_cases) auto
  ultimately have "broken ?q xs x nx" using d e by (simp add: broken_def)
  then show ?thesis using run by simp
qed

lemma broken_prefix:
  assumes "broken q xs x nx" "xs \<noteq> []"
  shows "\<exists>q'. (\<forall>n < length xs. dequeued q n = Some (xs ! n)) \<and> (\<forall>n. dequeued q (length xs + n) = dequeued q' n) \<and>
    broken q' [] x nx \<and> prv q' (Node x) = Head"
  using assms
proof (induction xs arbitrary: q)
  case (Cons y xs)
  obtain q1 where q1: "action_remove_queue_head q = (Some y, q1)" "broken q1 xs x nx"
    "xs = [] \<longrightarrow> prv q1 (Node x) = Head"
    using broken_step [OF Cons.prems(1)] by blast
  show ?case
  proof (cases "xs = []")
    case True
    with q1 show ?thesis by (intro exI [of _ q1]) (auto simp: dequeued_0 dequeued_Suc)
  next
    case False
    from Cons.IH [OF q1(2) False] obtain q' where q':
      "\<forall>n < length xs. dequeued q1 n = Some (xs ! n)" "\<forall>n. dequeued q1 (length xs + n) = dequeued q' n"
      "broken q' [] x nx" "prv q' (Node x) = Head" by blast
    have "dequeued q n = Some ((y # xs) ! n)" if "n < length (y # xs)" for n
      using that q'(1) q1(1) by (cases n) (auto simp: dequeued_0 dequeued_Suc)
    with q' q1(1) show ?thesis by (intro exI [of _ q']) (auto simp: dequeued_Suc)
  qed
qed simp

text \<open>With \<open>x\<close> at the front: the queue is stuck on \<open>x\<close> when removing \<open>x\<close> leaves the head pointing at it.\<close>

lemma stuck_forever:
  assumes "broken q [] x nx" "nx = Node x \<or> prv q (Node x) \<notin> {Head, Node x}"
    "nx \<noteq> Node x \<longrightarrow> nx = Head"
  shows "dequeued q n = Some x"
proof -
  have step: "\<exists>q'. action_remove_queue_head q = (Some x, q') \<and> broken q' [] x nx \<and>
      (nx = Node x \<or> prv q' (Node x) \<notin> {Head, Node x})"
    if "broken q [] x nx" "nx = Node x \<or> prv q (Node x) \<notin> {Head, Node x}" for q
    using that assms(3) remove_head_links [of q x] by (auto simp: broken_def)
  show ?thesis
    using assms(1,2)
  proof (induction n arbitrary: q)
    case 0
    then show ?case using step [of q] by (auto simp: dequeued_0)
  next
    case (Suc n)
    from step [OF Suc.prems] show ?case using Suc.IH by (auto simp: dequeued_Suc)
  qed
qed

lemma add_again_broken:
  assumes "dll q (xs @ x # ys)"
  shows "broken (action_add_queue_tail x q) xs x (if ys = [] then Node x else Head)"
    and "ys \<noteq> [] \<Longrightarrow> prv (action_add_queue_tail x q) (Node x) = Node (last ys)"
proof -
  let ?q = "action_add_queue_tail x q" and ?A = "Head # map Node xs"
  have d: "distinct (xs @ x # ys)" by (rule dll_distinct [OF assms])
  have l: "linked q (?A @ Node x # map Node ys @ [Head])" using assms by (simp add: dll_def ring_def)
  then have A: "linked q ?A" "nxt q (last ?A) = Node x"
    using linked_append [of ?A "Node x # map Node ys @ [Head]" q] by auto
  have pH: "prv q Head = (if ys = [] then Node x else Node (last ys))"
    using dll_ends(2) [OF assms] by (simp add: last_map)
  have q: "nxt ?q = (nxt q)(Node x := Head, prv q Head := Node x)" "prv ?q = (prv q)(Node x := prv q Head, Head := Node x)"
    using pH by (auto simp: action_add_queue_tail_def list_add_tail_def Let_def)
  have out: "n \<noteq> Node x" "ys \<noteq> [] \<Longrightarrow> n \<noteq> Node (last ys)" if "n \<in> set ?A" for n
    using that d by auto
  have "linked ?q ?A = linked q ?A"
  proof (rule linked_cong)
    fix n assume "n \<in> set (butlast ?A)"
    then have "n \<in> set ?A" by (rule in_set_butlastD)
    with out pH show "nxt ?q n = nxt q n" by (auto simp: q)
  next
    fix n assume "n \<in> set (tl ?A)"
    with out pH show "prv ?q n = prv q n" by (auto simp: q)
  qed
  moreover have "last ?A \<in> set ?A" by (rule last_in_set) simp
  then have "nxt ?q (last ?A) = Node x" using out [of "last ?A"] A(2) pH by (auto simp: q)
  moreover have "nxt ?q (Node x) = (if ys = [] then Node x else Head)"
    using pH d by (auto simp: q)
  ultimately show "broken ?q xs x (if ys = [] then Node x else Head)"
    using A(1) d by (simp add: broken_def)
  show "ys \<noteq> [] \<Longrightarrow> prv ?q (Node x) = Node (last ys)" using pH by (simp add: q)
qed

subsection \<open>Properties\<close>

text \<open>C29: The action queue is a queue.  Starting from the empty list, adding distinct actions one after
  the other makes \<^verbatim>\<open>action_remove_queue_head\<close> hand them out in that order, once each, and then report
  the empty queue; \<^verbatim>\<open>list_for_each\<close> over the queue visits exactly these actions.\<close>

theorem action_queue_fifo:
  assumes "distinct acts"
  shows "let q = fold action_add_queue_tail acts (list_init Head h) in
    list_for_each (Suc (length acts)) Head q = Some (map Node acts) \<and>
    (\<forall>n < length acts. dequeued q n = Some (acts ! n)) \<and>
    action_queue_empty (((\<lambda>q. snd (action_remove_queue_head q)) ^^ length acts) q)"
proof -
  let ?q = "fold action_add_queue_tail acts (list_init Head h)"
  have q: "dll ?q acts"
    using aq.enq_all [OF dll_init, of acts h] assms by simp
  have "dll (((\<lambda>q. snd (action_remove_queue_head q)) ^^ length acts) ?q) []"
    by (rule aq.deq_end [OF q])
  then have "action_queue_empty (((\<lambda>q. snd (action_remove_queue_head q)) ^^ length acts) ?q)"
    by (simp add: action_queue_empty_def dll_empty_iff)
  moreover have "dequeued ?q n = Some (acts ! n)" if "n < length acts" for n
    using aq.deq_all [OF q that] by (simp add: dequeued_def)
  ultimately show ?thesis using dll_for_each [OF q, of "Suc (length acts)"] by (simp add: Let_def)
qed

theorem action_queue_fifo_witness:
  "dequeued (fold action_add_queue_tail [3, 1, 2] (list_init Head \<lparr>nxt = id, prv = id\<rparr>)) 1 = Some (1 :: nat)"
  using action_queue_fifo [of "[3, 1, 2 :: nat]" "\<lparr>nxt = id, prv = id\<rparr>"] by (auto simp: Let_def)

text \<open>C30: An action that is queued while it is still pending breaks the queue (\<^verbatim>\<open>action_add_queue_tail\<close> does
  not look whether the node is linked already, and two changes of a property before its trigger ran
  queue the same action twice).  The actions before it are handed out as before.  If there are some and
  it is not the last one either, it follows and the actions behind it are lost.  Otherwise the queue
  hands out the same action for ever and never becomes empty.\<close>

theorem requeued_action_breaks_queue:
  assumes "dll q (xs @ x # ys)"
  shows "let q' = action_add_queue_tail x q in
    (\<forall>n < length xs. dequeued q' n = Some (xs ! n)) \<and>
    (if xs \<noteq> [] \<and> ys \<noteq> [] then dequeued q' (length xs) = Some x \<and> (\<forall>n > length xs. dequeued q' n = None)
     else \<forall>n \<ge> length xs. dequeued q' n = Some x)"
proof -
  let ?q = "action_add_queue_tail x q" and ?nx = "if ys = [] then Node x else Head"
  note b = add_again_broken [OF assms]
  have nl: "ys \<noteq> [] \<Longrightarrow> Node (last ys) \<noteq> Node x" using dll_distinct [OF assms] by auto
  show ?thesis
  proof (cases "xs = []")
    case True
    have "dequeued ?q n = Some x" for n
      using stuck_forever [OF b(1) [unfolded True]] b(2) nl by auto
    with True show ?thesis by simp
  next
    case False
    from broken_prefix [OF b(1) False] obtain q' where q':
      "\<forall>n < length xs. dequeued ?q n = Some (xs ! n)" "\<forall>n. dequeued ?q (length xs + n) = dequeued q' n"
      "broken q' [] x ?nx" "prv q' (Node x) = Head" by blast
    show ?thesis
    proof (cases "ys = []")
      case True
      have "dequeued q' n = Some x" for n
        using stuck_forever [OF q'(3)] True by simp
      then have "dequeued ?q n = Some x" if "n \<ge> length xs" for n
        using that q'(2) by (metis le_add_diff_inverse)
      with q'(1) True show ?thesis by (simp add: Let_def)
    next
      case ys: False
      let ?e = "snd (action_remove_queue_head q')"
      have e: "action_remove_queue_head q' = (Some x, ?e)" "list_empty Head ?e"
        using q'(3,4) ys remove_head_links [of q' x] by (auto simp: broken_def list_empty_def)
      have none: "dequeued ?e n = None" for n
        using e(2) by (induction n) (auto simp: dequeued_0 dequeued_Suc action_remove_queue_head_def)
      have "dequeued ?q n = None" if n: "n > length xs" for n
      proof -
        obtain k where "n = length xs + Suc k" using n less_iff_Suc_add by fastforce
        with q'(2) [rule_format, of "Suc k"] none show ?thesis by (simp add: dequeued_Suc [of q'])
      qed
      moreover have "dequeued ?q (length xs) = Some x"
        using q'(2) [rule_format, of 0] arg_cong [OF e(1), of fst] by (simp add: dequeued_0)
      ultimately show ?thesis using q'(1) ys False by (simp add: Let_def)
    qed
  qed
qed

theorem requeued_action_breaks_queue_witness:
  "\<forall>n. dequeued (action_add_queue_tail 1 (fold action_add_queue_tail [1 :: nat, 2] (list_init Head \<lparr>nxt = id, prv = id\<rparr>))) n = Some 1"
proof -
  let ?q = "fold action_add_queue_tail [1 :: nat, 2] (list_init Head \<lparr>nxt = id, prv = id\<rparr>)"
  have "dll ?q ([] @ 1 # [2])"
    using aq.enq_all [OF dll_init, of "[1, 2 :: nat]"] by simp
  from requeued_action_breaks_queue [OF this] show ?thesis by (simp add: Let_def)
qed

end
