(* ===== verification/Init_State.thy ===== *)
theory Init_State
  imports Init_Config Init_List
begin

text \<open>
  The state of the \<^verbatim>\<open>init\<close> process and its environment.  The record \<open>init\<close> extends the configuration by
  the static variables of \<^verbatim>\<open>init.c\<close>, \<^verbatim>\<open>property_service.c\<close> and \<^verbatim>\<open>signal_handler.c\<close> and by the trace of the system
  calls made so far, newest first.  What the kernel answers is the argument \<open>sys\<close> of type \<open>env\<close>, a
  function of that trace, so that the answers of the environment are arbitrary.  The constants and the
  lookup function of the property area belong to the C library and are fields of \<open>env\<close> too.
\<close>

section \<open>System calls\<close>

datatype (plugins only: code) syscall =
    Stat string
  | Fork
  | Gettime
  | Kill int int
  | Unlink string
  | Sync
  | Reboot string
  | Open string
  | Write int string
  | Ftruncate int int
  | Mmap int int
  | Rename string string
  | Chdir string
  | Chroot string
  | Mkdir string u32
  | Chown string u32 u32
  | Chmod string u32
  | Symlink string string
  | Setrlimit int int int
  | Settimezone int
  | Set_key u32 u32 u32
  | Mount string string string u32 "string option"
  | Loop_get_status int
  | Loop_set_fd int int
  | Loop_clr_fd int
  | Init_module string string
  | Dup int
  | Dup2 int int
  | Setsid
  | Setpgid
  | Setgid u32
  | Setgroups "u32 list"
  | Setuid u32
  | Execve string "string list" "string list"
  | Exit int
  | Write_keychords int "(int \<times> int list) list"
  | Wait_for_file string int
  | Waitpid
  | Waitpid_for int
  | Load_image string
  | Mknod string
  | Socket int
  | Bind int string
  | Ioprio_set IoSchedClass int
  | Socketpair
  | Write_tty int
  | External keyword "string list"

type_synonym trace = "(syscall \<times> int) list"

section \<open>The property area\<close>

text \<open>\<^verbatim>\<open>prop_info\<close> and \<^verbatim>\<open>prop_area\<close> of the C library, as far as \<^verbatim>\<open>property_service.c\<close> writes them.  The \<^verbatim>\<open>count\<close> of
  the area is the number of its infos.\<close>

record prop_info =
  pi_name :: string
  pi_value :: string
  pi_serial :: u32

record prop_area =
  infos :: "prop_info list"
  toc :: "u32 list"
  pa_serial :: u32

definition PA_COUNT_MAX :: nat where "PA_COUNT_MAX = 247"
definition PA_INFO_START :: nat where "PA_INFO_START = 1024"
definition PA_SIZE :: nat where "PA_SIZE = 32768"

section \<open>Environment\<close>

record env =
  sys :: "trace \<Rightarrow> syscall \<Rightarrow> int"             \<comment> \<open>the result of a call; negative: \<^verbatim>\<open>-errno\<close>\<close>
  sys_file :: "trace \<Rightarrow> string \<Rightarrow> string option" \<comment> \<open>the contents of a file, if it can be read\<close>
  sys_dir :: "trace \<Rightarrow> string \<Rightarrow> (string \<times> bool) list option"
    \<comment> \<open>the entries of a directory, if it can be opened, and whether they are regular files\<close>
  mem_ok :: "nat \<Rightarrow> bool"                        \<comment> \<open>whether an allocation succeeds\<close>
  prop_find :: "prop_area \<Rightarrow> string \<Rightarrow> nat option" \<comment> \<open>\<^verbatim>\<open>__system_property_find\<close>\<close>
  PROP_NAME_MAX :: nat
  PROP_VALUE_MAX :: nat
  PROP_INFO_SIZE :: nat                          \<comment> \<open>\<^verbatim>\<open>sizeof(prop_info)\<close>\<close>
  pair_fds :: "trace \<Rightarrow> int \<times> int"              \<comment> \<open>the descriptors of a socket pair\<close>
  loop_devices :: nat                            \<comment> \<open>number of loop devices that can be opened\<close>
  mtd_name_to_number :: "string \<Rightarrow> int"
  PROP_SERVICE_NAME :: string
  PROP_PATH_RAMDISK_DEFAULT :: string
  PROP_PATH_SYSTEM_BUILD :: string
  PROP_PATH_SYSTEM_DEFAULT :: string
  PROP_PATH_LOCAL_OVERRIDE :: string

text \<open>What the code relies on: \<^verbatim>\<open>__system_property_find\<close> finds a property by its name if there is one; the
  sizes are those the comments of \<^verbatim>\<open>property_service.c\<close> compute with; a name can be a value, and a value
  length fits the upper byte of a serial.\<close>

definition find_ok :: "env \<Rightarrow> bool" where
  "find_ok E \<longleftrightarrow>
     (\<forall>a name. case prop_find E a name of
        Some i \<Rightarrow> i < length (infos a) \<and> pi_name (infos a ! i) = name
      | None \<Rightarrow> name \<notin> pi_name ` set (infos a))"

definition sizes_ok :: "env \<Rightarrow> bool" where
  "sizes_ok E \<longleftrightarrow>
     26 \<le> PROP_NAME_MAX E \<and> PROP_NAME_MAX E \<le> PROP_VALUE_MAX E \<and> PROP_VALUE_MAX E \<le> 128 \<and>
     4 + PROP_NAME_MAX E + PROP_VALUE_MAX E \<le> PROP_INFO_SIZE E \<and> PROP_INFO_SIZE E \<le> 128"

section \<open>State\<close>

text \<open>The strings that \<^verbatim>\<open>import_kernel_cmdline\<close> and \<^verbatim>\<open>get_hardware_name\<close> fill in.\<close>

record boot_params =
  bp_console :: string
  bp_serialno :: string
  bp_bootmode :: string
  bp_baseband :: string
  bp_carrier :: string
  bp_bootloader :: string
  bp_hardware :: string
  bp_revision :: u32
  bp_qemu :: string
  bp_calibration :: bool

record init = config +
  action_queue :: "nat links"
  cur_action :: "nat option"
  cur_command :: "nat option"
  property_triggers_enabled :: bool
  pa :: prop_area
  property_area_inited :: bool
  persistent_properties_loaded :: bool
  have_console :: bool
  console_name :: string
  process_needs_restart :: int
  ENV :: "string list"
  boot :: boot_params
  property_set_fd :: int
  signal_recv_fd :: int
  keychord_fd :: int
  keychords :: "(int \<times> int list) list option"
  keychords_count :: int
  log_level :: int
  pa_fd :: int
  trace :: trace

abbreviation (input) ENOENT :: int where "ENOENT \<equiv> 2"
abbreviation (input) EEXIST :: int where "EEXIST \<equiv> 17"
abbreviation (input) SOCK_STREAM :: int where "SOCK_STREAM \<equiv> 1"
abbreviation (input) SOCK_DGRAM :: int where "SOCK_DGRAM \<equiv> 2"
abbreviation (input) SOCK_SEQPACKET :: int where "SOCK_SEQPACKET \<equiv> 5"

definition syscall :: "env \<Rightarrow> syscall \<Rightarrow> init \<Rightarrow> int \<times> init" where
  "syscall E c s = (let r = sys E (trace s) c in (r, s\<lparr>trace := (c, r) # trace s\<rparr>))"

definition do_syscall :: "env \<Rightarrow> syscall \<Rightarrow> init \<Rightarrow> init" where
  "do_syscall E c s = snd (syscall E c s)"

text \<open>\<^verbatim>\<open>gettime\<close> of \<^verbatim>\<open>util.c\<close>, and \<^verbatim>\<open>%d\<close> for a number that is not negative.\<close>

definition gettime :: "env \<Rightarrow> init \<Rightarrow> int \<times> init" where
  "gettime E s = (let (ret, s) = syscall E Gettime s in if ret < 0 then (0, s) else (ret, s))"

fun show_nat :: "nat \<Rightarrow> string" where
  "show_nat n = (if n < 10 then [char_of (48 + n)] else show_nat (n div 10) @ [char_of (48 + n mod 10)])"

declare show_nat.simps [simp del]

definition show_int :: "int \<Rightarrow> string" where
  "show_int i = (if i < 0 then CHR ''-'' # show_nat (nat (- i)) else show_nat (nat i))"

text \<open>The size in bytes of a list of \<^verbatim>\<open>input_keychord\<close>: three 16-bit fields and a 16-bit code for each key.\<close>

definition keychords_length :: "(int \<times> int list) list \<Rightarrow> int" where
  "keychords_length ks = sum_list (map (\<lambda>(kid, codes). 6 + 2 * int (length codes)) ks)"

text \<open>\<^verbatim>\<open>create_socket\<close> of \<^verbatim>\<open>util.c\<close>; \<^verbatim>\<open>sun_path\<close> has 108 bytes.  \<^verbatim>\<open>close\<close> is not recorded.\<close>

definition create_socket :: "env \<Rightarrow> string \<Rightarrow> int \<Rightarrow> u32 \<Rightarrow> u32 \<Rightarrow> u32 \<Rightarrow> init \<Rightarrow> int \<times> init" where
  "create_socket E name ty perm uid gid s =
     (let (fd, s) = syscall E (Socket ty) s in
      if fd < 0 then (-1, s)
      else
        let sun_path = take 107 (''/dev/socket/'' @ name);
            (ret, s) = syscall E (Unlink sun_path) s in
        if ret \<noteq> 0 \<and> - ret \<noteq> ENOENT then (-1, s)
        else
          let (ret, s) = syscall E (Bind fd sun_path) s in
          if ret \<noteq> 0 then (-1, do_syscall E (Unlink sun_path) s)
          else
            let s = do_syscall E (Chown sun_path uid gid) s;
                s = do_syscall E (Chmod sun_path perm) s
            in (fd, s))"

section \<open>Triggers\<close>

definition add_queue_tail :: "nat \<Rightarrow> init \<Rightarrow> init" where
  "add_queue_tail act s = s\<lparr>action_queue := action_add_queue_tail act (action_queue s)\<rparr>"

text \<open>\<^verbatim>\<open>list_for_each\<close> over \<^verbatim>\<open>action_list\<close>: the body is called with each action; none of the bodies adds to the
  list.\<close>

fun for_each_action :: "(nat \<Rightarrow> init \<Rightarrow> init) \<Rightarrow> nat list \<Rightarrow> init \<Rightarrow> init" where
  "for_each_action f [] s = s"
| "for_each_action f (i # is) s = for_each_action f is (f i s)"

definition all_actions :: "init \<Rightarrow> nat list" where
  "all_actions s = [0..<length (actions s)]"

definition action_for_each_trigger :: "string \<Rightarrow> (nat \<Rightarrow> init \<Rightarrow> init) \<Rightarrow> init \<Rightarrow> init" where
  "action_for_each_trigger trigger func s =
     for_each_action (\<lambda>i s. if act_name (actions s ! i) = trigger then func i s else s) (all_actions s) s"

definition property_trigger_matches :: "string \<Rightarrow> string \<Rightarrow> string \<Rightarrow> bool" where
  "property_trigger_matches act name val =
     (if has_prefix ''property:'' act then
        let test = drop (length ''property:'') act;
            name_length = length name in
        take name_length test = name \<and> name_length < length test \<and> test ! name_length = CHR ''='' \<and>
        drop (name_length + 1) test = val
      else False)"

definition queue_property_triggers :: "string \<Rightarrow> string \<Rightarrow> init \<Rightarrow> init" where
  "queue_property_triggers name val s =
     for_each_action
       (\<lambda>i s. if property_trigger_matches (act_name (actions s ! i)) name val then add_queue_tail i s else s)
       (all_actions s) s"

definition property_get :: "env \<Rightarrow> string \<Rightarrow> init \<Rightarrow> string option" where
  "property_get E name s =
     (if length name \<ge> PROP_NAME_MAX E then None
      else case prop_find E (pa s) name of
             Some i \<Rightarrow> Some (pi_value (infos (pa s) ! i))
           | None \<Rightarrow> None)"

text \<open>The test of \<^verbatim>\<open>queue_all_property_triggers\<close> for one action.\<close>

definition all_trigger_matches :: "env \<Rightarrow> string \<Rightarrow> init \<Rightarrow> bool" where
  "all_trigger_matches E act s =
     (if has_prefix ''property:'' act then
        let name = drop (length ''property:'') act in
        case strchr name CHR ''='' of
          None \<Rightarrow> False
        | Some eq \<Rightarrow>
            let len = length name - length eq in
            if len > PROP_NAME_MAX E then False
            else (case property_get E (take len name) s of
                    None \<Rightarrow> False
                  | Some val \<Rightarrow> drop 1 eq = val)
      else False)"

definition queue_all_property_triggers :: "env \<Rightarrow> init \<Rightarrow> init" where
  "queue_all_property_triggers E s =
     for_each_action (\<lambda>i s. if all_trigger_matches E (act_name (actions s ! i)) s then add_queue_tail i s else s)
       (all_actions s) s"

definition queue_builtin_action :: "env \<Rightarrow> boot_action \<Rightarrow> string \<Rightarrow> init \<Rightarrow> init option" where
  "queue_builtin_action E func name s =
     (if \<not> mem_ok E (allocs s) \<or> \<not> mem_ok E (allocs s + 1) then None
      else
        let s = s\<lparr>allocs := allocs s + 2,
                   actions := actions s @ [\<lparr>act_name = name, commands = [\<lparr>cmd_func = Boot func, cmd_args = [name]\<rparr>]\<rparr>]\<rparr>
        in Some (add_queue_tail (length (actions s) - 1) s))"

end
