(* ===== verification/Init_Property.thy ===== *)
theory Init_Property
  imports Init_State
begin

text \<open>
  The property service of \<^verbatim>\<open>init\<close>: \<^verbatim>\<open>src/core/init/property_service.c\<close>, with \<^verbatim>\<open>property_changed\<close> and
  \<^verbatim>\<open>notify_service_state\<close> of \<^verbatim>\<open>init.c\<close>.  \<open>None\<close> is undefined behaviour: a write to the property area before it
  is mapped.
\<close>

section \<open>The white lists\<close>

definition property_perms :: "(string \<times> u32 \<times> u32) list" where
  "property_perms =
    [(''net.rmnet0.'', AID_RADIO, 0), (''net.gprs.'', AID_RADIO, 0), (''net.ppp'', AID_RADIO, 0),
     (''ril.'', AID_RADIO, 0), (''gsm.'', AID_RADIO, 0), (''persist.radio'', AID_RADIO, 0),
     (''net.dns'', AID_RADIO, 0), (''net.'', AID_SYSTEM, 0), (''dev.'', AID_SYSTEM, 0),
     (''runtime.'', AID_SYSTEM, 0), (''hw.'', AID_SYSTEM, 0), (''sys.'', AID_SYSTEM, 0),
     (''service.'', AID_SYSTEM, 0), (''wlan.'', AID_SYSTEM, 0), (''dhcp.'', AID_SYSTEM, 0),
     (''dhcp.'', AID_DHCP, 0), (''vpn.'', AID_SYSTEM, 0), (''vpn.'', AID_VPN, 0),
     (''debug.'', AID_SHELL, 0), (''log.'', AID_SHELL, 0), (''service.adb.root'', AID_SHELL, 0),
     (''persist.sys.'', AID_SYSTEM, 0), (''persist.service.'', AID_SYSTEM, 0),
     (''persist.security.'', AID_SYSTEM, 0), (''xec.'', AID_SYSTEM, 0), (''user.'', AID_SYSTEM, 0),
     (''media.'', AID_MEDIA, 0)]"

definition control_perms :: "(string \<times> u32 \<times> u32) list" where
  "control_perms = [(''dumpstate'', AID_SHELL, AID_LOG), (''pppd_gprs'', AID_RADIO, AID_RADIO)]"

fun control_loop :: "(string \<times> u32 \<times> u32) list \<Rightarrow> string \<Rightarrow> u32 \<Rightarrow> u32 \<Rightarrow> bool" where
  "control_loop [] name uid gid = False"
| "control_loop ((service, puid, pgid) # ps) name uid gid =
     (if service = name \<and> (uid \<noteq> 0 \<and> puid = uid \<or> gid \<noteq> 0 \<and> pgid = gid) then True
      else control_loop ps name uid gid)"

definition check_control_perms :: "string \<Rightarrow> u32 \<Rightarrow> u32 \<Rightarrow> bool" where
  "check_control_perms name uid gid =
     (if uid = AID_SYSTEM \<or> uid = AID_ROOT then True else control_loop control_perms name uid gid)"

fun perms_loop :: "(string \<times> u32 \<times> u32) list \<Rightarrow> string \<Rightarrow> u32 \<Rightarrow> u32 \<Rightarrow> bool" where
  "perms_loop [] name uid gid = False"
| "perms_loop ((prefix, puid, pgid) # ps) name uid gid =
     (if has_prefix prefix name \<and> (uid \<noteq> 0 \<and> puid = uid \<or> gid \<noteq> 0 \<and> pgid = gid) then True
      else perms_loop ps name uid gid)"

definition check_perms :: "string \<Rightarrow> u32 \<Rightarrow> u32 \<Rightarrow> bool" where
  "check_perms name uid gid =
     (if uid = 0 then True
      else
        let name = (if has_prefix ''ro.'' name then drop 3 name else name) in
        perms_loop property_perms name uid gid)"

section \<open>The property area\<close>

text \<open>\<^verbatim>\<open>w->fd\<close> is the field \<open>pa_fd\<close>.\<close>

definition init_workspace :: "env \<Rightarrow> nat \<Rightarrow> init \<Rightarrow> int \<times> init" where
  "init_workspace E sz s =
     (let (fd, s) = syscall E (Open ''/dev/__properties__'') s in
      if fd < 0 then (-1, s)
      else
        let (r, s) = syscall E (Ftruncate fd (int sz)) s in
        if r < 0 then (-1, s)
        else
          let (r, s) = syscall E (Mmap fd (int sz)) s in
          if r < 0 then (-1, s)
          else
            let (fd, s) = syscall E (Open ''/dev/__properties__'') s in
            if fd < 0 then (-1, s)
            else (0, (do_syscall E (Unlink ''/dev/__properties__'') s)\<lparr>pa_fd := fd\<rparr>))"

definition empty_area :: prop_area where
  "empty_area = \<lparr>infos = [], toc = [], pa_serial = 0\<rparr>"

definition init_property_area :: "env \<Rightarrow> init \<Rightarrow> int \<times> init" where
  "init_property_area E s =
     (if property_area_inited s then (-1, s)
      else
        let (r, s) = init_workspace E PA_SIZE s in
        if r \<noteq> 0 then (-1, s)
        else (0, s\<lparr>pa := empty_area, property_area_inited := True\<rparr>))"

definition update_prop_info :: "prop_info \<Rightarrow> string \<Rightarrow> u32 \<Rightarrow> prop_info" where
  "update_prop_info p val len =
     (let p = p\<lparr>pi_serial := pi_serial p OR 1\<rparr>;
          p = p\<lparr>pi_value := val\<rparr>
      in p\<lparr>pi_serial := push_bit 24 len OR ((pi_serial p + 1) AND 0xffffff)\<rparr>)"

definition write_persistent_property :: "env \<Rightarrow> string \<Rightarrow> string \<Rightarrow> init \<Rightarrow> init" where
  "write_persistent_property E name val s =
     (let tempPath = ''/data/property/.temp'';
          path = ''/data/property/'' @ name;
          (fd, s) = syscall E (Open tempPath) s in
      if fd < 0 then s
      else
        let s = do_syscall E (Write fd val) s;
            (r, s) = syscall E (Rename tempPath path) s in
        if r \<noteq> 0 then do_syscall E (Unlink tempPath) s else s)"

definition property_changed :: "string \<Rightarrow> string \<Rightarrow> init \<Rightarrow> init" where
  "property_changed name val s =
     (if property_triggers_enabled s then queue_property_triggers name val s else s)"

text \<open>The first half of \<^verbatim>\<open>property_set\<close>, up to the test for \<^verbatim>\<open>net.\<close>.\<close>

definition store_property :: "env \<Rightarrow> string \<Rightarrow> string \<Rightarrow> init \<Rightarrow> (int \<times> init) option" where
  "store_property E name val s =
     (let namelen = length name; valuelen = length val; area = pa s in
      if namelen \<ge> PROP_NAME_MAX E then Some (-1, s)
      else if valuelen \<ge> PROP_VALUE_MAX E then Some (-1, s)
      else if namelen < 1 then Some (-1, s)
      else case prop_find E area name of
        Some i \<Rightarrow>
          if has_prefix ''ro.'' name then Some (-1, s)
          else Some (0, s\<lparr>pa := area\<lparr>infos := (infos area)[i := update_prop_info (infos area ! i) val (of_nat valuelen)],
                                       pa_serial := pa_serial area + 1\<rparr>\<rparr>)
      | None \<Rightarrow>
          if length (infos area) = PA_COUNT_MAX then Some (-1, s)
          else if \<not> property_area_inited s then None
          else Some (0, s\<lparr>pa := area\<lparr>
                 infos := infos area @ [\<lparr>pi_name = name, pi_value = val, pi_serial = push_bit 24 (of_nat valuelen)\<rparr>],
                 toc := toc area @
                   [push_bit 24 (of_nat namelen) OR of_nat (PA_INFO_START + length (infos area) * PROP_INFO_SIZE E)],
                 pa_serial := pa_serial area + 1\<rparr>\<rparr>))"

function property_set :: "env \<Rightarrow> string \<Rightarrow> string \<Rightarrow> init \<Rightarrow> (int \<times> init) option" where
  "property_set E name val s =
     (case store_property E name val s of
        None \<Rightarrow> None
      | Some (r, s) \<Rightarrow>
          if r \<noteq> 0 then Some (r, s)
          else if has_prefix ''net.'' name then
            if name = ''net.change'' then Some (0, s)
            else (case property_set E ''net.change'' name s of
                    None \<Rightarrow> None
                  | Some (r, s) \<Rightarrow> Some (0, property_changed name val s))
          else
            let s = (if persistent_properties_loaded s \<and> has_prefix ''persist.'' name
                     then write_persistent_property E name val s else s) in
            Some (0, property_changed name val s))"
  by pat_completeness auto
termination
  by (relation "measure (\<lambda>(E, name, v, s). if name = ''net.change'' then 0 else 1)") auto

declare property_set.simps [simp del]

definition set_property :: "env \<Rightarrow> string \<Rightarrow> string \<Rightarrow> init \<Rightarrow> init option" where
  "set_property E name val s = map_option snd (property_set E name val s)"

definition notify_service_state :: "env \<Rightarrow> string \<Rightarrow> string \<Rightarrow> init \<Rightarrow> init option" where
  "notify_service_state E name state s =
     (if length name + 10 > PROP_NAME_MAX E then Some s
      else set_property E (''init.svc.'' @ name) state s)"

section \<open>Property files\<close>

text \<open>\<open>while ((tmp > key) && isspace(*tmp)) *tmp-- = 0\<close>: trailing blanks are cut, but never the first
  character.\<close>

definition trim_end :: "string \<Rightarrow> string" where
  "trim_end s = (case s of [] \<Rightarrow> [] | c # cs \<Rightarrow> c # rev (dropWhile c_isspace (rev cs)))"

text \<open>One line of a property file: the key and the value that are passed to \<^verbatim>\<open>property_set\<close>, if any.\<close>

definition property_line :: "string \<Rightarrow> (string \<times> string) option" where
  "property_line key =
     (case strchr key CHR ''='' of
        None \<Rightarrow> None
      | Some eq \<Rightarrow>
          let key = take (length key - length eq) key;
              val = drop 1 eq;
              key = dropWhile c_isspace key in
          if take 1 key = ''#'' then None
          else Some (trim_end key, trim_end (dropWhile c_isspace val)))"

function load_properties :: "env \<Rightarrow> string \<Rightarrow> init \<Rightarrow> init option" where
  "load_properties E sol s =
     (case strchr sol LF of
        None \<Rightarrow> Some s
      | Some eol \<Rightarrow>
          let key = take (length sol - length eol) sol; sol = drop 1 eol in
          case property_line key of
            None \<Rightarrow> load_properties E sol s
          | Some (key, val) \<Rightarrow>
              (case set_property E key val s of
                 None \<Rightarrow> None
               | Some s \<Rightarrow> load_properties E sol s))"
  by pat_completeness auto
termination
  by (relation "measure (\<lambda>(E, sol, s). length sol)") (auto simp: strchr_Some_iff)

declare load_properties.simps [simp del]

definition load_properties_from_file :: "env \<Rightarrow> string \<Rightarrow> init \<Rightarrow> init option" where
  "load_properties_from_file E fn s =
     (case sys_file E (trace s) fn of
        None \<Rightarrow> Some s
      | Some data \<Rightarrow> load_properties E (cstr (data @ [LF, NUL])) s)"

fun load_persistent_entries :: "env \<Rightarrow> (string \<times> bool) list \<Rightarrow> init \<Rightarrow> init option" where
  "load_persistent_entries E [] s = Some s"
| "load_persistent_entries E ((d_name, dt_reg) # entries) s =
     (if \<not> has_prefix ''persist.'' d_name then load_persistent_entries E entries s
      else if \<not> dt_reg then load_persistent_entries E entries s
      else
        case sys_file E (trace s) (''/data/property/'' @ d_name) of
          None \<Rightarrow> load_persistent_entries E entries s
        | Some data \<Rightarrow>
            (case set_property E d_name (cstr (take (PROP_VALUE_MAX E - 1) data)) s of
               None \<Rightarrow> None
             | Some s \<Rightarrow> load_persistent_entries E entries s))"

definition load_persistent_properties :: "env \<Rightarrow> init \<Rightarrow> init option" where
  "load_persistent_properties E s =
     (case (case sys_dir E (trace s) ''/data/property'' of
              None \<Rightarrow> Some s
            | Some entries \<Rightarrow> load_persistent_entries E entries s) of
        None \<Rightarrow> None
      | Some s \<Rightarrow> Some (s\<lparr>persistent_properties_loaded := True\<rparr>))"

definition property_init :: "env \<Rightarrow> init \<Rightarrow> init option" where
  "property_init E s = load_properties_from_file E (PROP_PATH_RAMDISK_DEFAULT E) (snd (init_property_area E s))"

definition start_property_service :: "env \<Rightarrow> init \<Rightarrow> init option" where
  "start_property_service E s =
     (case load_properties_from_file E (PROP_PATH_SYSTEM_BUILD E) s of
        None \<Rightarrow> None
      | Some s \<Rightarrow>
     (case load_properties_from_file E (PROP_PATH_SYSTEM_DEFAULT E) s of
        None \<Rightarrow> None
      | Some s \<Rightarrow>
     (case load_properties_from_file E (PROP_PATH_LOCAL_OVERRIDE E) s of
        None \<Rightarrow> None
      | Some s \<Rightarrow>
     (case load_persistent_properties E s of
        None \<Rightarrow> None
      | Some s \<Rightarrow>
          let (fd, s) = create_socket E (PROP_SERVICE_NAME E) SOCK_STREAM (oct 0 6 6 6) 0 0 s in
          if fd < 0 then Some s else Some (s\<lparr>property_set_fd := fd\<rparr>)))))"

end
