(* ===== verification/Init_Service.thy ===== *)
theory Init_Service
  imports Init_Property
begin

text \<open>
  Services of \<^verbatim>\<open>init\<close>: starting, stopping and restarting them (\<^verbatim>\<open>src/core/init/init.c\<close>), the iteration functions
  of \<^verbatim>\<open>init_parser.c\<close> and the keychords of \<^verbatim>\<open>keychords.c\<close>.  \<open>service_start\<close> is what the parent does; the answer of
  \<^verbatim>\<open>fork\<close> is the one the parent gets.  \<open>service_child\<close> is what the child does up to \<^verbatim>\<open>execve\<close>.
\<close>

section \<open>Iteration\<close>

fun for_each_service :: "(nat \<Rightarrow> init \<Rightarrow> init option) \<Rightarrow> nat list \<Rightarrow> init \<Rightarrow> init option" where
  "for_each_service f [] s = Some s"
| "for_each_service f (i # is) s = (case f i s of None \<Rightarrow> None | Some s \<Rightarrow> for_each_service f is s)"

definition service_for_each :: "(nat \<Rightarrow> init \<Rightarrow> init option) \<Rightarrow> init \<Rightarrow> init option" where
  "service_for_each func s = for_each_service func [0..<length (services s)] s"

definition service_for_each_class :: "string \<Rightarrow> (nat \<Rightarrow> init \<Rightarrow> init option) \<Rightarrow> init \<Rightarrow> init option" where
  "service_for_each_class cname func s =
     for_each_service (\<lambda>i s. if classname (services s ! i) = cname then func i s else Some s)
       [0..<length (services s)] s"

definition service_for_each_flags :: "u32 \<Rightarrow> (nat \<Rightarrow> init \<Rightarrow> init option) \<Rightarrow> init \<Rightarrow> init option" where
  "service_for_each_flags matchflags func s =
     for_each_service (\<lambda>i s. if flags (services s ! i) AND matchflags \<noteq> 0 then func i s else Some s)
       [0..<length (services s)] s"

section \<open>Environment and files of a child\<close>

definition add_environment :: "env \<Rightarrow> string \<Rightarrow> string \<Rightarrow> init \<Rightarrow> (int \<times> init) option" where
  "add_environment E key val s =
     (if length (ENV s) < 31 then
        if mem_ok E (allocs s) then Some (0, s\<lparr>ENV := ENV s @ [key @ ''='' @ val], allocs := allocs s + 1\<rparr>) else None
      else Some (1, s))"

definition zap_stdio :: "env \<Rightarrow> init \<Rightarrow> init" where
  "zap_stdio E s =
     (let (fd, s) = syscall E (Open ''/dev/null'') s
      in do_syscall E (Dup2 fd 2) (do_syscall E (Dup2 fd 1) (do_syscall E (Dup2 fd 0) s)))"

definition open_console :: "env \<Rightarrow> init \<Rightarrow> init" where
  "open_console E s =
     (let (fd, s) = syscall E (Open (console_name s)) s;
          (fd, s) = (if fd < 0 then syscall E (Open ''/dev/null'') s else (fd, s))
      in do_syscall E (Dup2 fd 2) (do_syscall E (Dup2 fd 1) (do_syscall E (Dup2 fd 0) s)))"

definition publish_socket :: "env \<Rightarrow> string \<Rightarrow> int \<Rightarrow> init \<Rightarrow> init option" where
  "publish_socket E name fd s =
     map_option snd (add_environment E (''ANDROID_SOCKET_'' @ take 47 name) (show_int fd) s)"

fun add_envvars :: "env \<Rightarrow> svcenvinfo list \<Rightarrow> init \<Rightarrow> init option" where
  "add_envvars E [] s = Some s"
| "add_envvars E (ei # eis) s =
     (case ei_value ei of
        None \<Rightarrow> None
      | Some val \<Rightarrow>
          (case add_environment E (ei_name ei) val s of
             None \<Rightarrow> None
           | Some (r, s) \<Rightarrow> add_envvars E eis s))"

fun create_sockets :: "env \<Rightarrow> socketinfo list \<Rightarrow> init \<Rightarrow> init option" where
  "create_sockets E [] s = Some s"
| "create_sockets E (si # sis) s =
     (let socket_type = (if si_type si = ''stream'' then SOCK_STREAM
                         else if si_type si = ''dgram'' then SOCK_DGRAM else SOCK_SEQPACKET);
          (fd, s) = create_socket E (si_name si) socket_type (of_int (si_perm si)) (si_uid si) (si_gid si) s
      in if fd \<ge> 0 then
           (case publish_socket E (si_name si) fd s of
              None \<Rightarrow> None
            | Some s \<Rightarrow> create_sockets E sis s)
         else create_sockets E sis s)"

text \<open>\<^verbatim>\<open>strsep(&next, " ")\<close> until the string is used up.\<close>

fun split_words :: "string \<Rightarrow> string list" where
  "split_words [] = [[]]"
| "split_words (c # cs) =
     (if c = CHR '' '' then [] # split_words cs
      else case split_words cs of [] \<Rightarrow> [[c]] | w # ws \<Rightarrow> (c # w) # ws)"

text \<open>The loop that appends words to \<^verbatim>\<open>arg_ptrs\<close> until \<open>INIT_PARSER_MAXARGS\<close> are there.\<close>

fun add_words :: "string list \<Rightarrow> string list \<Rightarrow> string list" where
  "add_words arg_ptrs [] = arg_ptrs"
| "add_words arg_ptrs (bword # bwords) =
     (if length arg_ptrs + 1 = INIT_PARSER_MAXARGS then arg_ptrs @ [bword]
      else add_words (arg_ptrs @ [bword]) bwords)"

definition set_credentials :: "env \<Rightarrow> service \<Rightarrow> init \<Rightarrow> init" where
  "set_credentials E svc s =
     (let s = (if svc_gid svc \<noteq> 0 then do_syscall E (Setgid (svc_gid svc)) s else s);
          s = (if nr_supp_gids svc \<noteq> 0 then do_syscall E (Setgroups (take (nr_supp_gids svc) (supp_gids svc))) s else s);
          s = (if svc_uid svc \<noteq> 0 then do_syscall E (Setuid (svc_uid svc)) s else s)
      in s)"

definition workspace_env :: "env \<Rightarrow> init \<Rightarrow> init option" where
  "workspace_env E s =
     (let (fd, s) = syscall E (Dup (pa_fd s)) s
      in map_option snd
           (add_environment E ''ANDROID_PROPERTY_WORKSPACE'' (show_int fd @ '','' @ show_nat PA_SIZE) s))"

definition service_child :: "env \<Rightarrow> service \<Rightarrow> string option \<Rightarrow> bool \<Rightarrow> init \<Rightarrow> init option" where
  "service_child E svc dynamic_args needs_console s =
     (case (if property_area_inited s then workspace_env E s else Some s) of
        None \<Rightarrow> None
      | Some s \<Rightarrow>
     (case add_envvars E (envvars svc) s of
        None \<Rightarrow> None
      | Some s \<Rightarrow>
     (case create_sockets E (sockets svc) s of
        None \<Rightarrow> None
      | Some s \<Rightarrow>
          let s = (if ioprio_class svc \<noteq> IoSchedClass_NONE
                   then do_syscall E (Ioprio_set (ioprio_class svc) (ioprio_pri svc)) s else s);
              s = (if needs_console then open_console E (do_syscall E Setsid s) else zap_stdio E s);
              s = do_syscall E Setpgid s;
              s = set_credentials E svc s;
              argv = (case dynamic_args of
                        None \<Rightarrow> svc_args svc
                      | Some d \<Rightarrow> add_words (svc_args svc) (split_words d));
              s = do_syscall E (Execve (svc_args svc ! 0) argv (ENV s)) s
          in Some (do_syscall E (Exit 127) s))))"

section \<open>Starting and stopping\<close>

definition set_flags :: "nat \<Rightarrow> u32 \<Rightarrow> init \<Rightarrow> init" where
  "set_flags i f s = update_service i (\<lambda>svc. svc\<lparr>flags := flags svc OR f\<rparr>) s"

definition clear_flags :: "nat \<Rightarrow> u32 \<Rightarrow> init \<Rightarrow> init" where
  "clear_flags i f s = update_service i (\<lambda>svc. svc\<lparr>flags := flags svc AND NOT f\<rparr>) s"

definition has_flag :: "nat \<Rightarrow> u32 \<Rightarrow> init \<Rightarrow> bool" where
  "has_flag i f s \<longleftrightarrow> flags (services s ! i) AND f \<noteq> 0"

definition service_start :: "env \<Rightarrow> nat \<Rightarrow> string option \<Rightarrow> init \<Rightarrow> init option" where
  "service_start E i dynamic_args s =
     (let s = clear_flags i (SVC_DISABLED OR SVC_RESTARTING) s;
          s = update_service i (\<lambda>svc. svc\<lparr>time_started := 0\<rparr>) s in
      if has_flag i SVC_RUNNING s then Some s
      else if has_flag i SVC_CONSOLE s \<and> \<not> have_console s then Some (set_flags i SVC_DISABLED s)
      else
        let (r, s) = syscall E (Stat (svc_args (services s ! i) ! 0)) s in
        if r \<noteq> 0 then Some (set_flags i SVC_DISABLED s)
        else if \<not> has_flag i SVC_ONESHOT s \<and> dynamic_args \<noteq> None then Some (set_flags i SVC_DISABLED s)
        else
          let (pid, s) = syscall E Fork s in
          if pid = 0 then None
          else if pid < 0 then Some (update_service i (\<lambda>svc. svc\<lparr>svc_pid := 0\<rparr>) s)
          else
            let (now, s) = gettime E s;
                s = update_service i (\<lambda>svc. svc\<lparr>time_started := now\<rparr>) s;
                s = update_service i (\<lambda>svc. svc\<lparr>svc_pid := pid\<rparr>) s;
                s = set_flags i SVC_RUNNING s in
            if property_area_inited s then notify_service_state E (svc_name (services s ! i)) ''running'' s
            else Some s)"

abbreviation (input) SIGKILL :: int where "SIGKILL \<equiv> 9"
abbreviation (input) SIGTERM :: int where "SIGTERM \<equiv> 15"

definition service_stop :: "env \<Rightarrow> nat \<Rightarrow> init \<Rightarrow> init option" where
  "service_stop E i s =
     (let s = clear_flags i (SVC_RUNNING OR SVC_RESTARTING) s;
          s = set_flags i SVC_DISABLED s;
          svc = services s ! i in
      if svc_pid svc \<noteq> 0 then
        notify_service_state E (svc_name svc) ''stopping'' (do_syscall E (Kill (- svc_pid svc) SIGTERM) s)
      else notify_service_state E (svc_name svc) ''stopped'' s)"

definition restart_service_if_needed :: "env \<Rightarrow> nat \<Rightarrow> init \<Rightarrow> init option" where
  "restart_service_if_needed E i s =
     (let next_start_time = time_started (services s ! i) + 5;
          (now, s) = gettime E s in
      if next_start_time \<le> now then service_start E i None (clear_flags i SVC_RESTARTING s)
      else if next_start_time < process_needs_restart s \<or> process_needs_restart s = 0
      then Some (s\<lparr>process_needs_restart := next_start_time\<rparr>)
      else Some s)"

definition restart_processes :: "env \<Rightarrow> init \<Rightarrow> init option" where
  "restart_processes E s =
     service_for_each_flags SVC_RESTARTING (restart_service_if_needed E) (s\<lparr>process_needs_restart := 0\<rparr>)"

definition msg_start :: "env \<Rightarrow> string \<Rightarrow> init \<Rightarrow> init option" where
  "msg_start E name s =
     (let (svc, args) =
            (case strchr name CHR '':'' of
               None \<Rightarrow> (service_find_by_name name s, None)
             | Some rest \<Rightarrow> (service_find_by_name (take (length name - length rest) name) s, Some (drop 1 rest)))
      in case svc of
           Some i \<Rightarrow> service_start E i args s
         | None \<Rightarrow> Some s)"

definition msg_stop :: "env \<Rightarrow> string \<Rightarrow> init \<Rightarrow> init option" where
  "msg_stop E name s =
     (case service_find_by_name name s of
        Some i \<Rightarrow> service_stop E i s
      | None \<Rightarrow> Some s)"

definition handle_control_message :: "env \<Rightarrow> string \<Rightarrow> string \<Rightarrow> init \<Rightarrow> init option" where
  "handle_control_message E msg arg s =
     (if msg = ''start'' then msg_start E arg s
      else if msg = ''stop'' then msg_stop E arg s
      else Some s)"

text \<open>The parent side of \<^verbatim>\<open>wait_for_service\<close>.\<close>

definition wait_for_service :: "env \<Rightarrow> string \<Rightarrow> init \<Rightarrow> (int \<times> init) option" where
  "wait_for_service E filename s =
     (let (r, s) = syscall E (Stat filename) s in
      if r \<noteq> 0 then Some (-1, s)
      else
        let (pid, s) = syscall E Fork s in
        if pid = 0 then None
        else if pid < 0 then Some (-1, s)
        else
          let (r, s) = syscall E (Waitpid_for pid) s in
          if r < 0 then Some (-1, s) else Some (0, s))"

section \<open>Keychords\<close>

text \<open>The buffer \<^verbatim>\<open>keychords\<close> is the list of its entries, \<open>None\<close> for the null pointer.  The fields of an entry
  have 16 bits.\<close>

definition add_service_keycodes :: "env \<Rightarrow> nat \<Rightarrow> init \<Rightarrow> init option" where
  "add_service_keycodes E i s =
     (case keycodes (services s ! i) of
        None \<Rightarrow> Some s
      | Some codes \<Rightarrow>
          if \<not> mem_ok E (allocs s) then
            Some (s\<lparr>allocs := allocs s + 1, keychords := None, keychords_count := 0\<rparr>)
          else
            let kid = (keychords_count s + 1) mod 65536;
                old = (case keychords s of None \<Rightarrow> [] | Some ks \<Rightarrow> ks);
                s = update_service i (\<lambda>svc. svc\<lparr>keychord_id := kid\<rparr>) s in
            Some (s\<lparr>allocs := allocs s + 1, keychords := 
                       Some (old @ [(kid, map (\<lambda>c. c mod 65536) (take (nkeycodes (services s ! i)) codes))]),
                     keychords_count := keychords_count s + 1\<rparr>))"

definition keychord_init :: "env \<Rightarrow> init \<Rightarrow> init option" where
  "keychord_init E s =
     (case service_for_each (add_service_keycodes E) s of
        None \<Rightarrow> None
      | Some s \<Rightarrow>
          (case keychords s of
             None \<Rightarrow> Some s
           | Some ks \<Rightarrow>
               let (fd, s) = syscall E (Open ''/dev/keychord'') s in
               if fd < 0 then Some s
               else
                 let (ret, s) = syscall E (Write_keychords fd ks) s;
                     fd = (if ret \<noteq> keychords_length ks then -1 else fd)
                 in Some (s\<lparr>keychords := None, keychord_fd := fd\<rparr>)))"

text \<open>\<open>kid\<close> is what \<^verbatim>\<open>read\<close> puts into the 16-bit \<^verbatim>\<open>id\<close>, \<open>None\<close> if it fails.\<close>

definition handle_keychord :: "env \<Rightarrow> int option \<Rightarrow> init \<Rightarrow> init option" where
  "handle_keychord E kid s =
     (let debuggable = property_get E ''ro.debuggable'' s;
          adb_enabled = property_get E ''init.svc.adbd'' s in
      case kid of
        None \<Rightarrow> Some s
      | Some kid \<Rightarrow>
          if debuggable = Some ''1'' \<or> adb_enabled = Some ''running'' then
            (case service_find_by_keychord kid s of
               Some i \<Rightarrow> service_start E i None s
             | None \<Rightarrow> Some s)
          else Some s)"

end
