(* ===== verification/Init_Builtins.thy ===== *)
theory Init_Builtins
  imports Init_Service "HOL-Library.Char_ord"
begin

text \<open>
  The commands of \<^verbatim>\<open>src/core/init/builtins.c\<close>.  A command gets its \<open>nargs\<close> arguments as a list; reading a cell
  behind them is undefined (\<open>None\<close>).  The result is what the function returns, and the new state.  The
  commands \<^verbatim>\<open>ifup\<close> and \<^verbatim>\<open>copy\<close> act on the kernel and on files only and are recorded as one external event.
\<close>

type_synonym result = "(int \<times> init) option"

definition arg :: "string list \<Rightarrow> nat \<Rightarrow> string option" where
  "arg args i = (if i < length args then Some (args ! i) else None)"

text \<open>\<^verbatim>\<open>with_arg args i f\<close>: \<open>f\<close> applied to \<^verbatim>\<open>args[i]\<close>.\<close>

definition with_arg :: "string list \<Rightarrow> nat \<Rightarrow> (string \<Rightarrow> 'a option) \<Rightarrow> 'a option" where
  "with_arg args i f = (case arg args i of None \<Rightarrow> None | Some a \<Rightarrow> f a)"

definition returns :: "int \<Rightarrow> init option \<Rightarrow> result" where
  "returns r res = (case res of None \<Rightarrow> None | Some s \<Rightarrow> Some (r, s))"

section \<open>Helpers\<close>

text \<open>The result of a system call that failed is \<^verbatim>\<open>-errno\<close>.\<close>

definition write_file :: "env \<Rightarrow> string \<Rightarrow> string \<Rightarrow> init \<Rightarrow> int \<times> init" where
  "write_file E path val s =
     (let (fd, s) = syscall E (Open path) s in
      if fd < 0 then (fd, s)
      else
        let (ret, s) = syscall E (Write fd val) s in
        if ret < 0 then (ret, s) else (0, s))"

definition insmod :: "env \<Rightarrow> string \<Rightarrow> string \<Rightarrow> init \<Rightarrow> int \<times> init" where
  "insmod E filename options s =
     (case sys_file E (trace s) filename of
        None \<Rightarrow> (-1, s)
      | Some module \<Rightarrow> syscall E (Init_module filename options) s)"

definition setkey :: "env \<Rightarrow> u32 \<Rightarrow> u32 \<Rightarrow> u32 \<Rightarrow> init \<Rightarrow> int \<times> init" where
  "setkey E kb_table kb_index kb_value s =
     (let (fd, s) = syscall E (Open ''/dev/tty0'') s in
      if fd < 0 then (-1, s) else syscall E (Set_key kb_table kb_index kb_value) s)"

definition service_start_if_not_disabled :: "env \<Rightarrow> nat \<Rightarrow> init \<Rightarrow> init option" where
  "service_start_if_not_disabled E i s =
     (if \<not> has_flag i SVC_DISABLED s then service_start E i None s else Some s)"

text \<open>The loops of \<^verbatim>\<open>do_insmod_inner\<close> and \<^verbatim>\<open>do_insmod\<close>: the option string and the size of its buffer.\<close>

fun join_options :: "string \<Rightarrow> string list \<Rightarrow> string" where
  "join_options options [] = options"
| "join_options options (a # as) = join_options (options @ '' '' @ a) as"

fun options_size :: "string list \<Rightarrow> nat" where
  "options_size [] = 0"
| "options_size (a # as) = length a + 1 + options_size as"

definition MS_RDONLY :: u32 where "MS_RDONLY = 1"

definition mount_flags :: "(string \<times> u32) list" where
  "mount_flags =
     [(''move'', 8192), (''noatime'', 1024), (''nosuid'', 2), (''nodev'', 4), (''nodiratime'', 2048),
      (''ro'', MS_RDONLY), (''rw'', 0), (''remount'', 32), (''defaults'', 0)]"

text \<open>The loop over the words from the fifth on: flags, \<^verbatim>\<open>wait\<close> and the option string.\<close>

fun mount_words :: "string list \<Rightarrow> u32 \<Rightarrow> bool \<Rightarrow> string option \<Rightarrow> u32 \<times> bool \<times> string option" where
  "mount_words [] fl wait options = (fl, wait, options)"
| "mount_words (a # as) fl wait options =
     (case map_of mount_flags a of
        Some f \<Rightarrow> mount_words as (fl OR f) wait options
      | None \<Rightarrow>
          if a = ''wait'' then mount_words as fl True options
          else if as = [] then mount_words as fl wait (Some a)
          else mount_words as fl wait options)"

definition mount_at ::
  "env \<Rightarrow> bool \<Rightarrow> string \<Rightarrow> string \<Rightarrow> string \<Rightarrow> u32 \<Rightarrow> string option \<Rightarrow> init \<Rightarrow> int \<times> init" where
  "mount_at E wait source target system fl options s =
     (let s = (if wait then do_syscall E (Wait_for_file source 5) s else s);
          (r, s) = syscall E (Mount source target system fl options) s
      in if r < 0 then (-1, s) else (0, s))"

abbreviation (input) ENXIO :: int where "ENXIO \<equiv> 6"

text \<open>The search for a free loop device; the first argument is the number of devices that are left.\<close>

fun mount_loop ::
  "nat \<Rightarrow> nat \<Rightarrow> env \<Rightarrow> int \<Rightarrow> string \<Rightarrow> string \<Rightarrow> u32 \<Rightarrow> string option \<Rightarrow> init \<Rightarrow> int \<times> init" where
  "mount_loop 0 n E fd target system fl options s =
     (-1, do_syscall E (Open (''/dev/block/loop'' @ show_nat n)) s)"
| "mount_loop (Suc k) n E fd target system fl options s =
     (let tmp = ''/dev/block/loop'' @ show_nat n;
          (loop, s) = syscall E (Open tmp) s in
      if loop < 0 then (-1, s)
      else
        let (r, s) = syscall E (Loop_get_status loop) s in
        if r < 0 \<and> - r = ENXIO then
          let (r, s) = syscall E (Loop_set_fd loop fd) s in
          if r \<ge> 0 then
            let (r, s) = syscall E (Mount tmp target system fl options) s in
            if r < 0 then (-1, do_syscall E (Loop_clr_fd loop) s) else (0, s)
          else mount_loop k (n + 1) E fd target system fl options s
        else mount_loop k (n + 1) E fd target system fl options s)"

fun get_mode :: "u32 \<Rightarrow> string \<Rightarrow> u32" where
  "get_mode mode [] = mode"
| "get_mode mode (c # s) =
     (if CHR ''0'' \<le> c \<and> c \<le> CHR ''7'' then get_mode (push_bit 3 mode OR of_nat (of_char c - 48)) s else -1)"

section \<open>Commands\<close>

definition do_chdir :: "env \<Rightarrow> string list \<Rightarrow> init \<Rightarrow> result" where
  "do_chdir E args s = with_arg args 1 (\<lambda>a. Some (0, do_syscall E (Chdir a) s))"

definition do_chroot :: "env \<Rightarrow> string list \<Rightarrow> init \<Rightarrow> result" where
  "do_chroot E args s = with_arg args 1 (\<lambda>a. Some (0, do_syscall E (Chroot a) s))"

definition do_class_start :: "env \<Rightarrow> string list \<Rightarrow> init \<Rightarrow> result" where
  "do_class_start E args s =
     with_arg args 1 (\<lambda>a. returns 0 (service_for_each_class a (service_start_if_not_disabled E) s))"

definition do_class_stop :: "env \<Rightarrow> string list \<Rightarrow> init \<Rightarrow> result" where
  "do_class_stop E args s = with_arg args 1 (\<lambda>a. returns 0 (service_for_each_class a (service_stop E) s))"

definition do_domainname :: "env \<Rightarrow> string list \<Rightarrow> init \<Rightarrow> result" where
  "do_domainname E args s = with_arg args 1 (\<lambda>a. Some (write_file E ''/proc/sys/kernel/domainname'' a s))"

definition do_exec :: "env \<Rightarrow> string list \<Rightarrow> init \<Rightarrow> result" where
  "do_exec E args s = with_arg args 1 (\<lambda>a. wait_for_service E a s)"

definition do_export :: "env \<Rightarrow> string list \<Rightarrow> init \<Rightarrow> result" where
  "do_export E args s =
     with_arg args 1 (\<lambda>key. with_arg args 2 (\<lambda>val. returns 0 (map_option snd (add_environment E key val s))))"

definition do_hostname :: "env \<Rightarrow> string list \<Rightarrow> init \<Rightarrow> result" where
  "do_hostname E args s = with_arg args 1 (\<lambda>a. Some (write_file E ''/proc/sys/kernel/hostname'' a s))"

definition do_insmod_inner :: "env \<Rightarrow> string list \<Rightarrow> nat \<Rightarrow> init \<Rightarrow> result" where
  "do_insmod_inner E args opt_len s =
     (let options = (if length args > 2 then join_options (args ! 2) (drop 3 args) else []) in
      if length options \<ge> opt_len + 1 then None
      else with_arg args 1 (\<lambda>a. Some (insmod E a options s)))"

definition do_insmod :: "env \<Rightarrow> string list \<Rightarrow> init \<Rightarrow> result" where
  "do_insmod E args s =
     (let size = (if length args > 2 then options_size (drop 2 args) else 0)
      in do_insmod_inner E args size s)"

definition do_import :: "env \<Rightarrow> string list \<Rightarrow> init \<Rightarrow> result" where
  "do_import E args s =
     with_arg args 1 (\<lambda>a. init_parse_config_file (mem_ok E) (sys_file E (trace s)) a s)"

definition do_mkdir :: "env \<Rightarrow> string list \<Rightarrow> init \<Rightarrow> result" where
  "do_mkdir E args s =
     (let nargs = length args;
          mode = (if nargs \<ge> 3 then fst (strtoul (args ! 2) 8) else oct 0 7 5 5) in
      with_arg args 1 (\<lambda>path.
        let (r, s) = syscall E (Mkdir path mode) s in
        if r \<noteq> 0 then Some (r, s)
        else if nargs \<ge> 4 then
          let uid = decode_uid (args ! 3);
              gid = (if nargs = 5 then decode_uid (args ! 4) else -1);
              (r, s) = syscall E (Chown path uid gid) s in
          if r \<noteq> 0 then Some (r, s) else Some (0, s)
        else Some (0, s)))"

definition do_mount :: "env \<Rightarrow> string list \<Rightarrow> init \<Rightarrow> result" where
  "do_mount E args s =
     (let (fl, wait, options) = mount_words (drop 4 args) 0 False None in
      with_arg args 1 (\<lambda>system. with_arg args 2 (\<lambda>source. with_arg args 3 (\<lambda>target.
        if has_prefix ''mtd@'' source then
          let n = mtd_name_to_number E (drop 4 source) in
          if n < 0 then Some (-1, s)
          else Some (mount_at E wait (''/dev/block/mtdblock'' @ show_int n) target system fl options s)
        else if has_prefix ''loop@'' source then
          let (fd, s) = syscall E (Open (drop 5 source)) s in
          if fd < 0 then Some (-1, s)
          else Some (mount_loop (loop_devices E) 0 E fd target system fl options s)
        else Some (mount_at E wait source target system fl options s)))))"

definition do_setkey :: "env \<Rightarrow> string list \<Rightarrow> init \<Rightarrow> result" where
  "do_setkey E args s =
     with_arg args 1 (\<lambda>a. with_arg args 2 (\<lambda>b. with_arg args 3 (\<lambda>c.
       Some (setkey E (fst (strtoul a 0)) (fst (strtoul b 0)) (fst (strtoul c 0)) s))))"

definition do_setprop :: "env \<Rightarrow> string list \<Rightarrow> init \<Rightarrow> result" where
  "do_setprop E args s =
     with_arg args 1 (\<lambda>name. with_arg args 2 (\<lambda>val. returns 0 (set_property E name val s)))"

definition do_setrlimit :: "env \<Rightarrow> string list \<Rightarrow> init \<Rightarrow> result" where
  "do_setrlimit E args s =
     with_arg args 1 (\<lambda>a. with_arg args 2 (\<lambda>b. with_arg args 3 (\<lambda>c.
       Some (syscall E (Setrlimit (atoi a) (atoi b) (atoi c)) s))))"

definition do_start :: "env \<Rightarrow> string list \<Rightarrow> init \<Rightarrow> result" where
  "do_start E args s =
     with_arg args 1 (\<lambda>a.
       case service_find_by_name a s of
         Some i \<Rightarrow> returns 0 (service_start E i None s)
       | None \<Rightarrow> Some (0, s))"

definition do_stop :: "env \<Rightarrow> string list \<Rightarrow> init \<Rightarrow> result" where
  "do_stop E args s =
     with_arg args 1 (\<lambda>a.
       case service_find_by_name a s of
         Some i \<Rightarrow> returns 0 (service_stop E i s)
       | None \<Rightarrow> Some (0, s))"

definition do_restart :: "env \<Rightarrow> string list \<Rightarrow> init \<Rightarrow> result" where
  "do_restart E args s =
     with_arg args 1 (\<lambda>a.
       case service_find_by_name a s of
         Some i \<Rightarrow>
           (case service_stop E i s of
              None \<Rightarrow> None
            | Some s \<Rightarrow> returns 0 (service_start E i None s))
       | None \<Rightarrow> Some (0, s))"

definition do_trigger :: "env \<Rightarrow> string list \<Rightarrow> init \<Rightarrow> result" where
  "do_trigger E args s = with_arg args 1 (\<lambda>a. Some (0, action_for_each_trigger a add_queue_tail s))"

definition do_symlink :: "env \<Rightarrow> string list \<Rightarrow> init \<Rightarrow> result" where
  "do_symlink E args s = with_arg args 1 (\<lambda>a. with_arg args 2 (\<lambda>b. Some (syscall E (Symlink a b) s)))"

definition do_sysclktz :: "env \<Rightarrow> string list \<Rightarrow> init \<Rightarrow> result" where
  "do_sysclktz E args s =
     (if length args \<noteq> 2 then Some (-1, s)
      else
        let (r, s) = syscall E (Settimezone (atoi (args ! 1))) s in
        if r \<noteq> 0 then Some (-1, s) else Some (0, s))"

definition do_write :: "env \<Rightarrow> string list \<Rightarrow> init \<Rightarrow> result" where
  "do_write E args s = with_arg args 1 (\<lambda>path. with_arg args 2 (\<lambda>val. Some (write_file E path val s)))"

definition do_chown :: "env \<Rightarrow> string list \<Rightarrow> init \<Rightarrow> result" where
  "do_chown E args s =
     (if length args = 3 then
        let (r, s) = syscall E (Chown (args ! 2) (decode_uid (args ! 1)) (-1)) s in
        if r < 0 then Some (r, s) else Some (0, s)
      else if length args = 4 then
        let (r, s) = syscall E (Chown (args ! 3) (decode_uid (args ! 1)) (decode_uid (args ! 2))) s in
        if r \<noteq> 0 then Some (r, s) else Some (0, s)
      else Some (-1, s))"

definition do_chmod :: "env \<Rightarrow> string list \<Rightarrow> init \<Rightarrow> result" where
  "do_chmod E args s =
     with_arg args 1 (\<lambda>m. with_arg args 2 (\<lambda>path.
       let (r, s) = syscall E (Chmod path (get_mode 0 m)) s in
       if r < 0 then Some (r, s) else Some (0, s)))"

definition do_loglevel :: "env \<Rightarrow> string list \<Rightarrow> init \<Rightarrow> result" where
  "do_loglevel E args s =
     (if length args = 2 then Some (0, s\<lparr>log_level := atoi (args ! 1)\<rparr>) else Some (-1, s))"

definition do_wait :: "env \<Rightarrow> string list \<Rightarrow> init \<Rightarrow> result" where
  "do_wait E args s =
     (if length args = 2 then Some (syscall E (Wait_for_file (args ! 1) 5) s) else Some (-1, s))"

text \<open>The call of \<^verbatim>\<open>cmd->func\<close> for a command from a file; a keyword that is no command has no function.\<close>

definition do_keyword :: "env \<Rightarrow> keyword \<Rightarrow> string list \<Rightarrow> init \<Rightarrow> result" where
  "do_keyword E kw args s =
     (case kw of
        K_chdir \<Rightarrow> do_chdir E args s
      | K_chroot \<Rightarrow> do_chroot E args s
      | K_class_start \<Rightarrow> do_class_start E args s
      | K_class_stop \<Rightarrow> do_class_stop E args s
      | K_domainname \<Rightarrow> do_domainname E args s
      | K_exec \<Rightarrow> do_exec E args s
      | K_export \<Rightarrow> do_export E args s
      | K_hostname \<Rightarrow> do_hostname E args s
      | K_ifup \<Rightarrow> Some (syscall E (External K_ifup args) s)
      | K_insmod \<Rightarrow> do_insmod E args s
      | K_import \<Rightarrow> do_import E args s
      | K_mkdir \<Rightarrow> do_mkdir E args s
      | K_mount \<Rightarrow> do_mount E args s
      | K_restart \<Rightarrow> do_restart E args s
      | K_setkey \<Rightarrow> do_setkey E args s
      | K_setprop \<Rightarrow> do_setprop E args s
      | K_setrlimit \<Rightarrow> do_setrlimit E args s
      | K_start \<Rightarrow> do_start E args s
      | K_stop \<Rightarrow> do_stop E args s
      | K_trigger \<Rightarrow> do_trigger E args s
      | K_symlink \<Rightarrow> do_symlink E args s
      | K_sysclktz \<Rightarrow> do_sysclktz E args s
      | K_wait \<Rightarrow> do_wait E args s
      | K_write \<Rightarrow> do_write E args s
      | K_copy \<Rightarrow> Some (syscall E (External K_copy args) s)
      | K_chown \<Rightarrow> do_chown E args s
      | K_chmod \<Rightarrow> do_chmod E args s
      | K_loglevel \<Rightarrow> do_loglevel E args s
      | _ \<Rightarrow> None)"

end
