(* ===== verification/Init_Boot.thy ===== *)
theory Init_Boot
  imports Init_Builtins
begin

text \<open>
  The life of \<^verbatim>\<open>init\<close>: reaping children (\<^verbatim>\<open>src/core/init/signal_handler.c\<close>), requests on the property socket, the
  kernel command line, the actions that \<^verbatim>\<open>main\<close> queues, and the main loop (\<^verbatim>\<open>init.c\<close>).  \<open>None\<close> is undefined
  behaviour or the end of the process.
\<close>

section \<open>Boot parameters\<close>

definition set_boot :: "(boot_params \<Rightarrow> boot_params) \<Rightarrow> init \<Rightarrow> init" where
  "set_boot f s = s\<lparr>boot := f (boot s)\<rparr>"

text \<open>\<^verbatim>\<open>strlcpy\<close> into an array of 32 bytes.\<close>

definition strlcpy32 :: "string \<Rightarrow> string" where
  "strlcpy32 val = take 31 val"

definition import_kernel_nv :: "env \<Rightarrow> string \<Rightarrow> bool \<Rightarrow> init \<Rightarrow> init option" where
  "import_kernel_nv E name in_qemu s =
     (case strchr name CHR ''='' of
        None \<Rightarrow> Some (if name = ''calibration'' then set_boot (\<lambda>b. b\<lparr>bp_calibration := True\<rparr>) s else s)
      | Some eq \<Rightarrow>
          let val = drop 1 eq; name = take (length name - length eq) name in
          if name = [] then Some s
          else if \<not> in_qemu then
            Some (if name = ''qemu'' then set_boot (\<lambda>b. b\<lparr>bp_qemu := strlcpy32 val\<rparr>) s
             else if name = ''androidboot.console'' then set_boot (\<lambda>b. b\<lparr>bp_console := strlcpy32 val\<rparr>) s
             else if name = ''androidboot.mode'' then set_boot (\<lambda>b. b\<lparr>bp_bootmode := strlcpy32 val\<rparr>) s
             else if name = ''androidboot.serialno'' then set_boot (\<lambda>b. b\<lparr>bp_serialno := strlcpy32 val\<rparr>) s
             else if name = ''androidboot.baseband'' then set_boot (\<lambda>b. b\<lparr>bp_baseband := strlcpy32 val\<rparr>) s
             else if name = ''androidboot.carrier'' then set_boot (\<lambda>b. b\<lparr>bp_carrier := strlcpy32 val\<rparr>) s
             else if name = ''androidboot.bootloader'' then set_boot (\<lambda>b. b\<lparr>bp_bootloader := strlcpy32 val\<rparr>) s
             else if name = ''androidboot.hardware'' then set_boot (\<lambda>b. b\<lparr>bp_hardware := strlcpy32 val\<rparr>) s
             else s)
          else
            let buff = ''ro.kernel.'' @ name in
            if length buff < 32 then set_property E buff val s else Some s)"

function import_words :: "env \<Rightarrow> string \<Rightarrow> bool \<Rightarrow> init \<Rightarrow> init option" where
  "import_words E p in_qemu s =
     (if p = [] then Some s
      else case strchr p CHR '' '' of
        None \<Rightarrow> import_kernel_nv E p in_qemu s
      | Some x \<Rightarrow>
          (case import_kernel_nv E (take (length p - length x) p) in_qemu s of
             None \<Rightarrow> None
           | Some s \<Rightarrow> import_words E (drop 1 x) in_qemu s))"
  by pat_completeness auto
termination
  by (relation "measure (\<lambda>(E, p, q, s). length p)") (auto simp: strchr_Some_iff)

declare import_words.simps [simp del]

definition import_kernel_cmdline :: "env \<Rightarrow> bool \<Rightarrow> init \<Rightarrow> init option" where
  "import_kernel_cmdline E in_qemu s =
     (let cmdline = (case sys_file E (trace s) ''/proc/cmdline'' of
                       None \<Rightarrow> []
                     | Some data \<Rightarrow>
                         let data = take 1023 data in
                         if data \<noteq> [] \<and> last data = LF then butlast data else data)
      in map_option (do_syscall E (Chmod ''/proc/cmdline'' (oct 0 4 4 0))) (import_words E (cstr cmdline) in_qemu s))"

fun strstr :: "string \<Rightarrow> string \<Rightarrow> string option" where
  "strstr [] pat = (if pat = [] then Some [] else None)"
| "strstr (c # cs) pat = (if has_prefix pat (c # cs) then Some (c # cs) else strstr cs pat)"

definition c_tolower :: "char \<Rightarrow> char" where
  "c_tolower c = (if 65 \<le> (of_char c :: nat) \<and> (of_char c :: nat) \<le> 90 then char_of (of_char c + 32 :: nat) else c)"

definition get_hardware_name :: "env \<Rightarrow> init \<Rightarrow> init" where
  "get_hardware_name E s =
     (if bp_hardware (boot s) \<noteq> [] then s
      else case sys_file E (trace s) ''/proc/cpuinfo'' of
        None \<Rightarrow> s
      | Some data \<Rightarrow>
          let data = cstr (take 1023 data);
              hw = strstr data (LF # ''Hardware'');
              rv = strstr data (LF # ''Revision'');
              s = (case hw of None \<Rightarrow> s | Some hw \<Rightarrow>
                    (case strstr hw '': '' of None \<Rightarrow> s | Some x \<Rightarrow>
                       set_boot (\<lambda>b. b\<lparr>bp_hardware :=
                         map c_tolower (take 31 (takeWhile (\<lambda>c. \<not> c_isspace c) (drop 2 x)))\<rparr>) s))
          in (case rv of None \<Rightarrow> s | Some rv \<Rightarrow>
                (case strstr rv '': '' of None \<Rightarrow> s | Some x \<Rightarrow>
                   set_boot (\<lambda>b. b\<lparr>bp_revision := fst (strtoul (drop 2 x) 16)\<rparr>) s)))"

section \<open>Commands and reaping\<close>

definition run_keyword_command :: "env \<Rightarrow> command \<Rightarrow> init \<Rightarrow> result" where
  "run_keyword_command E cmd s =
     (case cmd_func cmd of Do kw \<Rightarrow> do_keyword E kw (cmd_args cmd) s | Boot b \<Rightarrow> None)"

definition CRITICAL_CRASH_THRESHOLD :: int where "CRITICAL_CRASH_THRESHOLD = 4"
definition CRITICAL_CRASH_WINDOW :: int where "CRITICAL_CRASH_WINDOW = 4 * 60"

fun unlink_sockets :: "env \<Rightarrow> socketinfo list \<Rightarrow> init \<Rightarrow> init" where
  "unlink_sockets E [] s = s"
| "unlink_sockets E (si # sis) s =
     unlink_sockets E sis (do_syscall E (Unlink (take 127 (''/dev/socket/'' @ si_name si))) s)"

fun run_commands :: "env \<Rightarrow> command list \<Rightarrow> init \<Rightarrow> init option" where
  "run_commands E [] s = Some s"
| "run_commands E (cmd # cmds) s =
     (case run_keyword_command E cmd s of None \<Rightarrow> None | Some (r, s) \<Rightarrow> run_commands E cmds s)"

definition wait_for_one_process :: "env \<Rightarrow> init \<Rightarrow> result" where
  "wait_for_one_process E s =
     (let (pid, s) = syscall E Waitpid s in
      if pid \<le> 0 then Some (-1, s)
      else case service_find_by_pid pid s of
        None \<Rightarrow> Some (0, s)
      | Some i \<Rightarrow>
          let s = (if \<not> has_flag i SVC_ONESHOT s then do_syscall E (Kill (- pid) SIGKILL) s else s);
              s = unlink_sockets E (sockets (services s ! i)) s;
              s = update_service i (\<lambda>svc. svc\<lparr>svc_pid := 0\<rparr>) s;
              s = clear_flags i SVC_RUNNING s;
              s = (if has_flag i SVC_ONESHOT s then set_flags i SVC_DISABLED s else s) in
          if has_flag i SVC_DISABLED s then
            returns 0 (notify_service_state E (svc_name (services s ! i)) ''stopped'' s)
          else
            let (now, s) = gettime E s;
                critical = has_flag i SVC_CRITICAL s;
                inside = time_crashed (services s ! i) + CRITICAL_CRASH_WINDOW \<ge> now;
                s = (if critical then
                       if inside then update_service i (\<lambda>svc. svc\<lparr>nr_crashed := nr_crashed svc + 1\<rparr>) s
                       else update_service i (\<lambda>svc. svc\<lparr>time_crashed := now, nr_crashed := 1\<rparr>) s
                     else s) in
            if critical \<and> inside \<and> nr_crashed (services s ! i) > CRITICAL_CRASH_THRESHOLD then
              Some (0, do_syscall E (Reboot ''recovery'') (do_syscall E Sync s))
            else
              let s = set_flags i SVC_RESTARTING s in
              case run_commands E (onrestart (services s ! i)) s of
                None \<Rightarrow> None
              | Some s \<Rightarrow> returns 0 (notify_service_state E (svc_name (services s ! i)) ''restarting'' s))"

partial_function (option) handle_signal :: "env \<Rightarrow> init \<Rightarrow> init option" where
  "handle_signal E s =
     (case wait_for_one_process E s of
        None \<Rightarrow> None
      | Some (r, s) \<Rightarrow> if r = 0 then handle_signal E s else Some s)"

section \<open>Requests to the property service\<close>

text \<open>What \<^verbatim>\<open>accept\<close>, \<^verbatim>\<open>getsockopt\<close> and \<^verbatim>\<open>recv\<close> deliver: the credentials of the peer and the message, whose name and
  value are the bytes of the arrays \<^verbatim>\<open>char name[PROP_NAME_MAX]\<close> and \<^verbatim>\<open>char value[PROP_VALUE_MAX]\<close>.\<close>

record prop_msg =
  msg_setprop :: bool   \<comment> \<open>\<^verbatim>\<open>cmd == PROP_MSG_SETPROP\<close>\<close>
  msg_name :: string
  msg_value :: string

record connection =
  accepted :: bool
  peer :: "(u32 \<times> u32) option"
  received :: "prop_msg option"

definition handle_property_set_fd :: "env \<Rightarrow> connection \<Rightarrow> init \<Rightarrow> init option" where
  "handle_property_set_fd E conn s =
     (if \<not> accepted conn then Some s
      else case peer conn of
        None \<Rightarrow> Some s
      | Some (uid, gid) \<Rightarrow>
          (case received conn of
             None \<Rightarrow> Some s
           | Some msg \<Rightarrow>
               if msg_setprop msg then
                 let name = (msg_name msg)[PROP_NAME_MAX E - 1 := NUL];
                     val = (msg_value msg)[PROP_VALUE_MAX E - 1 := NUL] in
                 if take 4 name = ''ctl.'' then
                   if check_control_perms (cstr val) uid gid
                   then handle_control_message E (cstr (drop 4 name)) (cstr val) s
                   else Some s
                 else
                   if check_perms (cstr name) uid gid then set_property E (cstr name) (cstr val) s
                   else Some s
               else Some s))"

section \<open>The actions that main queues\<close>

definition do_console_init :: "env \<Rightarrow> init \<Rightarrow> init option" where
  "do_console_init E s =
     (let s = (if bp_console (boot s) \<noteq> []
               then s\<lparr>console_name := take (PROP_VALUE_MAX E - 1) (''/dev/'' @ bp_console (boot s))\<rparr> else s);
          (fd, s) = syscall E (Open (console_name s)) s;
          s = (if fd \<ge> 0 then s\<lparr>have_console := True\<rparr> else s);
          (r, s) = syscall E (Load_image ''/initlogo.rle'') s in
      if r \<noteq> 0 then
        let (fd, s) = syscall E (Open ''/dev/tty0'') s in
        if fd \<ge> 0 then Some (do_syscall E (Write_tty fd) s) else Some s
      else Some s)"

fun set_properties :: "env \<Rightarrow> (string \<times> string) list \<Rightarrow> init \<Rightarrow> init option" where
  "set_properties E [] s = Some s"
| "set_properties E ((name, val) # ps) s =
     (case set_property E name val s of None \<Rightarrow> None | Some s \<Rightarrow> set_properties E ps s)"

definition or_unknown :: "string \<Rightarrow> string" where
  "or_unknown val = (if val \<noteq> [] then val else ''unknown'')"

definition init_properties :: "boot_params \<Rightarrow> (string \<times> string) list" where
  "init_properties b =
     [(''ro.factorytest'', if bp_bootmode b = ''factory'' then ''1'' else if bp_bootmode b = ''factory2'' then ''2'' else ''0''),
      (''ro.calibration'', if bp_calibration b then ''1'' else ''0''),
      (''ro.serialno'', bp_serialno b),
      (''ro.bootmode'', or_unknown (bp_bootmode b)),
      (''ro.baseband'', or_unknown (bp_baseband b)),
      (''ro.carrier'', or_unknown (bp_carrier b)),
      (''ro.bootloader'', or_unknown (bp_bootloader b)),
      (''ro.hardware'', bp_hardware b),
      (''ro.revision'', show_int (sint (bp_revision b)))]"

definition do_set_init_properties :: "env \<Rightarrow> init \<Rightarrow> init option" where
  "do_set_init_properties E s =
     (case (if bp_qemu (boot s) \<noteq> [] then import_kernel_cmdline E True s else Some s) of
        None \<Rightarrow> None
      | Some s \<Rightarrow> set_properties E (init_properties (boot s)) s)"

definition signal_init :: "env \<Rightarrow> init \<Rightarrow> init option" where
  "signal_init E s =
     (let (r, s) = syscall E Socketpair s;
          s = (if r = 0 then s\<lparr>signal_recv_fd := snd (pair_fds E (trace s))\<rparr> else s)
      in handle_signal E s)"

definition do_check_startup :: "init \<Rightarrow> init option" where
  "do_check_startup s = (if property_set_fd s < 0 \<or> signal_recv_fd s < 0 then None else Some s)"

definition do_queue_property_triggers :: "env \<Rightarrow> init \<Rightarrow> init" where
  "do_queue_property_triggers E s = (queue_all_property_triggers E s)\<lparr>property_triggers_enabled := True\<rparr>"

definition run_boot_action :: "env \<Rightarrow> boot_action \<Rightarrow> init \<Rightarrow> result" where
  "run_boot_action E b s =
     (case b of
        wait_for_coldboot_done_action \<Rightarrow> Some (syscall E (Wait_for_file ''/dev/.coldboot_done'' 5) s)
      | property_init_action \<Rightarrow> returns 0 (property_init E s)
      | keychord_init_action \<Rightarrow> returns 0 (keychord_init E s)
      | console_init_action \<Rightarrow> returns 0 (do_console_init E s)
      | set_init_properties_action \<Rightarrow> returns 0 (do_set_init_properties E s)
      | property_service_init_action \<Rightarrow> returns 0 (start_property_service E s)
      | signal_init_action \<Rightarrow> returns 0 (signal_init E s)
      | check_startup_action \<Rightarrow> returns 0 (do_check_startup s)
      | queue_property_triggers_action \<Rightarrow> Some (0, do_queue_property_triggers E s))"

definition run_command :: "env \<Rightarrow> command \<Rightarrow> init \<Rightarrow> result" where
  "run_command E cmd s =
     (case cmd_func cmd of
        Do kw \<Rightarrow> do_keyword E kw (cmd_args cmd) s
      | Boot b \<Rightarrow> run_boot_action E b s)"

section \<open>The main loop\<close>

text \<open>\<open>get_first_command\<close> never returns the null pointer: \<^verbatim>\<open>list_head\<close> of an empty list is the list itself, and
  the \<^verbatim>\<open>func\<close> of that object is the null pointer \<^verbatim>\<open>act->current\<close>.  A command is its position in the list.\<close>

definition get_first_command :: "nat \<Rightarrow> init \<Rightarrow> nat option" where
  "get_first_command act s = Some 0"

definition get_next_command :: "nat \<Rightarrow> nat \<Rightarrow> init \<Rightarrow> nat option" where
  "get_next_command act cmd s =
     (if cmd + 1 = length (commands (actions s ! act)) then None else Some (cmd + 1))"

definition is_last_command :: "nat \<Rightarrow> nat \<Rightarrow> init \<Rightarrow> bool" where
  "is_last_command act cmd s = (cmd + 1 = length (commands (actions s ! act)))"

definition execute_one_command :: "env \<Rightarrow> init \<Rightarrow> init option" where
  "execute_one_command E s =
     (let s = (case (cur_action s, cur_command s) of
                 (Some act, Some cmd) \<Rightarrow>
                   if is_last_command act cmd s then s\<lparr>cur_action := None\<rparr>
                   else s\<lparr>cur_command := get_next_command act cmd s\<rparr>
               | _ \<Rightarrow> s\<lparr>cur_action := None\<rparr>);
          s = (if cur_action s = None then
                 let (act, q) = action_remove_queue_head (action_queue s) in
                 s\<lparr>cur_action := act, action_queue := q,
                   cur_command := (case act of None \<Rightarrow> None | Some a \<Rightarrow> get_first_command a s)\<rparr>
               else s) in
      case (cur_action s, cur_command s) of
        (Some act, Some cmd) \<Rightarrow>
          if cmd < length (commands (actions s ! act))
          then map_option snd (run_command E (commands (actions s ! act) ! cmd) s)
          else None
      | _ \<Rightarrow> Some s)"

definition poll_timeout :: "env \<Rightarrow> init \<Rightarrow> int \<times> init" where
  "poll_timeout E s =
     (let (timeout, s) = (if process_needs_restart s \<noteq> 0
                          then let (now, s) = gettime E s in (max 0 ((process_needs_restart s - now) * 1000), s)
                          else (-1, s))
      in (if \<not> action_queue_empty (action_queue s) \<or> cur_action s \<noteq> None then 0 else timeout, s))"

text \<open>A descriptor on which \<^verbatim>\<open>poll\<close> reports input, with what can be read there.\<close>

datatype input = Property_request connection | Keychord "int option" | Child_signal

definition handle_input :: "env \<Rightarrow> input \<Rightarrow> init \<Rightarrow> init option" where
  "handle_input E inp s =
     (case inp of
        Property_request conn \<Rightarrow> if property_set_fd s > 0 then handle_property_set_fd E conn s else Some s
      | Keychord kid \<Rightarrow> if keychord_fd s > 0 then handle_keychord E kid s else Some s
      | Child_signal \<Rightarrow> if signal_recv_fd s > 0 then handle_signal E s else Some s)"

fun handle_inputs :: "env \<Rightarrow> input list \<Rightarrow> init \<Rightarrow> init option" where
  "handle_inputs E [] s = Some s"
| "handle_inputs E (inp # inps) s =
     (case handle_input E inp s of None \<Rightarrow> None | Some s \<Rightarrow> handle_inputs E inps s)"

definition main_iteration :: "env \<Rightarrow> input list \<Rightarrow> init \<Rightarrow> init option" where
  "main_iteration E inps s =
     (case execute_one_command E s of
        None \<Rightarrow> None
      | Some s \<Rightarrow>
          (case restart_processes E s of
             None \<Rightarrow> None
           | Some s \<Rightarrow> handle_inputs E inps (snd (poll_timeout E s))))"

text \<open>The steps of \<^verbatim>\<open>main\<close> after the configuration is read: which actions are queued, in this order.\<close>

datatype boot_entry = Trigger string | Builtin boot_action string

definition boot_sequence :: "boot_entry list" where
  "boot_sequence =
     [Trigger ''early-init'',
      Builtin wait_for_coldboot_done_action ''wait_for_coldboot_done'',
      Builtin property_init_action ''property_init'',
      Builtin keychord_init_action ''keychord_init'',
      Builtin console_init_action ''console_init'',
      Builtin set_init_properties_action ''set_init_properties'',
      Trigger ''init'', Trigger ''early-fs'', Trigger ''fs'', Trigger ''post-fs'',
      Builtin property_service_init_action ''property_service_init'',
      Builtin signal_init_action ''signal_init'',
      Builtin check_startup_action ''check_startup'',
      Trigger ''early-boot'', Trigger ''boot'',
      Builtin queue_property_triggers_action ''queue_propety_triggers'']"

fun queue_boot :: "env \<Rightarrow> boot_entry list \<Rightarrow> init \<Rightarrow> init option" where
  "queue_boot E [] s = Some s"
| "queue_boot E (Trigger t # bs) s = queue_boot E bs (action_for_each_trigger t add_queue_tail s)"
| "queue_boot E (Builtin b name # bs) s =
     (case queue_builtin_action E b name s of None \<Rightarrow> None | Some s \<Rightarrow> queue_boot E bs s)"

definition init_state :: init where
  "init_state = \<lparr>services = [], actions = [], allocs = 0, perrors = [],
     action_queue = list_init Head \<lparr>nxt = (\<lambda>_. Head), prv = (\<lambda>_. Head)\<rparr>,
     cur_action = None, cur_command = None, property_triggers_enabled = False, pa = empty_area,
     property_area_inited = False, persistent_properties_loaded = False, have_console = False,
     console_name = ''/dev/console'', process_needs_restart = 0, ENV = [],
     boot = \<lparr>bp_console = [], bp_serialno = [], bp_bootmode = [], bp_baseband = [], bp_carrier = [],
       bp_bootloader = [], bp_hardware = [], bp_revision = 0, bp_qemu = [], bp_calibration = False\<rparr>,
     property_set_fd = -1, signal_recv_fd = -1, keychord_fd = -1, keychords = None, keychords_count = 0,
     log_level = 3, pa_fd = 0, trace = []\<rparr>"

definition parse_file :: "env \<Rightarrow> string \<Rightarrow> init \<Rightarrow> init option" where
  "parse_file E fn s = map_option snd (init_parse_config_file (mem_ok E) (sys_file E (trace s)) fn s)"

definition boot_init :: "env \<Rightarrow> init \<Rightarrow> init option" where
  "boot_init E s =
     (case parse_file E ''/init.rc'' s of
        None \<Rightarrow> None
      | Some s \<Rightarrow>
     (case import_kernel_cmdline E False s of
        None \<Rightarrow> None
      | Some s \<Rightarrow>
          let s = get_hardware_name E s in
          (case parse_file E (take 31 (''/init.'' @ bp_hardware (boot s) @ ''.rc'')) s of
             None \<Rightarrow> None
           | Some s \<Rightarrow> queue_boot E boot_sequence s)))"

text \<open>The beginning of \<^verbatim>\<open>main\<close>: the basic file systems, standard input and output, and the log.\<close>

definition basic_mounts :: "syscall list" where
  "basic_mounts =
     [Mkdir ''/dev'' (oct 0 7 5 5), Mkdir ''/proc'' (oct 0 7 5 5), Mkdir ''/sys'' (oct 0 7 5 5),
      Mount ''tmpfs'' ''/dev'' ''tmpfs'' 0 (Some ''mode=0755''),
      Mkdir ''/dev/pts'' (oct 0 7 5 5), Mkdir ''/dev/socket'' (oct 0 7 5 5),
      Mount ''devpts'' ''/dev/pts'' ''devpts'' 0 None, Mount ''proc'' ''/proc'' ''proc'' 0 None,
      Mount ''sysfs'' ''/sys'' ''sysfs'' 0 None]"

fun do_syscalls :: "env \<Rightarrow> syscall list \<Rightarrow> init \<Rightarrow> init" where
  "do_syscalls E [] s = s"
| "do_syscalls E (c # cs) s = do_syscalls E cs (do_syscall E c s)"

definition open_devnull_stdio :: "env \<Rightarrow> init \<Rightarrow> init option" where
  "open_devnull_stdio E s =
     (let (r, s) = syscall E (Mknod ''/dev/__null__'') s in
      if r = 0 then
        let (fd, s) = syscall E (Open ''/dev/__null__'') s;
            s = do_syscall E (Unlink ''/dev/__null__'') s in
        if fd \<ge> 0 then Some (do_syscalls E [Dup2 fd 0, Dup2 fd 1, Dup2 fd 2] s) else None
      else None)"

definition log_init :: "env \<Rightarrow> init \<Rightarrow> init" where
  "log_init E s =
     (let (r, s) = syscall E (Mknod ''/dev/__kmsg__'') s in
      if r = 0 then do_syscalls E [Open ''/dev/__kmsg__'', Unlink ''/dev/__kmsg__''] s else s)"

definition init_main :: "env \<Rightarrow> init option" where
  "init_main E =
     (case open_devnull_stdio E (do_syscalls E basic_mounts init_state) of
        None \<Rightarrow> None
      | Some s \<Rightarrow> boot_init E (log_init E s))"

fun main_loop :: "env \<Rightarrow> input list list \<Rightarrow> init \<Rightarrow> init option" where
  "main_loop E [] s = Some s"
| "main_loop E (inps # rest) s =
     (case main_iteration E inps s of None \<Rightarrow> None | Some s \<Rightarrow> main_loop E rest s)"

end
