(* ===== verification/Init_Property_Facts.thy ===== *)
theory Init_Property_Facts
  imports Init_Property
begin

text \<open>
  Correctness of the property service: the property area refines a map from names to values with room
  for 247 names, the area stays well formed, properties whose name starts with \<^verbatim>\<open>ro.\<close> never change, and
  setting a property queues exactly the matching actions.
\<close>

section \<open>Packed words\<close>

lemma pack_upper:
  fixes a x :: u32
  assumes "take_bit 8 a = a"
  shows "drop_bit 24 (push_bit 24 a OR take_bit 24 x) = a"
proof (rule bit_eqI)
  fix n
  have "bit a n \<Longrightarrow> n < 8" using assms by (metis bit_take_bit_iff)
  then show "bit (drop_bit 24 (push_bit 24 a OR take_bit 24 x)) n = bit a n"
    by (auto simp: bit_simps)
qed

lemma pack_lower:
  fixes a x :: u32
  shows "take_bit 24 (push_bit 24 a OR take_bit 24 x) = take_bit 24 x"
  by (rule bit_eqI) (auto simp: bit_simps)

lemma small_take_bit: "k < 2 ^ n \<Longrightarrow> n \<le> 32 \<Longrightarrow> take_bit n (of_nat k :: u32) = of_nat k"
  by (metis of_nat_take_bit take_bit_nat_eq_self)

lemma unat_small: "k < 2 ^ 24 \<Longrightarrow> unat (of_nat k :: u32) = k" "k < 2 ^ 8 \<Longrightarrow> unat (of_nat k :: u32) = k"
  by (simp_all add: unat_of_nat_lt)

lemma mask24: "(0xffffff :: u32) = mask 24"
  by (simp add: mask_eq_exp_minus_1)

section \<open>Well-formed property areas\<close>

definition info_ok :: "env \<Rightarrow> prop_info \<Rightarrow> bool" where
  "info_ok E p \<longleftrightarrow>
     pi_name p \<noteq> [] \<and> length (pi_name p) < PROP_NAME_MAX E \<and> length (pi_value p) < PROP_VALUE_MAX E \<and>
     unat (drop_bit 24 (pi_serial p)) = length (pi_value p) \<and> \<not> bit (pi_serial p) 0"

definition toc_ok :: "env \<Rightarrow> nat \<Rightarrow> prop_info \<Rightarrow> u32 \<Rightarrow> bool" where
  "toc_ok E i p t \<longleftrightarrow>
     unat (drop_bit 24 t) = length (pi_name p) \<and>
     unat (take_bit 24 t) = PA_INFO_START + i * PROP_INFO_SIZE E \<and>
     PA_INFO_START + (i + 1) * PROP_INFO_SIZE E \<le> PA_SIZE"

definition pa_ok :: "env \<Rightarrow> prop_area \<Rightarrow> bool" where
  "pa_ok E a \<longleftrightarrow>
     distinct (map pi_name (infos a)) \<and> length (infos a) \<le> PA_COUNT_MAX \<and> length (toc a) = length (infos a) \<and>
     (\<forall>i < length (infos a). info_ok E (infos a ! i) \<and> toc_ok E i (infos a ! i) (toc a ! i))"

definition env_ok :: "env \<Rightarrow> bool" where
  "env_ok E \<longleftrightarrow> find_ok E \<and> sizes_ok E"

definition prop_inv :: "env \<Rightarrow> init \<Rightarrow> bool" where
  "prop_inv E s \<longleftrightarrow> env_ok E \<and> property_area_inited s \<and> pa_ok E (pa s)"

definition prop_map :: "prop_area \<Rightarrow> string \<rightharpoonup> string" where
  "prop_map a = map_of (map (\<lambda>p. (pi_name p, pi_value p)) (infos a))"

lemma dom_prop_map: "dom (prop_map a) = pi_name ` set (infos a)"
  by (simp add: prop_map_def dom_map_of_conv_image_fst image_image)

lemma card_prop_map: "pa_ok E a \<Longrightarrow> card (dom (prop_map a)) = length (infos a)"
  using distinct_card [of "map pi_name (infos a)"] by (simp add: dom_prop_map pa_ok_def)

lemma prop_map_nth:
  assumes "pa_ok E a" "i < length (infos a)"
  shows "prop_map a (pi_name (infos a ! i)) = Some (pi_value (infos a ! i))"
  using assms unfolding prop_map_def
  by (intro map_of_is_SomeI) (auto simp: pa_ok_def comp_def)

lemma find_cases:
  assumes "find_ok E"
  obtains i where "prop_find E a n = Some i" "i < length (infos a)" "pi_name (infos a ! i) = n" "n \<in> dom (prop_map a)"
  | "prop_find E a n = None" "n \<notin> dom (prop_map a)"
proof -
  have "case prop_find E a n of Some i \<Rightarrow> i < length (infos a) \<and> pi_name (infos a ! i) = n
        | None \<Rightarrow> n \<notin> pi_name ` set (infos a)"
    using assms by (simp add: find_ok_def)
  then show thesis
    using that by (cases "prop_find E a n") (auto simp: dom_prop_map)
qed

lemma prop_map_update:
  assumes "distinct (map pi_name (infos a))" "i < length (infos a)" "pi_name p = pi_name (infos a ! i)"
  shows "prop_map (a\<lparr>infos := (infos a)[i := p], pa_serial := k\<rparr>) = (prop_map a)(pi_name p \<mapsto> pi_value p)"
proof -
  have "map_of (map (\<lambda>p. (pi_name p, pi_value p)) (xs[i := p])) =
        (map_of (map (\<lambda>p. (pi_name p, pi_value p)) xs))(pi_name p \<mapsto> pi_value p)"
    if "distinct (map pi_name xs)" "i < length xs" "pi_name p = pi_name (xs ! i)" for xs
    using that
  proof (induction xs arbitrary: i)
    case (Cons x xs)
    show ?case
    proof (cases i)
      case 0
      with Cons.prems show ?thesis by (auto simp: fun_eq_iff)
    next
      case (Suc j)
      then have "pi_name p \<in> pi_name ` set xs" using Cons.prems by simp
      then have "pi_name p \<noteq> pi_name x" using Cons.prems(1) by auto
      moreover have "map_of (map (\<lambda>p. (pi_name p, pi_value p)) (xs[j := p])) =
          (map_of (map (\<lambda>p. (pi_name p, pi_value p)) xs))(pi_name p \<mapsto> pi_value p)"
        using Suc Cons.prems by (intro Cons.IH) auto
      ultimately show ?thesis using Suc by (auto simp: fun_eq_iff)
    qed
  qed simp
  with assms show ?thesis by (simp add: prop_map_def)
qed

lemma prop_map_append:
  assumes "pi_name p \<notin> dom (prop_map a)"
  shows "prop_map (a\<lparr>infos := infos a @ [p], toc := t, pa_serial := k\<rparr>) = (prop_map a)(pi_name p \<mapsto> pi_value p)"
proof -
  have "map_of (map (\<lambda>p. (pi_name p, pi_value p)) (infos a)) (pi_name p) = None"
    using assms by (auto simp: prop_map_def)
  then show ?thesis
    by (auto simp: prop_map_def map_add_def fun_eq_iff split: option.splits)
qed

lemma property_get_map:
  assumes "prop_inv E s"
  shows "property_get E n s = (if length n \<ge> PROP_NAME_MAX E then None else prop_map (pa s) n)"
proof -
  have f: "find_ok E" and p: "pa_ok E (pa s)" using assms by (auto simp: prop_inv_def env_ok_def)
  from f show ?thesis
  proof (cases rule: find_cases [of E "pa s" n])
    case (1 i)
    with prop_map_nth [OF p 1(2)] show ?thesis by (simp add: property_get_def)
  qed (auto simp: property_get_def dom_def)
qed

section \<open>One store\<close>

definition spec_store :: "env \<Rightarrow> string \<Rightarrow> string \<Rightarrow> (string \<rightharpoonup> string) \<Rightarrow> int \<times> (string \<rightharpoonup> string)" where
  "spec_store E n v m =
     (if length n \<ge> PROP_NAME_MAX E \<or> length v \<ge> PROP_VALUE_MAX E \<or> n = [] \<or>
         n \<in> dom m \<and> has_prefix ''ro.'' n \<or> n \<notin> dom m \<and> card (dom m) = PA_COUNT_MAX
      then (-1, m) else (0, m(n \<mapsto> v)))"

definition spec_set :: "env \<Rightarrow> string \<Rightarrow> string \<Rightarrow> (string \<rightharpoonup> string) \<Rightarrow> int \<times> (string \<rightharpoonup> string)" where
  "spec_set E n v m =
     (case spec_store E n v m of
        (r, m') \<Rightarrow>
          if r = 0 \<and> has_prefix ''net.'' n \<and> n \<noteq> ''net.change'' then (0, snd (spec_store E ''net.change'' n m'))
          else (r, m'))"

lemma update_prop_info_ok:
  assumes "length v < PROP_VALUE_MAX E" "sizes_ok E" "info_ok E p"
  shows "info_ok E (update_prop_info p v (of_nat (length v)))"
    and "pi_name (update_prop_info p v l) = pi_name p" "pi_value (update_prop_info p v l) = v"
proof -
  have len: "length v < 2 ^ 8" using assms by (simp add: sizes_ok_def)
  define q where "q = (pi_serial p OR 1) + 1"
  have ser: "pi_serial (update_prop_info p v (of_nat (length v))) = push_bit 24 (of_nat (length v)) OR take_bit 24 q"
    by (simp add: update_prop_info_def q_def mask24 take_bit_eq_mask)
  have "bit (pi_serial p OR 1) 0" by (simp add: bit_simps)
  then have "\<not> bit q 0" by (simp add: q_def bit_0)
  then have even: "\<not> bit (push_bit 24 (of_nat (length v)) OR take_bit 24 q) 0"
    by (simp add: bit_simps)
  have "drop_bit 24 (push_bit 24 (of_nat (length v)) OR take_bit 24 q) = (of_nat (length v) :: u32)"
    using len by (intro pack_upper small_take_bit) auto
  then have "unat (drop_bit 24 (push_bit 24 (of_nat (length v)) OR take_bit 24 q) :: u32) = length v"
    using len by (simp only: unat_small)
  with assms even show "info_ok E (update_prop_info p v (of_nat (length v)))"
    by (simp add: info_ok_def ser) (simp add: update_prop_info_def)
  show "pi_name (update_prop_info p v l) = pi_name p" "pi_value (update_prop_info p v l) = v"
    by (simp_all add: update_prop_info_def)
qed

lemma new_info_ok:
  assumes "length v < PROP_VALUE_MAX E" "sizes_ok E" "n \<noteq> []" "length n < PROP_NAME_MAX E"
  shows "info_ok E \<lparr>pi_name = n, pi_value = v, pi_serial = push_bit 24 (of_nat (length v))\<rparr>"
proof -
  have len: "length v < 2 ^ 8" using assms by (simp add: sizes_ok_def)
  have "drop_bit 24 (push_bit 24 (of_nat (length v)) OR take_bit 24 0) = (of_nat (length v) :: u32)"
    using len by (intro pack_upper small_take_bit) auto
  then have "unat (drop_bit 24 (push_bit 24 (of_nat (length v))) :: u32) = length v"
    using len by (simp only: unat_small take_bit_of_0 or.right_neutral)
  with assms show ?thesis by (simp add: info_ok_def bit_simps)
qed

lemma new_toc_ok:
  assumes "sizes_ok E" "length n < PROP_NAME_MAX E" "i < PA_COUNT_MAX" "pi_name p = n"
  shows "toc_ok E i p (push_bit 24 (of_nat (length n)) OR of_nat (PA_INFO_START + i * PROP_INFO_SIZE E))"
proof -
  let ?o = "PA_INFO_START + i * PROP_INFO_SIZE E"
  have "(i + 1) * PROP_INFO_SIZE E \<le> 247 * 128"
    using assms by (intro mult_mono) (auto simp: sizes_ok_def PA_COUNT_MAX_def)
  then have fits: "PA_INFO_START + (i + 1) * PROP_INFO_SIZE E \<le> PA_SIZE"
    by (simp add: PA_INFO_START_def PA_SIZE_def)
  then have o: "?o < 2 ^ 24" by (simp add: PA_SIZE_def)
  have len: "length n < 2 ^ 8" using assms by (simp add: sizes_ok_def)
  have eq: "(of_nat ?o :: u32) = take_bit 24 (of_nat ?o)"
    using o by (simp only: small_take_bit)
  have "drop_bit 24 (push_bit 24 (of_nat (length n)) OR take_bit 24 (of_nat ?o)) = (of_nat (length n) :: u32)"
    using len by (intro pack_upper small_take_bit) auto
  then have "unat (drop_bit 24 (push_bit 24 (of_nat (length n)) OR of_nat ?o) :: u32) = length n"
    using len by (simp only: eq [symmetric] unat_small)
  moreover have "unat (take_bit 24 (push_bit 24 (of_nat (length n)) OR of_nat ?o) :: u32) = ?o"
    using o by (metis eq pack_lower unat_small(1))
  ultimately show ?thesis
    using fits assms(4) unfolding toc_ok_def by blast
qed

lemma pa_ok_update:
  assumes "pa_ok E a" "i < length (infos a)" "info_ok E p" "pi_name p = pi_name (infos a ! i)"
  shows "pa_ok E (a\<lparr>infos := (infos a)[i := p], pa_serial := k\<rparr>)"
proof -
  have "map pi_name ((infos a)[i := p]) = map pi_name (infos a)"
    by (metis assms(4) list_update_id map_update)
  moreover have "toc_ok E i p t = toc_ok E i (infos a ! i) t" for t
    using assms(4) by (simp add: toc_ok_def)
  ultimately show ?thesis
    using assms by (auto simp: pa_ok_def nth_list_update)
qed

lemma pa_ok_append:
  assumes "pa_ok E a" "length (infos a) < PA_COUNT_MAX" "info_ok E p" "pi_name p \<notin> dom (prop_map a)"
    and "toc_ok E (length (infos a)) p t"
  shows "pa_ok E (a\<lparr>infos := infos a @ [p], toc := toc a @ [t], pa_serial := k\<rparr>)"
  using assms by (auto simp: pa_ok_def nth_append dom_prop_map less_Suc_eq)

text \<open>The two ways in which the area changes.\<close>

definition set_info :: "prop_area \<Rightarrow> nat \<Rightarrow> string \<Rightarrow> prop_area" where
  "set_info a i v =
     a\<lparr>infos := (infos a)[i := update_prop_info (infos a ! i) v (of_nat (length v))], pa_serial := pa_serial a + 1\<rparr>"

definition add_info :: "env \<Rightarrow> prop_area \<Rightarrow> string \<Rightarrow> string \<Rightarrow> prop_area" where
  "add_info E a n v =
     a\<lparr>infos := infos a @ [\<lparr>pi_name = n, pi_value = v, pi_serial = push_bit 24 (of_nat (length v))\<rparr>],
       toc := toc a @ [push_bit 24 (of_nat (length n)) OR of_nat (PA_INFO_START + length (infos a) * PROP_INFO_SIZE E)],
       pa_serial := pa_serial a + 1\<rparr>"

definition bad_lengths :: "env \<Rightarrow> string \<Rightarrow> string \<Rightarrow> bool" where
  "bad_lengths E n v \<longleftrightarrow> length n \<ge> PROP_NAME_MAX E \<or> length v \<ge> PROP_VALUE_MAX E \<or> n = []"

lemma store_property_cases:
  "store_property E n v s =
     (if bad_lengths E n v then Some (-1, s)
      else case prop_find E (pa s) n of
        Some i \<Rightarrow> if has_prefix ''ro.'' n then Some (-1, s) else Some (0, s\<lparr>pa := set_info (pa s) i v\<rparr>)
      | None \<Rightarrow> if length (infos (pa s)) = PA_COUNT_MAX then Some (-1, s)
          else if property_area_inited s then Some (0, s\<lparr>pa := add_info E (pa s) n v\<rparr>) else None)"
proof -
  have len: "length n < 1 \<longleftrightarrow> n = []" by (cases n) auto
  show ?thesis
    unfolding store_property_def Let_def len bad_lengths_def set_info_def add_info_def
    by (cases "length n \<ge> PROP_NAME_MAX E"; cases "length v \<ge> PROP_VALUE_MAX E"; cases "n = []")
      (simp_all split: option.splits)
qed

lemma set_info_ok:
  assumes "pa_ok E a" "sizes_ok E" "i < length (infos a)" "\<not> bad_lengths E n v" "pi_name (infos a ! i) = n"
  shows "pa_ok E (set_info a i v)" "prop_map (set_info a i v) = (prop_map a)(n \<mapsto> v)"
proof -
  let ?q = "update_prop_info (infos a ! i) v (of_nat (length v))"
  have "info_ok E (infos a ! i)" using assms by (simp add: pa_ok_def)
  then have q: "info_ok E ?q" "pi_name ?q = n" "pi_value ?q = v"
    using assms update_prop_info_ok [of v E "infos a ! i"] by (auto simp: bad_lengths_def)
  show "pa_ok E (set_info a i v)"
    unfolding set_info_def using assms q by (intro pa_ok_update) auto
  show "prop_map (set_info a i v) = (prop_map a)(n \<mapsto> v)"
    unfolding set_info_def using assms q by (subst prop_map_update) (auto simp: pa_ok_def)
qed

lemma add_info_ok:
  assumes "pa_ok E a" "sizes_ok E" "\<not> bad_lengths E n v" "n \<notin> dom (prop_map a)" "length (infos a) \<noteq> PA_COUNT_MAX"
  shows "pa_ok E (add_info E a n v)" "prop_map (add_info E a n v) = (prop_map a)(n \<mapsto> v)"
proof -
  let ?q = "\<lparr>pi_name = n, pi_value = v, pi_serial = push_bit 24 (of_nat (length v))\<rparr>"
  have len: "length (infos a) < PA_COUNT_MAX" using assms by (auto simp: pa_ok_def)
  have q: "info_ok E ?q"
    "toc_ok E (length (infos a)) ?q
      (push_bit 24 (of_nat (length n)) OR of_nat (PA_INFO_START + length (infos a) * PROP_INFO_SIZE E))"
    using assms len by (auto intro!: new_info_ok new_toc_ok simp: bad_lengths_def simp del: of_nat_add)
  show "pa_ok E (add_info E a n v)"
    unfolding add_info_def using assms len q by (intro pa_ok_append) auto
  show "prop_map (add_info E a n v) = (prop_map a)(n \<mapsto> v)"
    unfolding add_info_def using assms by (subst prop_map_append) auto
qed

lemma spec_store_cases:
  "spec_store E n v m =
     (if bad_lengths E n v \<or> n \<in> dom m \<and> has_prefix ''ro.'' n \<or> n \<notin> dom m \<and> card (dom m) = PA_COUNT_MAX
      then (-1, m) else (0, m(n \<mapsto> v)))"
  by (auto simp: spec_store_def bad_lengths_def)

lemma store_property_spec:
  assumes "prop_inv E s"
  shows "\<exists>r a. store_property E n v s = Some (r, s\<lparr>pa := a\<rparr>) \<and> (r, prop_map a) = spec_store E n v (prop_map (pa s)) \<and>
    prop_inv E (s\<lparr>pa := a\<rparr>)"
proof -
  have f: "find_ok E" and sz: "sizes_ok E" and p: "pa_ok E (pa s)" and i: "property_area_inited s" and e: "env_ok E"
    using assms by (auto simp: prop_inv_def env_ok_def)
  have same: "s\<lparr>pa := pa s\<rparr> = s" by simp
  note card = card_prop_map [OF p]
  from f show ?thesis
  proof (cases rule: find_cases [of E "pa s" n])
    case (1 i)
    show ?thesis
    proof (cases "bad_lengths E n v \<or> has_prefix ''ro.'' n")
      case True
      with 1 assms show ?thesis
        by (intro exI [of _ "-1"] exI [of _ "pa s"]) (auto simp: store_property_cases spec_store_cases)
    next
      case False
      with 1 assms set_info_ok [OF p sz 1(2) _ 1(3), of v] show ?thesis
        by (intro exI [of _ 0] exI [of _ "set_info (pa s) i v"])
          (simp add: store_property_cases spec_store_cases prop_inv_def)
    qed
  next
    case 2
    show ?thesis
    proof (cases "bad_lengths E n v \<or> length (infos (pa s)) = PA_COUNT_MAX")
      case True
      with 2 assms card show ?thesis
        by (intro exI [of _ "-1"] exI [of _ "pa s"]) (auto simp: store_property_cases spec_store_cases)
    next
      case False
      with 2 assms card i add_info_ok [OF p sz _ 2(2), of v] show ?thesis
        by (intro exI [of _ 0] exI [of _ "add_info E (pa s) n v"])
          (simp add: store_property_cases spec_store_cases prop_inv_def)
    qed
  qed
qed

section \<open>Queueing the triggers of a property\<close>

definition queue_actions :: "nat list \<Rightarrow> init \<Rightarrow> init" where
  "queue_actions is s = s\<lparr>action_queue := fold action_add_queue_tail is (action_queue s)\<rparr>"

lemma for_each_queue:
  assumes "\<And>i s q. P i (s\<lparr>action_queue := q\<rparr>) = P i s"
  shows "for_each_action (\<lambda>i s. if P i s then add_queue_tail i s else s) is s = queue_actions (filter (\<lambda>i. P i s) is) s"
  by (induction "is" arbitrary: s) (auto simp: queue_actions_def add_queue_tail_def assms)

lemma property_trigger_matches_iff:
  "property_trigger_matches act name val \<longleftrightarrow> act = ''property:'' @ name @ ''='' @ val"
proof
  assume "property_trigger_matches act name val"
  then obtain test where act: "act = ''property:'' @ test" and
    t: "take (length name) test = name" "length name < length test" "test ! length name = CHR ''=''"
       "drop (length name + 1) test = val"
    by (auto simp: property_trigger_matches_def has_prefix_iff Let_def split: if_splits)
  have "test = take (length name) test @ test ! length name # drop (Suc (length name)) test"
    using t(2) by (rule id_take_nth_drop)
  with act t show "act = ''property:'' @ name @ ''='' @ val" by simp
qed (simp add: property_trigger_matches_def has_prefix_def)

lemma queue_property_triggers_eq:
  "queue_property_triggers n v s =
     queue_actions (filter (\<lambda>i. act_name (actions s ! i) = ''property:'' @ n @ ''='' @ v) [0..<length (actions s)]) s"
  unfolding queue_property_triggers_def all_actions_def
  by (subst for_each_queue) (simp_all add: property_trigger_matches_iff)

text \<open>What a property operation may change.\<close>

definition prop_frame :: "init \<Rightarrow> init \<Rightarrow> bool" where
  "prop_frame s s' \<longleftrightarrow> (\<exists>a q t. s' = s\<lparr>pa := a, action_queue := q, trace := t\<rparr>)"

lemma prop_frameI: "s' = s\<lparr>pa := a, action_queue := q, trace := t\<rparr> \<Longrightarrow> prop_frame s s'"
  unfolding prop_frame_def by blast

lemma prop_frame_refl [simp]: "prop_frame s s"
  by (rule prop_frameI [where a = "pa s" and q = "action_queue s" and t = "trace s"]) simp

lemma prop_frame_trans [trans]: "prop_frame s s' \<Longrightarrow> prop_frame s' s'' \<Longrightarrow> prop_frame s s''"
  unfolding prop_frame_def by (elim exE) (simp, blast)

lemma prop_frame_updates [simp]:
  "prop_frame s (s\<lparr>pa := a\<rparr>)" "prop_frame s (s\<lparr>trace := t\<rparr>)" "prop_frame s (s\<lparr>action_queue := q\<rparr>)"
  by (rule prop_frameI [where a = a and q = "action_queue s" and t = "trace s"], simp)
    (rule prop_frameI [where a = "pa s" and q = "action_queue s" and t = t], simp, rule prop_frameI [where a = "pa s" and q = q and t = "trace s"], simp)

lemma prop_frame_fields:
  assumes "prop_frame s s'"
  shows "services s' = services s" "actions s' = actions s" "allocs s' = allocs s"
    "property_area_inited s' = property_area_inited s" "property_triggers_enabled s' = property_triggers_enabled s"
    "persistent_properties_loaded s' = persistent_properties_loaded s" "cur_action s' = cur_action s"
    "cur_command s' = cur_command s" "process_needs_restart s' = process_needs_restart s" "ENV s' = ENV s"
    "property_set_fd s' = property_set_fd s" "signal_recv_fd s' = signal_recv_fd s" "boot s' = boot s"
    "have_console s' = have_console s" "console_name s' = console_name s"
  using assms unfolding prop_frame_def by auto

lemma syscall_pa [simp]:
  "pa (snd (syscall E c s)) = pa s" "pa (do_syscall E c s) = pa s"
  "action_queue (snd (syscall E c s)) = action_queue s" "action_queue (do_syscall E c s) = action_queue s"
  "prop_frame s (snd (syscall E c s))" "prop_frame s (do_syscall E c s)"
  by (simp_all add: syscall_def do_syscall_def Let_def)

lemma queue_actions_simps [simp]:
  "pa (queue_actions is s) = pa s" "prop_frame s (queue_actions is s)"
  "action_queue (queue_actions is s) = fold action_add_queue_tail is (action_queue s)"
  by (simp_all add: queue_actions_def)

lemma property_changed_simps [simp]:
  "pa (property_changed n v s) = pa s" "prop_frame s (property_changed n v s)"
  by (simp_all add: property_changed_def queue_property_triggers_eq)

lemma write_persistent_simps [simp]:
  "pa (write_persistent_property E n v s) = pa s" "prop_frame s (write_persistent_property E n v s)"
  "action_queue (write_persistent_property E n v s) = action_queue s"
  by (simp_all add: write_persistent_property_def syscall_def do_syscall_def Let_def)

lemma prop_inv_frame: "prop_inv E s \<Longrightarrow> prop_frame s s' \<Longrightarrow> pa s' = pa s \<Longrightarrow> prop_inv E s'"
  by (simp add: prop_inv_def prop_frame_fields)

section \<open>Setting a property\<close>

lemma property_set_net_change:
  assumes "prop_inv E s"
  shows "\<exists>r a. property_set E ''net.change'' v s = Some (r, s\<lparr>pa := a\<rparr>) \<and>
    (r, prop_map a) = spec_store E ''net.change'' v (prop_map (pa s)) \<and> prop_inv E (s\<lparr>pa := a\<rparr>)"
proof -
  obtain r a where "store_property E ''net.change'' v s = Some (r, s\<lparr>pa := a\<rparr>)"
    "(r, prop_map a) = spec_store E ''net.change'' v (prop_map (pa s))" "prop_inv E (s\<lparr>pa := a\<rparr>)"
    using store_property_spec [OF assms] by blast
  then show ?thesis
    by (intro exI [of _ r] exI [of _ a]) (simp add: property_set.simps has_prefix_def)
qed

lemma property_set_spec:
  assumes "prop_inv E s"
  shows "\<exists>r s'. property_set E n v s = Some (r, s') \<and> (r, prop_map (pa s')) = spec_set E n v (prop_map (pa s)) \<and>
    prop_inv E s' \<and> prop_frame s s' \<and>
    action_queue s' = (if r = 0 \<and> n \<noteq> ''net.change'' then action_queue (property_changed n v s) else action_queue s)"
proof -
  obtain r a where st: "store_property E n v s = Some (r, s\<lparr>pa := a\<rparr>)"
    "(r, prop_map a) = spec_store E n v (prop_map (pa s))" and inv: "prop_inv E (s\<lparr>pa := a\<rparr>)"
    using store_property_spec [OF assms] by blast
  have q: "action_queue (property_changed n v s') = action_queue (property_changed n v s)"
    if "prop_frame s s'" "action_queue s' = action_queue s" for s'
    using that by (simp add: property_changed_def queue_property_triggers_eq prop_frame_fields)
  consider (err) "r \<noteq> 0" | (change) "r = 0" "n = ''net.change''"
    | (net) "r = 0" "has_prefix ''net.'' n" "n \<noteq> ''net.change''" | (other) "r = 0" "\<not> has_prefix ''net.'' n"
    by blast
  then show ?thesis
  proof cases
    case err
    then show ?thesis
      using st inv by (intro exI [of _ r] exI [of _ "s\<lparr>pa := a\<rparr>"])
        (simp add: property_set.simps spec_set_def flip: st(2))
  next
    case change
    then show ?thesis
      using st inv by (intro exI [of _ r] exI [of _ "s\<lparr>pa := a\<rparr>"])
        (simp add: property_set.simps spec_set_def has_prefix_def split: prod.splits)
  next
    case net
    obtain r' b where c: "property_set E ''net.change'' n (s\<lparr>pa := a\<rparr>) = Some (r', s\<lparr>pa := b\<rparr>)"
      "(r', prop_map b) = spec_store E ''net.change'' n (prop_map a)" "prop_inv E (s\<lparr>pa := b\<rparr>)"
      using property_set_net_change [OF inv, of n] by auto
    let ?t = "property_changed n v (s\<lparr>pa := b\<rparr>)"
    have f: "prop_frame s ?t"
      by (rule prop_frame_trans [of _ "s\<lparr>pa := b\<rparr>"]) simp_all
    have "prop_inv E ?t" using c(3) by (rule prop_inv_frame) simp_all
    moreover have "property_set E n v s = Some (0, ?t)"
      using st net c by (subst property_set.simps) simp
    moreover have "(0, prop_map (pa ?t)) = spec_set E n v (prop_map (pa s))"
      using st(2) net c(2) by (simp add: spec_set_def flip: st(2) c(2))
    ultimately show ?thesis
      using f q [of "s\<lparr>pa := b\<rparr>"] net by (intro exI [of _ 0] exI [of _ ?t]) simp
  next
    case other
    let ?u = "if persistent_properties_loaded s \<and> has_prefix ''persist.'' n
              then write_persistent_property E n v (s\<lparr>pa := a\<rparr>) else s\<lparr>pa := a\<rparr>"
    let ?t = "property_changed n v ?u"
    have u: "prop_frame (s\<lparr>pa := a\<rparr>) ?u" "pa ?u = a" "action_queue ?u = action_queue s" by simp_all
    have fu: "prop_frame s ?u" by (rule prop_frame_trans [OF _ u(1)]) simp
    have f: "prop_frame s ?t" by (rule prop_frame_trans [OF fu]) simp
    have "prop_inv E ?t"
      by (rule prop_inv_frame [OF inv prop_frame_trans [OF u(1)]]) (simp_all add: u(2))
    moreover have "property_set E n v s = Some (0, ?t)"
      using st other by (subst property_set.simps) (simp add: Let_def)
    moreover have "(0, prop_map (pa ?t)) = spec_set E n v (prop_map (pa s))"
      using st(2) other u(2) by (simp add: spec_set_def flip: st(2))
    moreover have "n \<noteq> ''net.change''" using other by (auto simp: has_prefix_def)
    ultimately show ?thesis
      using f q [OF fu u(3)] by (intro exI [of _ 0] exI [of _ ?t]) simp
  qed
qed

lemma set_property_spec:
  assumes "prop_inv E s"
  shows "\<exists>s'. set_property E n v s = Some s' \<and> prop_map (pa s') = snd (spec_set E n v (prop_map (pa s))) \<and>
    prop_inv E s' \<and> prop_frame s s'"
proof -
  obtain r s' where "property_set E n v s = Some (r, s')" "(r, prop_map (pa s')) = spec_set E n v (prop_map (pa s))"
    "prop_inv E s'" "prop_frame s s'"
    using property_set_spec [OF assms] by blast
  then show ?thesis by (intro exI [of _ s']) (simp add: set_property_def flip: \<open>_ = spec_set _ _ _ _\<close>)
qed

section \<open>Runs of the property service\<close>

definition prop_step :: "env \<Rightarrow> string \<times> string \<Rightarrow> init \<Rightarrow> int option \<times> init" where
  "prop_step E nv s =
     (case property_set E (fst nv) (snd nv) s of None \<Rightarrow> (None, s) | Some (r, s') \<Rightarrow> (Some r, s'))"

definition prop_spec ::
  "env \<Rightarrow> string \<times> string \<Rightarrow> (string \<rightharpoonup> string) \<Rightarrow> int option \<Rightarrow> (string \<rightharpoonup> string) \<Rightarrow> bool" where
  "prop_spec E nv m out m' \<longleftrightarrow> out = Some (fst (spec_set E (fst nv) (snd nv) m)) \<and> m' = snd (spec_set E (fst nv) (snd nv) m)"

lemma prop_step_spec:
  assumes "prop_inv E s" "prop_step E nv s = (out, s')"
  shows "prop_inv E s'" "prop_spec E nv (prop_map (pa s)) out (prop_map (pa s'))"
proof -
  obtain r t where t: "property_set E (fst nv) (snd nv) s = Some (r, t)"
    "(r, prop_map (pa t)) = spec_set E (fst nv) (snd nv) (prop_map (pa s))" "prop_inv E t"
    using property_set_spec [OF assms(1)] by blast
  with assms(2) have "out = Some r" "s' = t" by (simp_all add: prop_step_def)
  with t show "prop_inv E s'" "prop_spec E nv (prop_map (pa s)) out (prop_map (pa s'))"
    by (simp_all add: prop_spec_def flip: t(2))
qed

interpretation ps: simulation "prop_inv E" "\<lambda>s. prop_map (pa s)" "prop_step E" "prop_spec E" for E
  by unfold_locales (auto dest: prop_step_spec)

lemma spec_store_ro: "has_prefix ''ro.'' k \<Longrightarrow> m k = Some x \<Longrightarrow> snd (spec_store E n v m) k = Some x"
  by (auto simp: spec_store_def)

lemma spec_set_ro: "has_prefix ''ro.'' k \<Longrightarrow> m k = Some x \<Longrightarrow> snd (spec_set E n v m) k = Some x"
  using spec_store_ro [of k m x E n v] spec_store_ro [of k "snd (spec_store E n v m)" x E "''net.change''" n]
  by (auto simp: spec_set_def split: prod.splits)

text \<open>C1: The property service implements a map with 247 places.  Any sequence of \<^verbatim>\<open>property_set\<close> calls on an
  initialised property area returns what the map specification \<open>spec_set\<close> says and leaves its contents;
  \<^verbatim>\<open>property_get\<close> reads that map; and the area stays well formed: names are distinct, every name and value
  fits its array, the length byte and the parity of each serial are right, and every entry of the table
  of contents points to the info it belongs to, inside the area.\<close>

theorem property_service_refines_map:
  assumes "prop_inv E s" "run_ops (prop_step E) ops s = (outs, s')"
  shows "spec_ops (prop_spec E) ops (prop_map (pa s)) outs (prop_map (pa s')) \<and>
    (\<forall>n. property_get E n s' = (if length n < PROP_NAME_MAX E then prop_map (pa s') n else None)) \<and> pa_ok E (pa s')"
proof -
  have "prop_inv E s'" using assms by (rule ps.run_inv)
  moreover have "spec_ops (prop_spec E) ops (prop_map (pa s)) outs (prop_map (pa s'))"
    using assms by (rule ps.run_spec)
  ultimately show ?thesis by (auto simp: property_get_map prop_inv_def)
qed

definition w_env :: env where
  "w_env = \<lparr>sys = (\<lambda>_ _. 0), sys_file = (\<lambda>_ _. None), sys_dir = (\<lambda>_ _. None), mem_ok = (\<lambda>_. True),
     prop_find = (\<lambda>a n. find_index (\<lambda>p. pi_name p = n) (infos a)), PROP_NAME_MAX = 32, PROP_VALUE_MAX = 92,
     PROP_INFO_SIZE = 128, pair_fds = (\<lambda>_. (8, 9)), loop_devices = 2, mtd_name_to_number = (\<lambda>_. -1), PROP_SERVICE_NAME = ''property_service'', PROP_PATH_RAMDISK_DEFAULT = ''/default.prop'',
     PROP_PATH_SYSTEM_BUILD = ''/system/build.prop'', PROP_PATH_SYSTEM_DEFAULT = ''/system/default.prop'',
     PROP_PATH_LOCAL_OVERRIDE = ''/data/local.prop''\<rparr>"

definition w_boot :: boot_params where
  "w_boot = \<lparr>bp_console = [], bp_serialno = [], bp_bootmode = [], bp_baseband = [], bp_carrier = [],
     bp_bootloader = [], bp_hardware = [], bp_revision = 0, bp_qemu = [], bp_calibration = False\<rparr>"

definition w_init :: init where
  "w_init = \<lparr>services = [], actions = [], allocs = 0, perrors = [], action_queue = \<lparr>nxt = (\<lambda>_. Head), prv = (\<lambda>_. Head)\<rparr>,
     cur_action = None, cur_command = None, property_triggers_enabled = False, pa = empty_area,
     property_area_inited = True, persistent_properties_loaded = False, have_console = False,
     console_name = ''/dev/console'', process_needs_restart = 0, ENV = [], boot = w_boot, property_set_fd = -1,
     signal_recv_fd = -1, keychord_fd = -1, keychords = None, keychords_count = 0,
     log_level = 3, pa_fd = 0, trace = []\<rparr>"

lemma find_index_Some: "find_index P xs = Some i \<Longrightarrow> i < length xs \<and> P (xs ! i)"
  by (induction xs arbitrary: i) (auto split: if_splits)

lemma find_index_None: "find_index P xs = None \<longleftrightarrow> (\<forall>x \<in> set xs. \<not> P x)"
  by (induction xs) auto

lemma w_env_ok: "env_ok w_env"
  by (auto simp: env_ok_def find_ok_def sizes_ok_def w_env_def find_index_None dest: find_index_Some split: option.splits)

lemma w_init_inv: "prop_inv w_env w_init"
  using w_env_ok by (simp add: prop_inv_def pa_ok_def empty_area_def w_init_def)

theorem property_service_refines_map_witness:
  "\<exists>outs s'. run_ops (prop_step w_env) [(''ro.a'', ''1''), (''ro.a'', ''2''), (''net.x'', ''y'')] w_init = (outs, s') \<and>
     outs = [Some 0, Some (-1), Some 0] \<and> property_get w_env ''ro.a'' s' = Some ''1'' \<and>
     property_get w_env ''net.change'' s' = Some ''net.x''"
proof -
  let ?ops = "[(''ro.a'', ''1''), (''ro.a'', ''2''), (''net.x'', ''y'')]"
  obtain outs s' where r: "run_ops (prop_step w_env) ?ops w_init = (outs, s')"
    by (metis surj_pair)
  have m: "prop_map (pa w_init) = Map.empty" by (simp add: w_init_def prop_map_def empty_area_def)
  have "spec_ops (prop_spec w_env) ?ops Map.empty outs (prop_map (pa s'))"
    and g: "\<forall>n. property_get w_env n s' = (if length n < 32 then prop_map (pa s') n else None)"
    using property_service_refines_map [OF w_init_inv r] by (simp_all add: m w_env_def)
  then show ?thesis
    using r by (cases outs; cases "tl outs"; cases "tl (tl outs)")
      (auto simp: prop_spec_def spec_set_def spec_store_def has_prefix_def w_env_def PA_COUNT_MAX_def)
qed

section \<open>Triggers\<close>

definition trigger_actions :: "string \<Rightarrow> init \<Rightarrow> nat list" where
  "trigger_actions trigger s = filter (\<lambda>i. act_name (actions s ! i) = trigger) [0..<length (actions s)]"

text \<open>The actions whose trigger names a property and its current value.\<close>

definition holds_now :: "env \<Rightarrow> init \<Rightarrow> string \<Rightarrow> bool" where
  "holds_now E s act \<longleftrightarrow>
     (\<exists>n v. act = ''property:'' @ n @ ''='' @ v \<and> CHR ''='' \<notin> set n \<and> property_get E n s = Some v)"

lemma split_unique:
  fixes n :: string
  assumes "n @ c # v = n' @ c # v'" "c \<notin> set n" "c \<notin> set n'"
  shows "n = n' \<and> v = v'"
proof -
  have "strchr (n @ c # v) c = Some (c # v)" "strchr (n' @ c # v') c = Some (c # v')"
    using assms(2,3) by (simp_all only: strchr_append not_False_eq_True)
  with assms(1) show ?thesis by simp
qed

lemma all_trigger_matches_iff:
  "all_trigger_matches E act s \<longleftrightarrow> holds_now E s act"
proof (cases "has_prefix ''property:'' act")
  case True
  then obtain test where act: "act = ''property:'' @ test" by (auto simp: has_prefix_iff)
  show ?thesis
  proof (cases "strchr test CHR ''=''")
    case None
    then have "CHR ''='' \<notin> set test" by (simp add: strchr_None_iff)
    with None show ?thesis by (auto simp: all_trigger_matches_def holds_now_def act has_prefix_def)
  next
    case (Some eq)
    then obtain n v where t: "test = n @ CHR ''='' # v" "CHR ''='' \<notin> set n" "eq = CHR ''='' # v"
      by (auto simp: strchr_Some_iff)
    have uniq: "n' = n \<and> v' = v" if "n @ CHR ''='' # v = n' @ CHR ''='' # v'" "CHR ''='' \<notin> set n'" for n' v'
      using split_unique [OF that(1) t(2) that(2)] by simp
    have "property_get E n s = None" if "length n \<ge> PROP_NAME_MAX E" using that by (simp add: property_get_def)
    then have "all_trigger_matches E act s \<longleftrightarrow> property_get E n s = Some v"
      using Some t(1,3) by (cases "property_get E n s")
        (auto simp: all_trigger_matches_def act has_prefix_def Let_def simp del: strchr.simps)
    also have "\<dots> \<longleftrightarrow> holds_now E s act"
    proof
      assume "property_get E n s = Some v"
      with t show "holds_now E s act" unfolding holds_now_def act
        by (intro exI [of _ n] exI [of _ v]) simp
    next
      assume "holds_now E s act"
      then obtain n' v' where "test = n' @ CHR ''='' # v'" "CHR ''='' \<notin> set n'" "property_get E n' s = Some v'"
        by (auto simp: holds_now_def act)
      with uniq [of n' v'] t(1) show "property_get E n s = Some v" by simp
    qed
    finally show ?thesis .
  qed
qed (auto simp: all_trigger_matches_def holds_now_def has_prefix_def)

lemma property_get_queue [simp]: "property_get E n (s\<lparr>action_queue := q\<rparr>) = property_get E n s"
  by (simp add: property_get_def split: option.splits)

lemma queue_all_eq:
  "queue_all_property_triggers E s =
     queue_actions (filter (\<lambda>i. holds_now E s (act_name (actions s ! i))) [0..<length (actions s)]) s"
  unfolding queue_all_property_triggers_def all_actions_def
  by (subst for_each_queue) (simp_all add: all_trigger_matches_iff holds_now_def)


definition w_init_triggers :: init where
  "w_init_triggers = w_init\<lparr>property_triggers_enabled := True,
     actions := [\<lparr>act_name = ''boot'', commands = []\<rparr>, \<lparr>act_name = ''property:a=b'', commands = []\<rparr>]\<rparr>"


section \<open>Property files\<close>

text \<open>Keys and values that survive the trimming of blanks.\<close>

definition clean_key :: "string \<Rightarrow> bool" where
  "clean_key k \<longleftrightarrow> k \<noteq> [] \<and> CHR ''='' \<notin> set k \<and> LF \<notin> set k \<and> NUL \<notin> set k \<and>
     hd k \<noteq> CHR ''#'' \<and> \<not> c_isspace (hd k) \<and> \<not> c_isspace (last k)"

definition clean_value :: "string \<Rightarrow> bool" where
  "clean_value v \<longleftrightarrow> LF \<notin> set v \<and> NUL \<notin> set v \<and> (v \<noteq> [] \<longrightarrow> \<not> c_isspace (hd v) \<and> \<not> c_isspace (last v))"

fun print_properties :: "(string \<times> string) list \<Rightarrow> string" where
  "print_properties [] = []"
| "print_properties ((k, v) # kvs) = k @ CHR ''='' # v @ LF # print_properties kvs"

lemma trim_end_clean: "s \<noteq> [] \<longrightarrow> \<not> c_isspace (last s) \<Longrightarrow> trim_end s = s"
  by (cases s; cases "tl s" rule: rev_cases) (auto simp: trim_end_def)

lemma property_line_clean: "clean_key k \<Longrightarrow> clean_value v \<Longrightarrow> property_line (k @ CHR ''='' # v) = Some (k, v)"
proof -
  assume k: "clean_key k" and v: "clean_value v"
  have dw: "dropWhile c_isspace k = k" "dropWhile c_isspace v = v" "take 1 k \<noteq> ''#''"
    using k v by (cases k; cases v; simp add: clean_key_def clean_value_def)+
  show ?thesis
    using k v dw by (simp add: property_line_def strchr_append clean_key_def clean_value_def trim_end_clean Let_def)
qed

lemma load_properties_line:
  assumes "clean_key k" "clean_value v"
  shows "load_properties E (k @ CHR ''='' # v @ LF # rest) s =
    (case set_property E k v s of None \<Rightarrow> None | Some s \<Rightarrow> load_properties E rest s)"
proof -
  have "strchr ((k @ CHR ''='' # v) @ LF # rest) LF = Some (LF # rest)"
    using assms by (intro strchr_append) (auto simp: clean_key_def clean_value_def char_consts)
  then have "strchr (k @ CHR ''='' # v @ LF # rest) LF = Some (LF # rest)" by simp
  then show ?thesis
    by (subst load_properties.simps) (simp add: property_line_clean assms)
qed

text \<open>C36: Property files.  Reading back a file of printed key and value pairs sets exactly these properties in
  this order: the resulting map is that of the specification.  Keys and values must not contain line
  ends and not begin or end with a blank; a key may contain no \<^verbatim>\<open>=\<close> and not begin with \<^verbatim>\<open>#\<close>.\<close>

theorem load_properties_roundtrip:
  assumes "prop_inv E s" "\<forall>(k, v) \<in> set kvs. clean_key k \<and> clean_value v"
  shows "\<exists>s'. load_properties E (print_properties kvs) s = Some s' \<and> prop_inv E s' \<and>
    prop_map (pa s') = foldl (\<lambda>m (k, v). snd (spec_set E k v m)) (prop_map (pa s)) kvs"
  using assms
proof (induction kvs arbitrary: s rule: print_properties.induct)
  case 1
  then show ?case by (simp add: load_properties.simps)
next
  case (2 k v kvs)
  obtain t where t: "set_property E k v s = Some t" "prop_map (pa t) = snd (spec_set E k v (prop_map (pa s)))" "prop_inv E t"
    using set_property_spec [OF 2(2)] by blast
  have "\<exists>s'. load_properties E (print_properties kvs) t = Some s' \<and> prop_inv E s' \<and>
    prop_map (pa s') = foldl (\<lambda>m (k, v). snd (spec_set E k v m)) (prop_map (pa t)) kvs"
    using 2(3) t(3) by (intro 2(1)) auto
  with 2(3) t show ?case by (simp add: load_properties_line)
qed

theorem load_properties_roundtrip_witness:
  "\<exists>s'. load_properties w_env (print_properties [(''ro.a'', ''1 2''), (''b'', [])]) w_init = Some s' \<and>
     prop_map (pa s') ''ro.a'' = Some ''1 2'' \<and> prop_map (pa s') ''b'' = Some []"
proof -
  let ?kvs = "[(''ro.a'', ''1 2''), (''b'', [])]"
  have "\<forall>(k, v) \<in> set ?kvs. clean_key k \<and> clean_value v"
    by (simp add: clean_key_def clean_value_def char_consts c_isspace_def)
  from load_properties_roundtrip [OF w_init_inv this] obtain s' where
    s': "load_properties w_env (print_properties ?kvs) w_init = Some s'"
    "prop_map (pa s') = foldl (\<lambda>m (k, v). snd (spec_set w_env k v m)) (prop_map (pa w_init)) ?kvs" by blast
  have m: "prop_map (pa w_init) = Map.empty" by (simp add: w_init_def prop_map_def empty_area_def)
  have "prop_map (pa s') ''ro.a'' = Some ''1 2''" "prop_map (pa s') ''b'' = Some []"
    unfolding s'(2) m by (simp_all add: spec_set_def spec_store_def w_env_def has_prefix_def PA_COUNT_MAX_def)
  with s'(1) show ?thesis by blast
qed

end
