(* ===== verification/Init_Config_Facts.thy ===== *)
theory Init_Config_Facts
  imports Init_Config
begin

text \<open>
  Facts on the configuration parser: a file is parsed line by line as the lexer of
  \<^verbatim>\<open>Init_Tokenizer\<close> splits it, and every parsing function keeps the configuration well formed.
\<close>

section \<open>Lines\<close>

definition overlay :: "string list \<Rightarrow> stale \<Rightarrow> stale" where
  "overlay args cells = (\<lambda>i. if i < length args then Some (args ! i) else cells i)"

fun parse_lines ::
  "(nat \<Rightarrow> bool) \<Rightarrow> string list list \<Rightarrow> stale \<Rightarrow> line_parser \<Rightarrow> 'a config_scheme \<Rightarrow> 'a config_scheme option" where
  "parse_lines mem_ok [] cells lp c = Some c"
| "parse_lines mem_ok (l # ls) cells lp c =
     (case end_of_line mem_ok lp l (overlay l cells) c of
        None \<Rightarrow> None
      | Some (lp, c) \<Rightarrow> parse_lines mem_ok ls (overlay l cells) lp c)"

lemma overlay_Nil [simp]: "overlay [] cells = cells"
  by (simp add: overlay_def)

lemma overlay_snoc: "(overlay args cells)(length args := Some w) = overlay (args @ [w]) cells"
  by (auto simp: overlay_def fun_eq_iff nth_append)

lemma overlay_args: "map (\<lambda>i. the (overlay args cells i)) [0..<length args] = args"
  by (auto simp: overlay_def intro: nth_equalityI)

lemma parse_line_end [simp]: "parse_line mem_ok lp [] rest c = Some c"
  by (simp add: parse_line_def parse_line_service_def parse_line_action_def split: line_parser.splits)

lemma parse_config_lines:
  fixes c :: "'a config_scheme"
  assumes "nexttoken st = None" "ptr st \<le> length (buf st)" "NUL \<in> set (drop (ptr st) (buf st))"
    and "length args \<le> INIT_PARSER_MAXARGS"
  shows "parse_config mem_ok st (length args) (overlay args cells) lp c =
    parse_lines mem_ok (config_lines (drop (ptr st) (buf st)) args) cells lp c"
  using assms
proof (induction "length (drop (ptr st) (buf st))" arbitrary: st args cells lp c rule: less_induct)
  case less
  let ?cs = "drop (ptr st) (buf st)"
  obtain tk w rest k nt where lex: "lex_token ?cs = Some (tk, w, rest, k, nt)"
    using lex_token_ok [of ?cs] less.prems(3) by (auto simp: tok_ok_def split: option.splits)
  have f: "NUL \<notin> set w" "NUL \<in> set rest" "nt = None \<or> tk = T_TEXT \<and> nt = Some T_NEWLINE"
    using lex_token_ok [of ?cs] less.prems(3) lex by (auto simp: tok_ok_def)
  from next_token_lex [OF less.prems(1,2)] lex obtain st' where
    run: "next_token st = Some (tk, st')" and ok: "token_ok st (tk, w, rest, k, nt) (tk, st')"
    by (auto simp: token_ok_def)
  have st': "drop (ptr st') (buf st') = rest" "ptr st' \<le> length (buf st')" "nexttoken st' = nt"
    using ok by (auto simp: token_ok_def)
  have word: "tk = T_TEXT \<Longrightarrow> cstr (drop (tok_text st') (buf st')) = w"
    using ok token_at_cstr [OF _ f(1)] by (auto simp: token_ok_def)
  have lt: "length rest < length ?cs" if "tk \<noteq> T_EOF" using lex_token_less [OF lex that] .
  have IH: "parse_config mem_ok s (length as) (overlay as cs) lp' c' =
      parse_lines mem_ok (config_lines rest as) cs lp' c'"
    if "drop (ptr s) (buf s) = rest" "ptr s \<le> length (buf s)" "nexttoken s = None" "length as \<le> INIT_PARSER_MAXARGS" "tk \<noteq> T_EOF"
    for s as cs lp' and c' :: "'a config_scheme"
    using less.hyps [of s as cs lp' c'] that f(2) lt by simp
  show ?case
  proof (cases tk)
    case T_EOF
    then show ?thesis
      by (simp add: parse_config.simps [of _ st] run config_lines.simps [of ?cs] lex)
  next
    case T_NEWLINE
    with f have nt: "nt = None" by auto
    have "parse_config mem_ok st' 0 cells lp c = parse_lines mem_ok (config_lines rest []) cells lp c"
      for cells lp and c :: "'a config_scheme"
      using IH [of st' "[]"] st' nt T_NEWLINE by simp
    with T_NEWLINE show ?thesis
      by (cases "args = []") (auto simp: parse_config.simps [of _ st] run config_lines.simps [of ?cs] lex overlay_args
          split: option.splits)
  next
    case T_TEXT
    have add: "overlay (add_arg args w) cells = (if length args < INIT_PARSER_MAXARGS
        then (overlay args cells)(length args := Some w) else overlay args cells)"
      by (simp add: add_arg_def overlay_snoc)
    have len: "length (add_arg args w) = (if length args < INIT_PARSER_MAXARGS then length args + 1 else length args)"
      by (simp add: add_arg_def)
    have step: "parse_config mem_ok st (length args) (overlay args cells) lp c =
        parse_config mem_ok st' (length (add_arg args w)) (overlay (add_arg args w) cells) lp c"
      using T_TEXT word by (simp add: parse_config.simps [of _ st] run add len)
    have le: "length (add_arg args w) \<le> INIT_PARSER_MAXARGS" and ne: "add_arg args w \<noteq> []"
      using less.prems(4) by (auto simp: add_arg_def INIT_PARSER_MAXARGS_def)
    show ?thesis
    proof (cases nt)
      case None
      then show ?thesis
        using IH [of st' "add_arg args w"] st' le T_TEXT by (simp add: step config_lines.simps [of ?cs] lex)
    next
      case (Some t)
      with f T_TEXT have t: "nt = Some T_NEWLINE" by auto
      let ?s = "st'\<lparr>nexttoken := None\<rparr>"
      have "next_token st' = Some (T_NEWLINE, ?s)" using st'(3) t by (simp add: next_token_def)
      moreover have "parse_config mem_ok ?s 0 cells lp c = parse_lines mem_ok (config_lines rest []) cells lp c"
      for cells lp and c :: "'a config_scheme"
        using IH [of ?s "[]"] st' T_TEXT by simp
      ultimately show ?thesis
        using ne t T_TEXT
        by (auto simp: step parse_config.simps [of _ st'] config_lines.simps [of ?cs] lex overlay_args split: option.splits)
    qed
  qed
qed

lemma init_parse_config_file_lines:
  "init_parse_config_file mem_ok read_file fn c =
     (case read_file fn of
        None \<Rightarrow> Some (-1, c)
      | Some d \<Rightarrow> map_option (Pair 0) (parse_lines mem_ok (config_lines (d @ [LF, NUL]) []) (\<lambda>_. None) parse_line_no_op c))"
  using parse_config_lines [of "\<lparr>buf = the (read_file fn) @ [LF, NUL], ptr = 0, tok_text = 0, line = 1, nexttoken = None\<rparr>" "[]"
      mem_ok "\<lambda>_. None" parse_line_no_op c]
  by (cases "read_file fn")
    (simp_all add: init_parse_config_file_def INIT_PARSER_MAXARGS_def option.case_eq_if map_option_case)

section \<open>Invariant\<close>

text \<open>A command was parsed from a command keyword with enough arguments, or is one of the boot actions.\<close>

definition cmd_ok :: "command \<Rightarrow> bool" where
  "cmd_ok cmd \<longleftrightarrow>
     (case cmd_func cmd of
        Do kw \<Rightarrow> kw_is kw COMMAND \<and> kw_nargs kw \<le> length (cmd_args cmd) \<and> length (cmd_args cmd) \<le> INIT_PARSER_MAXARGS \<and>
                 cmd_args cmd ! 0 = kw_name kw
      | Boot b \<Rightarrow> True)"

definition svc_ok :: "service \<Rightarrow> bool" where
  "svc_ok s \<longleftrightarrow>
     valid_name (svc_name s) \<and> svc_args s \<noteq> [] \<and> length (svc_args s) + 2 \<le> INIT_PARSER_MAXARGS \<and>
     length (supp_gids s) = NR_SVC_SUPP_GIDS \<and> nr_supp_gids s \<le> NR_SVC_SUPP_GIDS \<and> (\<forall>cmd \<in> set (onrestart s). cmd_ok cmd)"

definition cfg_ok :: "'a config_scheme \<Rightarrow> bool" where
  "cfg_ok c \<longleftrightarrow>
     distinct (map svc_name (services c)) \<and> (\<forall>s \<in> set (services c). svc_ok s) \<and>
     (\<forall>a \<in> set (actions c). \<forall>cmd \<in> set (commands a). cmd_ok cmd)"

definition lp_ok :: "line_parser \<Rightarrow> 'a config_scheme \<Rightarrow> bool" where
  "lp_ok lp c \<longleftrightarrow>
     (case lp of
        parse_line_no_op \<Rightarrow> True
      | parse_line_service_of i \<Rightarrow> i < length (services c)
      | parse_line_action_of i \<Rightarrow> i < length (actions c))"

lemma find_index_None_iff: "find_index P xs = None \<longleftrightarrow> (\<forall>x \<in> set xs. \<not> P x)"
  by (induction xs) auto

lemma find_index_Some_iff:
  "find_index P xs = Some i \<longleftrightarrow> i < length xs \<and> P (xs ! i) \<and> (\<forall>j < i. \<not> P (xs ! j))"
proof (induction xs arbitrary: i)
  case (Cons x xs)
  show ?case
  proof (cases i)
    case 0
    then show ?thesis by auto
  next
    case (Suc k)
    with Cons show ?thesis by (auto simp: All_less_Suc2)
  qed
qed simp


lemma cfg_ok_simps [simp]:
  "cfg_ok (parse_error m c) = cfg_ok c" "cfg_ok (alloc_step c) = cfg_ok c"
  "services (parse_error m c) = services c" "services (alloc_step c) = services c"
  "actions (parse_error m c) = actions c" "actions (alloc_step c) = actions c"
  by (simp_all add: parse_error_def alloc_step_def cfg_ok_def)

lemma update_service_simps [simp]:
  "length (services (update_service i f c)) = length (services c)" "actions (update_service i f c) = actions c"
  "length (actions (update_action i g c)) = length (actions c)" "services (update_action i g c) = services c"
  "i < length (services c) \<Longrightarrow> services (update_service i f c) ! i = f (services c ! i)"
  by (simp_all add: update_service_def update_action_def)

lemma cfg_ok_update_service:
  assumes ok: "cfg_ok c" and i: "i < length (services c)"
    and f: "svc_ok (services c ! i) \<Longrightarrow> svc_ok (f (services c ! i))" "svc_name (f (services c ! i)) = svc_name (services c ! i)"
  shows "cfg_ok (update_service i f c)"
proof -
  have "map svc_name ((services c)[i := f (services c ! i)]) = map svc_name (services c)"
    using i f(2) by (simp add: map_update list_update_same_conv)
  moreover have "\<forall>s \<in> set ((services c)[i := f (services c ! i)]). svc_ok s"
    using ok i f(1) by (auto simp: cfg_ok_def dest!: set_update_subset_insert [THEN subsetD])
  ultimately show ?thesis using ok by (simp add: cfg_ok_def update_service_def)
qed

lemma cfg_ok_update_action:
  assumes "cfg_ok c" "i < length (actions c)" "cmd_ok cmd"
  shows "cfg_ok (update_action i (\<lambda>a. a\<lparr>commands := commands a @ [cmd]\<rparr>) c)"
proof -
  have "\<forall>x \<in> set (commands (actions c ! i)). cmd_ok x" using assms(1,2) nth_mem [of i "actions c"] by (auto simp: cfg_ok_def)
  then show ?thesis
    using assms by (auto simp: cfg_ok_def update_action_def dest!: set_update_subset_insert [THEN subsetD])
qed

lemma store_gids_length [simp]: "length (store_gids g n as) = length g"
  by (induction as arbitrary: g n) auto

lemma set_flag_ok: "cfg_ok c \<Longrightarrow> i < length (services c) \<Longrightarrow> cfg_ok (set_flag f i c)"
  unfolding set_flag_def by (rule cfg_ok_update_service) (auto simp: svc_ok_def)

lemma set_flag_lengths [simp]:
  "length (services (set_flag f i c)) = length (services c)" "actions (set_flag f i c) = actions c"
  by (simp_all add: set_flag_def)

lemmas opt_defs = opt_class_def opt_ioprio_def opt_group_def opt_keycodes_def opt_setenv_def opt_socket_def opt_user_def

lemma opts_ok:
  assumes "cfg_ok c" "i < length (services c)"
  shows "cfg_ok (opt_class args i c)" "cfg_ok (opt_ioprio args i c)" "cfg_ok (opt_group args i c)"
    "cfg_ok (opt_keycodes mem_ok args i c)" "cfg_ok (opt_setenv mem_ok args rest i c)"
    "cfg_ok (opt_socket mem_ok args i c)" "cfg_ok (opt_user args i c)"
  using assms
  by (auto simp: opt_defs Let_def svc_ok_def NR_SVC_SUPP_GIDS_def intro!: cfg_ok_update_service)

lemma opt_onrestart_ok:
  assumes "cfg_ok c" "i < length (services c)" "length args \<le> INIT_PARSER_MAXARGS"
    and "opt_onrestart mem_ok args rest i c = Some c'"
  shows "cfg_ok c'" "length (services c') = length (services c)" "actions c' = actions c"
proof -
  have cmd: "cmd_ok \<lparr>cmd_func = Do (lookup_keyword a), cmd_args = drop 1 args\<rparr>"
    if "arg_cell args rest 1 = Some a" "kw_is (lookup_keyword a) COMMAND" "\<not> length args - 1 < kw_nargs (lookup_keyword a)" for a
  proof -
    have "0 < kw_nargs (lookup_keyword a)"
      using that(2) by (cases "lookup_keyword a") (auto simp: kw_is_def kw_nargs_def)
    with that(3) have len: "1 < length args" by simp
    with that(1) have "a = args ! 1" by (simp add: arg_cell_def)
    moreover have "lookup_keyword a \<noteq> K_UNKNOWN" using that(2) by (auto simp: kw_is_def)
    ultimately have "args ! 1 = kw_name (lookup_keyword a)" using kw_name_lookup by blast
    then show ?thesis using that len assms(3) by (simp add: cmd_ok_def)
  qed
  show "cfg_ok c'"
    using assms cmd by (auto simp: opt_onrestart_def Let_def svc_ok_def split: option.splits if_splits
        intro!: cfg_ok_update_service)
  show "length (services c') = length (services c)" "actions c' = actions c"
    using assms(4) by (auto simp: opt_onrestart_def Let_def split: option.splits if_splits)
qed

lemma opts_lengths:
  "length (services (opt_class args i c)) = length (services c)" "actions (opt_class args i c) = actions c"
  "length (services (opt_ioprio args i c)) = length (services c)" "actions (opt_ioprio args i c) = actions c"
  "length (services (opt_group args i c)) = length (services c)" "actions (opt_group args i c) = actions c"
  "length (services (opt_keycodes mem_ok args i c)) = length (services c)" "actions (opt_keycodes mem_ok args i c) = actions c"
  "length (services (opt_setenv mem_ok args rest i c)) = length (services c)" "actions (opt_setenv mem_ok args rest i c) = actions c"
  "length (services (opt_socket mem_ok args i c)) = length (services c)" "actions (opt_socket mem_ok args i c) = actions c"
  "length (services (opt_user args i c)) = length (services c)" "actions (opt_user args i c) = actions c"
  by (simp_all add: opt_defs Let_def)

lemma parse_line_service_ok:
  assumes "cfg_ok c" "i < length (services c)" "length args \<le> INIT_PARSER_MAXARGS"
    and "parse_line_service mem_ok args rest i c = Some c'"
  shows "cfg_ok c' \<and> length (services c') = length (services c) \<and> actions c' = actions c"
proof (cases "args = []")
  case True
  with assms show ?thesis by (simp add: parse_line_service_def)
next
  case False
  let ?c = "update_service i (\<lambda>s. s\<lparr>ioprio_class := IoSchedClass_NONE\<rparr>) c"
  have c: "cfg_ok ?c" "i < length (services ?c)"
    using assms(1,2) by (auto intro!: cfg_ok_update_service simp: svc_ok_def)
  show ?thesis
    using assms(4) False opts_ok [OF c] opts_lengths [where c = ?c] set_flag_ok [OF c]
      opt_onrestart_ok [OF c assms(3)] c(1)
    by (cases "lookup_keyword (args ! 0)") (auto simp: parse_line_service_def Let_def)
qed

lemma parse_line_action_ok:
  assumes "cfg_ok c" "i < length (actions c)" "length args \<le> INIT_PARSER_MAXARGS"
    and "parse_line_action mem_ok args i c = Some c'"
  shows "cfg_ok c' \<and> services c' = services c \<and> length (actions c') = length (actions c)"
proof -
  have "cmd_ok \<lparr>cmd_func = Do (lookup_keyword (args ! 0)), cmd_args = args\<rparr>"
    if "kw_is (lookup_keyword (args ! 0)) COMMAND" "kw_nargs (lookup_keyword (args ! 0)) \<le> length args"
    using that assms(3) kw_name_lookup [OF refl, of "args ! 0"]
    by (cases "lookup_keyword (args ! 0) = K_UNKNOWN") (auto simp: cmd_ok_def kw_is_def)
  then show ?thesis
    using assms by (auto simp: parse_line_action_def Let_def split: if_splits intro!: cfg_ok_update_action)
qed

lemma parse_line_ok:
  "cfg_ok c \<Longrightarrow> lp_ok lp c \<Longrightarrow> length args \<le> INIT_PARSER_MAXARGS \<Longrightarrow> parse_line mem_ok lp args rest c = Some c' \<Longrightarrow>
   cfg_ok c' \<and> lp_ok lp c'"
  using parse_line_service_ok [of c _ args mem_ok rest c'] parse_line_action_ok [of c _ args mem_ok c']
  by (auto simp: parse_line_def lp_ok_def split: line_parser.splits)

lemma parse_service_ok:
  assumes "cfg_ok c" "length args \<le> INIT_PARSER_MAXARGS" "parse_service mem_ok args c = (r, c')"
  shows "cfg_ok c' \<and> (\<forall>i. r = Some i \<longrightarrow> i < length (services c'))"
  using assms find_index_None_iff [of "\<lambda>s. svc_name s = args ! 1" "services c"]
  by (auto simp: parse_service_def service_find_by_name_def cfg_ok_def svc_ok_def new_service_def alloc_step_def
      NR_SVC_SUPP_GIDS_def parse_error_def split: if_splits) blast+

lemma parse_action_ok:
  "cfg_ok c \<Longrightarrow> parse_action mem_ok args c = Some (r, c') \<Longrightarrow>
   cfg_ok c' \<and> (\<forall>i. r = Some i \<longrightarrow> i < length (actions c'))"
  by (auto simp: parse_action_def cfg_ok_def alloc_step_def parse_error_def split: if_splits)

lemma end_of_line_ok:
  assumes "cfg_ok c" "lp_ok lp c" "length args \<le> INIT_PARSER_MAXARGS" "end_of_line mem_ok lp args rest c = Some (lp', c')"
  shows "cfg_ok c' \<and> lp_ok lp' c'"
proof (cases "kw_is (lookup_keyword (args ! 0)) SECTION")
  case True
  with assms have "parse_new_section mem_ok (lookup_keyword (args ! 0)) args c = Some (lp', c')"
    by (simp add: end_of_line_def)
  with True parse_service_ok [OF assms(1,3), of mem_ok] parse_action_ok [OF assms(1), of mem_ok args] show ?thesis
    by (auto simp: section_keyword parse_new_section_def lp_ok_def split: option.splits prod.splits)
next
  case False
  with assms parse_line_ok [OF assms(1-3), of mem_ok rest] show ?thesis
    by (auto simp: end_of_line_def split: option.splits)
qed

lemma parse_lines_ok:
  "cfg_ok c \<Longrightarrow> lp_ok lp c \<Longrightarrow> \<forall>l \<in> set ls. length l \<le> INIT_PARSER_MAXARGS \<Longrightarrow>
   parse_lines mem_ok ls cells lp c = Some c' \<Longrightarrow> cfg_ok c'"
proof (induction ls arbitrary: cells lp c)
  case (Cons l ls)
  then obtain lp1 c1 where c1: "end_of_line mem_ok lp l (overlay l cells) c = Some (lp1, c1)"
    "parse_lines mem_ok ls (overlay l cells) lp1 c1 = Some c'"
    by (auto split: option.splits)
  with end_of_line_ok [OF Cons.prems(1,2) _ c1(1)] Cons show ?case by auto
qed simp

lemma config_lines_bounded:
  "length args \<le> INIT_PARSER_MAXARGS \<Longrightarrow> l \<in> set (config_lines cs args) \<Longrightarrow> length l \<le> INIT_PARSER_MAXARGS \<and> l \<noteq> []"
proof (induction "length cs" arbitrary: cs args rule: less_induct)
  case less
  have add: "length (add_arg args w) \<le> INIT_PARSER_MAXARGS \<and> add_arg args w \<noteq> []" for w
    using less.prems(1) by (auto simp: add_arg_def INIT_PARSER_MAXARGS_def)
  show ?case
  proof (cases "lex_token cs")
    case None
    with less.prems show ?thesis by (simp add: config_lines.simps [of cs])
  next
    case (Some r)
    obtain tk w rest k nt where r: "r = (tk, w, rest, k, nt)" by (cases r)
    have IH: "l \<in> set (config_lines rest as) \<Longrightarrow> length l \<le> INIT_PARSER_MAXARGS \<and> l \<noteq> []"
      if "tk \<noteq> T_EOF" "length as \<le> INIT_PARSER_MAXARGS" for as
      using less.hyps [of rest as] lex_token_less [of cs tk w rest k nt] Some r that by simp
    show ?thesis
      using less.prems IH [of "[]"] IH [of "add_arg args w"] add [of w] Some r
      by (cases tk) (auto simp: config_lines.simps [of cs] split: if_splits)
  qed
qed

section \<open>Totality\<close>

lemma parse_line_service_total:
  assumes "args \<noteq> [''onrestart'']"
  shows "parse_line_service (\<lambda>_. True) args rest i c \<noteq> None"
proof -
  have "opt_onrestart (\<lambda>_. True) args rest i c \<noteq> None" if "args \<noteq> []" "lookup_keyword (args ! 0) = K_onrestart" for c :: "'a config_scheme"
  proof -
    have "args ! 0 = ''onrestart''" using kw_name_lookup [OF that(2)] by (simp add: kw_name_def)
    with that(1) assms have "1 < length args" by (cases args) (auto simp: length_Suc_conv)
    then show ?thesis by (simp add: opt_onrestart_def arg_cell_def Let_def)
  qed
  then show ?thesis
    by (cases "lookup_keyword (args ! 0)") (auto simp: parse_line_service_def Let_def)
qed

lemma end_of_line_total:
  assumes "l \<noteq> [''onrestart'']"
  shows "end_of_line (\<lambda>_. True) lp l rest c \<noteq> None"
proof -
  have "parse_line (\<lambda>_. True) lp l rest c \<noteq> None"
    using parse_line_service_total [OF assms]
    by (auto simp: parse_line_def parse_line_action_def Let_def split: line_parser.splits)
  moreover have "parse_new_section (\<lambda>_. True) kw l c \<noteq> None" for kw
    by (cases kw) (auto simp: parse_new_section_def parse_action_def split: prod.splits option.splits)
  ultimately show ?thesis by (auto simp: end_of_line_def Let_def split: option.splits)
qed

lemma parse_lines_total:
  "\<forall>l \<in> set ls. l \<noteq> [''onrestart''] \<Longrightarrow> parse_lines (\<lambda>_. True) ls cells lp c \<noteq> None"
proof (induction ls arbitrary: cells lp c)
  case (Cons l ls)
  then obtain lp' c' where "end_of_line (\<lambda>_. True) lp l (overlay l cells) c = Some (lp', c')"
    using end_of_line_total [of l lp "overlay l cells" c] by auto
  with Cons show ?case by simp
qed simp

section \<open>Properties\<close>

text \<open>C33: The hand-written \<^verbatim>\<open>switch\<close> of \<^verbatim>\<open>lookup_keyword\<close> agrees with the table \<^verbatim>\<open>keywords.h\<close>: it finds every
  keyword under its name in the table, and finds a keyword under no other name.\<close>

theorem lookup_keyword_table:
  "lookup_keyword s = kw \<longleftrightarrow> (if kw = K_UNKNOWN then s \<notin> kw_name ` (UNIV - {K_UNKNOWN}) else s = kw_name kw)"
  using lookup_kw_name kw_name_lookup by (cases "kw = K_UNKNOWN") auto

text \<open>C10: Well-formed configurations.  Whatever the file contains, the parser returns a configuration in
  which service names are pairwise distinct and valid, every service has a program and at most 12
  supplementary groups, and every command has the arguments its keyword requires.  It returns for every
  file, if memory suffices and no line consists of the single word \<^verbatim>\<open>onrestart\<close>.\<close>

theorem parse_config_wellformed:
  assumes "cfg_ok c" "read_file fn = Some d"
  shows "(\<forall>r c'. init_parse_config_file mem_ok read_file fn c = Some (r, c') \<longrightarrow> cfg_ok c' \<and> r = 0) \<and>
    ((\<forall>n. mem_ok n) \<and> [''onrestart''] \<notin> set (config_lines (d @ [LF, NUL]) []) \<longrightarrow>
     (\<exists>c'. init_parse_config_file mem_ok read_file fn c = Some (0, c')))"
proof -
  let ?ls = "config_lines (d @ [LF, NUL]) []"
  have "\<forall>l \<in> set ?ls. length l \<le> INIT_PARSER_MAXARGS"
    using config_lines_bounded [of "[]"] by (simp add: INIT_PARSER_MAXARGS_def)
  then have "parse_lines mem_ok ?ls (\<lambda>_. None) parse_line_no_op c = Some c' \<Longrightarrow> cfg_ok c'" for c'
    using parse_lines_ok [OF assms(1), of parse_line_no_op ?ls] by (simp add: lp_ok_def)
  moreover have "parse_lines mem_ok ?ls (\<lambda>_. None) parse_line_no_op c \<noteq> None"
    if "\<forall>n. mem_ok n" "[''onrestart''] \<notin> set ?ls"
  proof -
    have "mem_ok = (\<lambda>_. True)" using that(1) by auto
    then show ?thesis using parse_lines_total [of ?ls] that(2) by blast
  qed
  ultimately show ?thesis
    by (auto simp: init_parse_config_file_lines assms(2))
qed

definition w_rc :: string where
  "w_rc = ''service adbd /sbin/adbd'' @ [LF] @ ''  user shell'' @ [LF] @ ''  onrestart start zygote'' @ [LF] @
     ''on boot'' @ [LF] @ ''  start adbd''"

definition w_config :: config where
  "w_config = \<lparr>services = [], actions = [], allocs = 0, perrors = []\<rparr>"

theorem parse_config_wellformed_witness:
  "\<exists>c'. init_parse_config_file (\<lambda>_. True) (\<lambda>_. Some w_rc) ''/init.rc'' w_config = Some (0, c') \<and> cfg_ok c'"
proof -
  have "cfg_ok w_config" by (simp add: cfg_ok_def w_config_def)
  moreover have "[''onrestart''] \<notin> set (config_lines (w_rc @ [LF, NUL]) [])"
    by (simp add: w_rc_def config_lines.simps char_consts add_char_def add_arg_def INIT_PARSER_MAXARGS_def)
  ultimately show ?thesis
    using parse_config_wellformed [of w_config "\<lambda>_. Some w_rc" "''/init.rc''" w_rc "\<lambda>_. True"] by blast
qed

text \<open>C34: The option \<^verbatim>\<open>ioprio\<close> is forgotten.  \<^verbatim>\<open>parse_line_service\<close> resets the I/O class of the service at every
  line, so that any later option line of the service, whatever it is, undoes an \<^verbatim>\<open>ioprio\<close> line.\<close>

theorem ioprio_reset_by_next_line:
  assumes "i < length (services c)" "args \<noteq> []" "args ! 0 \<noteq> ''ioprio''"
    and "parse_line_service mem_ok args rest i c = Some c'"
  shows "ioprio_class (services c' ! i) = IoSchedClass_NONE"
proof -
  have "lookup_keyword (args ! 0) \<noteq> K_ioprio"
    using assms(3) kw_name_lookup [of "args ! 0" K_ioprio] by (auto simp: kw_name_def)
  then show ?thesis
    using assms
    by (cases "lookup_keyword (args ! 0)")
      (auto simp: parse_line_service_def opt_defs set_flag_def opt_onrestart_def Let_def split: option.splits if_splits)
qed

theorem ioprio_reset_by_next_line_witness:
  "\<exists>c'. parse_line_service (\<lambda>_. True) [''user'', ''system''] (\<lambda>_. None) 0
      (w_config\<lparr>services := [(new_service ''a'' [''/a''])\<lparr>ioprio_class := IoSchedClass_RT\<rparr>]\<rparr>) = Some c' \<and>
    ioprio_class (services c' ! 0) = IoSchedClass_NONE"
proof -
  let ?c = "w_config\<lparr>services := [(new_service ''a'' [''/a''])\<lparr>ioprio_class := IoSchedClass_RT\<rparr>]\<rparr>"
  obtain c' where "parse_line_service (\<lambda>_. True) [''user'', ''system''] (\<lambda>_. None) 0 ?c = Some c'"
    using parse_line_service_total [of "[''user'', ''system'']" "\<lambda>_. None" 0 ?c] by auto
  with ioprio_reset_by_next_line [of 0 ?c "[''user'', ''system'']" "\<lambda>_. True" "\<lambda>_. None" c'] show ?thesis by auto
qed

text \<open>A \<^verbatim>\<open>setenv\<close> line with a name and no value passes the check of the code and takes as its value whatever
  the third word of an earlier line was.\<close>

lemma setenv_without_value_is_stale:
  "i < length (services c) \<Longrightarrow> mem_ok (allocs c) \<Longrightarrow>
   ei_value (hd (envvars (services (opt_setenv mem_ok [''setenv'', n] rest i c) ! i))) = rest 2"
  by (simp add: opt_setenv_def arg_cell_def)

end
