(* ===== verification/Init_Config_Frame.thy ===== *)
theory Init_Config_Frame
  imports Init_Config_Facts
begin

text \<open>
  What parsing a further file leaves alone: services that exist already, and everything outside the
  configuration.  New services are neither running nor waiting to be restarted.
\<close>

definition fresh :: "service \<Rightarrow> bool" where
  "fresh svc \<longleftrightarrow> svc_pid svc = 0 \<and> \<not> bit (flags svc) 2 \<and> \<not> bit (flags svc) 3"

definition new_fresh :: "nat \<Rightarrow> 'a config_scheme \<Rightarrow> bool" where
  "new_fresh n c \<longleftrightarrow> (\<forall>i. n \<le> i \<and> i < length (services c) \<longrightarrow> fresh (services c ! i))"

definition parse_step :: "nat \<Rightarrow> 'a config_scheme \<Rightarrow> 'a config_scheme \<Rightarrow> bool" where
  "parse_step n c c' \<longleftrightarrow>
     config.more c' = config.more c \<and> take n (services c') = take n (services c) \<and>
     length (services c) \<le> length (services c') \<and> (new_fresh n c \<longrightarrow> new_fresh n c')"

lemma parse_step_refl [simp]: "parse_step n c c"
  by (simp add: parse_step_def)

lemma parse_step_trans: "parse_step n c c' \<Longrightarrow> parse_step n c' c'' \<Longrightarrow> parse_step n c c''"
  by (auto simp: parse_step_def)

lemma parse_step_simps [simp]:
  "parse_step n c (parse_error m c') = parse_step n c c'" "parse_step n c (alloc_step c') = parse_step n c c'"
  by (simp_all add: parse_step_def parse_error_def alloc_step_def new_fresh_def)

lemma parse_step_update:
  assumes "parse_step n c c'" "n \<le> i" "\<And>svc. fresh svc \<Longrightarrow> fresh (f svc)"
  shows "parse_step n c (update_service i f c')"
  using assms by (cases "i < length (services c')")
    (auto simp: parse_step_def update_service_def new_fresh_def nth_list_update list_update_beyond)

lemma flag_bits:
  "bit (w OR 1 :: u32) 2 = bit w 2" "bit (w OR 1 :: u32) 3 = bit w 3"
  "bit (w OR 2 :: u32) 2 = bit w 2" "bit (w OR 2 :: u32) 3 = bit w 3"
  "bit (w OR 16 :: u32) 2 = bit w 2" "bit (w OR 16 :: u32) 3 = bit w 3"
  "bit (w OR 32 :: u32) 2 = bit w 2" "bit (w OR 32 :: u32) 3 = bit w 3"
  by (simp_all add: bit_or_iff bit_1_iff)

lemma parse_line_service_step:
  assumes "n \<le> i" "parse_line_service mem_ok args rest i c = Some c'"
  shows "parse_step n c c'"
proof (cases "args = []")
  case True
  with assms show ?thesis by (simp add: parse_line_service_def)
next
  case False
  let ?c = "update_service i (\<lambda>s. s\<lparr>ioprio_class := IoSchedClass_NONE\<rparr>) c"
  have c: "parse_step n c ?c"
    using assms(1) by (intro parse_step_update) (auto simp: fresh_def)
  note intros = parse_step_update [OF _ assms(1)]
  have opts: "parse_step n c (opt_class args i ?c)" "parse_step n c (opt_ioprio args i ?c)"
    "parse_step n c (opt_group args i ?c)" "parse_step n c (opt_keycodes mem_ok args i ?c)"
    "parse_step n c (opt_setenv mem_ok args rest i ?c)" "parse_step n c (opt_socket mem_ok args i ?c)"
    "parse_step n c (opt_user args i ?c)"
    using c by (auto simp: opt_defs Let_def fresh_def intro!: intros)
  have flag: "parse_step n c (set_flag 1 i ?c)" "parse_step n c (set_flag 2 i ?c)"
    "parse_step n c (set_flag 16 i ?c)" "parse_step n c (set_flag 32 i ?c)"
    unfolding set_flag_def by (auto intro!: intros c simp: fresh_def flag_bits)
  have onr: "parse_step n c c'" if "opt_onrestart mem_ok args rest i ?c = Some c'"
    using that c by (auto simp: opt_onrestart_def Let_def fresh_def split: option.splits if_splits intro!: intros)
  show ?thesis
    using assms(2) False onr
    by (cases "lookup_keyword (args ! 0)") (auto simp: parse_line_service_def Let_def opts flag c)
qed

lemma parse_line_action_step: "parse_line_action mem_ok args i c = Some c' \<Longrightarrow> parse_step n c c'"
  by (auto simp: parse_line_action_def Let_def parse_step_def update_action_def alloc_step_def parse_error_def new_fresh_def
      split: if_splits)

definition lp_new :: "nat \<Rightarrow> line_parser \<Rightarrow> bool" where
  "lp_new n lp \<longleftrightarrow> (case lp of parse_line_service_of i \<Rightarrow> n \<le> i | _ \<Rightarrow> True)"

lemma parse_line_step: "lp_new n lp \<Longrightarrow> parse_line mem_ok lp args rest c = Some c' \<Longrightarrow> parse_step n c c'"
  using parse_line_service_step [of n _ mem_ok args rest c c'] parse_line_action_step [of mem_ok args _ c c' n]
  by (auto simp: parse_line_def lp_new_def split: line_parser.splits)

lemma parse_service_step:
  assumes "n \<le> length (services c)" "parse_service mem_ok args c = (r, c')"
  shows "parse_step n c c' \<and> (\<forall>i. r = Some i \<longrightarrow> n \<le> i)"
  using assms
  by (auto simp: parse_service_def parse_step_def new_fresh_def alloc_step_def parse_error_def nth_append new_service_def fresh_def
      split: if_splits)

lemma parse_action_step:
  "parse_action mem_ok args c = Some (r, c') \<Longrightarrow> parse_step n c c'"
  by (auto simp: parse_action_def parse_step_def new_fresh_def alloc_step_def parse_error_def split: if_splits)

lemma end_of_line_step:
  assumes "n \<le> length (services c)" "lp_new n lp" "end_of_line mem_ok lp args rest c = Some (lp', c')"
  shows "parse_step n c c' \<and> lp_new n lp'"
proof (cases "kw_is (lookup_keyword (args ! 0)) SECTION")
  case True
  with assms have "parse_new_section mem_ok (lookup_keyword (args ! 0)) args c = Some (lp', c')"
    by (simp add: end_of_line_def)
  with True parse_service_step [OF assms(1), of mem_ok args] parse_action_step [of mem_ok args c _ _ n] show ?thesis
    by (auto simp: section_keyword parse_new_section_def lp_new_def split: option.splits prod.splits)
next
  case False
  with assms parse_line_step [OF assms(2), of mem_ok args rest c] show ?thesis
    by (auto simp: end_of_line_def split: option.splits)
qed

lemma parse_lines_step:
  "n \<le> length (services c) \<Longrightarrow> lp_new n lp \<Longrightarrow> parse_lines mem_ok ls cells lp c = Some c' \<Longrightarrow> parse_step n c c'"
proof (induction ls arbitrary: cells lp c)
  case (Cons l ls)
  then obtain lp1 c1 where c1: "end_of_line mem_ok lp l (overlay l cells) c = Some (lp1, c1)"
    "parse_lines mem_ok ls (overlay l cells) lp1 c1 = Some c'"
    by (auto split: option.splits)
  from end_of_line_step [OF Cons.prems(1,2) c1(1)] have s: "parse_step n c c1" "lp_new n lp1" by auto
  then have "n \<le> length (services c1)" using Cons.prems(1) by (auto simp: parse_step_def)
  with Cons.IH c1(2) s show ?case by (blast intro: parse_step_trans)
qed simp

lemma init_parse_config_file_step:
  assumes "init_parse_config_file mem_ok read_file fn c = Some (r, c')"
  shows "parse_step (length (services c)) c c'"
  using assms parse_lines_step [of "length (services c)" c parse_line_no_op mem_ok]
  by (auto simp: init_parse_config_file_lines lp_new_def split: option.splits)

lemma init_parse_config_file_ok:
  assumes "cfg_ok c" "init_parse_config_file mem_ok read_file fn c = Some (r, c')"
  shows "cfg_ok c'"
proof (cases "read_file fn")
  case None
  with assms show ?thesis by (simp add: init_parse_config_file_lines)
next
  case (Some d)
  have "\<forall>l \<in> set (config_lines (d @ [LF, NUL]) []). length l \<le> INIT_PARSER_MAXARGS"
    using config_lines_bounded [of "[]"] by (simp add: INIT_PARSER_MAXARGS_def)
  with Some assms parse_lines_ok [OF assms(1), of parse_line_no_op] show ?thesis
    by (auto simp: init_parse_config_file_lines lp_ok_def)
qed

end
