(* ===== verification/Init_Service_Facts.thy ===== *)
theory Init_Service_Facts
  imports Init_Service Init_Property_Facts Init_Config_Frame
begin

text \<open>
  The invariant of the \<^verbatim>\<open>init\<close> process, and that the operations on properties and services keep it: the
  configuration and the property area stay well formed, the flags of a service agree with its process
  id, and \<^verbatim>\<open>ro.\<close> properties keep their values.
\<close>

section \<open>Flags\<close>

lemma flag_iff:
  "(w AND 1 \<noteq> (0 :: u32)) = bit w 0" "(w AND 2 \<noteq> (0 :: u32)) = bit w 1" "(w AND 4 \<noteq> (0 :: u32)) = bit w 2"
  "(w AND 8 \<noteq> (0 :: u32)) = bit w 3" "(w AND 16 \<noteq> (0 :: u32)) = bit w 4" "(w AND 32 \<noteq> (0 :: u32)) = bit w 5"
proof -
  have *: "(w AND 2 ^ n \<noteq> 0) = bit w n" for n
    by (simp add: and_exp_eq_0_iff_not_bit)
  show "(w AND 1 \<noteq> 0) = bit w 0" using * [of 0] by simp
  show "(w AND 2 \<noteq> 0) = bit w 1" using * [of 1] by simp
  show "(w AND 4 \<noteq> 0) = bit w 2" using * [of 2] by simp
  show "(w AND 8 \<noteq> 0) = bit w 3" using * [of 3] by simp
  show "(w AND 16 \<noteq> 0) = bit w 4" using * [of 4] by simp
  show "(w AND 32 \<noteq> 0) = bit w 5" using * [of 5] by simp
qed

lemma has_flag_iff [simp]:
  "has_flag i 1 s = bit (flags (services s ! i)) 0" "has_flag i 2 s = bit (flags (services s ! i)) 1"
  "has_flag i 4 s = bit (flags (services s ! i)) 2" "has_flag i 8 s = bit (flags (services s ! i)) 3"
  "has_flag i 16 s = bit (flags (services s ! i)) 4" "has_flag i 32 s = bit (flags (services s ! i)) 5"
  by (simp_all add: has_flag_def flag_iff)

lemma bit_set_flags:
  "i < length (services s) \<Longrightarrow> bit (flags (services (set_flags i f s) ! i)) n = (bit (flags (services s ! i)) n \<or> bit f n)"
  by (simp add: set_flags_def bit_or_iff)

lemma bit_clear_flags:
  "i < length (services s) \<Longrightarrow> bit (flags (services (clear_flags i f s) ! i)) n = (bit (flags (services s ! i)) n \<and> \<not> bit f n)"
  by (auto simp: clear_flags_def bit_and_iff bit_not_iff dest: bit_imp_possible_bit)

section \<open>Services\<close>

text \<open>A running service has a process, and a service that waits for its restart has none, and is neither
  running nor disabled nor of the kind that runs only once.\<close>

definition svc_run_ok :: "service \<Rightarrow> bool" where
  "svc_run_ok svc \<longleftrightarrow>
     svc_pid svc \<ge> 0 \<and> (bit (flags svc) 2 \<longrightarrow> svc_pid svc > 0) \<and>
     (bit (flags svc) 3 \<longrightarrow> svc_pid svc = 0 \<and> \<not> bit (flags svc) 2 \<and> \<not> bit (flags svc) 0 \<and> \<not> bit (flags svc) 1)"

text \<open>What may change of a service at run time.\<close>

definition svc_dyn :: "service \<Rightarrow> service \<Rightarrow> bool" where
  "svc_dyn svc svc' \<longleftrightarrow>
     (\<exists>f p t c n k. svc' = svc\<lparr>flags := f, svc_pid := p, time_started := t, time_crashed := c, nr_crashed := n, keychord_id := k\<rparr>)"

lemma svc_dyn_fields:
  assumes "svc_dyn svc svc'"
  shows "svc_ok svc' = svc_ok svc" "svc_name svc' = svc_name svc" "svc_args svc' = svc_args svc"
    "onrestart svc' = onrestart svc" "sockets svc' = sockets svc" "classname svc' = classname svc"
  using assms by (auto simp: svc_dyn_def svc_ok_def)

lemma svc_dyn_refl [simp]: "svc_dyn svc svc"
  unfolding svc_dyn_def
  by (intro exI [of _ "flags svc"] exI [of _ "svc_pid svc"] exI [of _ "time_started svc"] exI [of _ "time_crashed svc"]
      exI [of _ "nr_crashed svc"] exI [of _ "keychord_id svc"]) simp

lemma svc_dyn_trans: "svc_dyn a b \<Longrightarrow> svc_dyn b c \<Longrightarrow> svc_dyn a c"
  unfolding svc_dyn_def by (elim exE) (simp, blast)

lemma svc_dyn_updates [simp]:
  "svc_dyn svc (svc\<lparr>flags := f\<rparr>)" "svc_dyn svc (svc\<lparr>svc_pid := p\<rparr>)" "svc_dyn svc (svc\<lparr>time_started := t\<rparr>)"
  "svc_dyn svc (svc\<lparr>nr_crashed := n\<rparr>)" "svc_dyn svc (svc\<lparr>time_crashed := c, nr_crashed := n\<rparr>)"
  "svc_dyn svc (svc\<lparr>keychord_id := k\<rparr>)"
  unfolding svc_dyn_def by (cases svc; simp)+

text \<open>Everything of the state but the services and the trace.\<close>

definition rest :: "init \<Rightarrow> _" where
  "rest s = (actions s, allocs s, perrors s, action_queue s, cur_action s, cur_command s,
     property_triggers_enabled s, pa s, property_area_inited s, persistent_properties_loaded s, have_console s,
     console_name s, ENV s, boot s, property_set_fd s, signal_recv_fd s, keychord_fd s,
     keychords s, keychords_count s, log_level s, pa_fd s)"

text \<open>Only the service \<open>i\<close> and the trace differ.\<close>

definition only :: "nat \<Rightarrow> init \<Rightarrow> init \<Rightarrow> bool" where
  "only i s s' \<longleftrightarrow>
     services s' = (services s)[i := services s' ! i] \<and> svc_dyn (services s ! i) (services s' ! i) \<and> rest s' = rest s"

lemma only_refl [simp]: "only i s s"
  by (simp add: only_def)

lemma only_trans: "only i s s' \<Longrightarrow> only i s' s'' \<Longrightarrow> only i s s''"
  unfolding only_def by (metis list_update_overwrite svc_dyn_trans)

lemma only_update: "i < length (services s) \<Longrightarrow> svc_dyn (services s ! i) (f (services s ! i)) \<Longrightarrow> only i s (update_service i f s)"
  by (simp add: only_def update_service_def rest_def)

lemma only_flags [simp]:
  "i < length (services s) \<Longrightarrow> only i s (set_flags i f s)" "i < length (services s) \<Longrightarrow> only i s (clear_flags i f s)"
  by (simp_all add: set_flags_def clear_flags_def only_update)

lemma only_length: "only i s s' \<Longrightarrow> length (services s') = length (services s)"
  unfolding only_def by (metis length_list_update)

lemma syscall_fields [simp]:
  "services (snd (syscall E c s)) = services s" "services (do_syscall E c s) = services s"
  "rest (snd (syscall E c s)) = rest s" "rest (do_syscall E c s) = rest s"
  "services (snd (gettime E s)) = services s" "rest (snd (gettime E s)) = rest s"
  "process_needs_restart (snd (syscall E c s)) = process_needs_restart s"
  "process_needs_restart (snd (gettime E s)) = process_needs_restart s"
  by (simp_all add: syscall_def do_syscall_def gettime_def rest_def Let_def)

lemma only_syscall [simp]:
  "only i s (snd (syscall E c s))" "only i s (do_syscall E c s)" "only i s (snd (gettime E s))"
  by (simp_all add: only_def)

lemma syscall_pair:
  assumes "syscall E c s = (r, t)"
  shows "services t = services s" "rest t = rest s" "only i s t" "pa t = pa s" "trace t = (c, r) # trace s"
    "process_needs_restart t = process_needs_restart s"
  using assms by (auto simp: syscall_def Let_def only_def rest_def)

lemma gettime_pair:
  assumes "gettime E s = (r, t)"
  shows "services t = services s" "rest t = rest s" "only i s t" "pa t = pa s" "process_needs_restart t = process_needs_restart s"
  using assms by (auto simp: gettime_def syscall_def Let_def only_def rest_def split: if_splits)

text \<open>Starting a service clears \<^verbatim>\<open>SVC_RESTARTING\<close>; the new flags agree with the process id if the old ones did.\<close>

definition start_result :: "service \<Rightarrow> service \<Rightarrow> bool" where
  "start_result old new \<longleftrightarrow> (svc_run_ok old \<longrightarrow> svc_run_ok new) \<and> \<not> bit (flags new) 3"

lemma service_start_effect:
  assumes i: "i < length (services s)" and start: "service_start E i d s = Some s'"
  shows "\<exists>s1. only i s s1 \<and> start_result (services s ! i) (services s1 ! i) \<and>
    (s' = s1 \<or> bit (flags (services s1 ! i)) 2 \<and> svc_pid (services s1 ! i) > 0 \<and>
      notify_service_state E (svc_name (services s ! i)) ''running'' s1 = Some s')"
proof -
  define s1 where "s1 = update_service i (\<lambda>svc. svc\<lparr>time_started := 0\<rparr>) (clear_flags i (1 OR 8) s)"
  have o1: "only i s s1"
    unfolding s1_def using i by (intro only_trans [OF only_flags(2) only_update]) (auto simp: clear_flags_def)
  have i1: "i < length (services s1)" using i only_length [OF o1] by simp
  have b1: "bit (flags (services s1 ! i)) n = (bit (flags (services s ! i)) n \<and> \<not> bit (1 OR 8 :: u32) n)" for n
    using i bit_clear_flags [OF i, of "1 OR 8" n] by (simp add: s1_def clear_flags_def)
  have p1: "svc_pid (services s1 ! i) = svc_pid (services s ! i)"
    using i by (simp add: s1_def clear_flags_def)
  have name: "svc_name (services t ! i) = svc_name (services s ! i)" if "only i s t" for t
    using that by (simp add: only_def svc_dyn_fields)
  have dis: "start_result (services s ! i) (services (set_flags i 1 t) ! i)"
    if "services t = services s1" "\<not> bit (flags (services s1 ! i)) 2" for t
  proof -
    have "bit (flags (services (set_flags i 1 t) ! i)) n = (bit (flags (services s1 ! i)) n \<or> bit (1 :: u32) n)" for n
      using that(1) i1 by (simp add: bit_set_flags)
    moreover have "svc_pid (services (set_flags i 1 t) ! i) = svc_pid (services s ! i)"
      using that(1) i1 p1 by (simp add: set_flags_def)
    ultimately show ?thesis using that(2) by (simp add: start_result_def svc_run_ok_def b1 bit_1_iff)
  qed
  note d = start [unfolded service_start_def Let_def, folded s1_def]
  show ?thesis
  proof (cases "bit (flags (services s1 ! i)) 2")
    case True
    with d have "s' = s1" by simp
    moreover have "start_result (services s ! i) (services s1 ! i)"
      using True by (auto simp: start_result_def svc_run_ok_def b1 p1)
    ultimately show ?thesis using o1 by blast
  next
    case nr: False
    show ?thesis
    proof (cases "bit (flags (services s1 ! i)) 4 \<and> \<not> have_console s1")
      case True
      with d nr have "s' = set_flags i 1 s1" by simp
      with only_trans [OF o1 only_flags(1) [OF i1]] dis [of s1] nr show ?thesis by blast
    next
      case False
      obtain r s2 where s2: "syscall E (Stat (svc_args (services s1 ! i) ! 0)) s1 = (r, s2)"
        by (metis surj_pair)
      note e2 = syscall_pair [OF s2]
      have o2: "only i s s2" using only_trans [OF o1 e2(3)] .
      have i2: "i < length (services s2)" using i1 e2(1) by simp
      show ?thesis
      proof (cases "r \<noteq> 0 \<or> \<not> bit (flags (services s2 ! i)) 1 \<and> d \<noteq> None")
        case True
        with d nr False s2 have "s' = set_flags i 1 s2" by (auto split: if_splits)
        with only_trans [OF o2 only_flags(1) [OF i2]] dis [OF e2(1) nr] show ?thesis by blast
      next
        case ok: False
        obtain pid s3 where s3: "syscall E Fork s2 = (pid, s3)" by (metis surj_pair)
        note e3 = syscall_pair [OF s3]
        have o3: "only i s s3" using only_trans [OF o2 e3(3)] .
        have i3: "i < length (services s3)" using i2 e3(1) by simp
        show ?thesis
        proof (cases "pid < 0")
          case True
          let ?t = "update_service i (\<lambda>svc. svc\<lparr>svc_pid := 0\<rparr>) s3"
          from True d nr False s2 ok s3 have "s' = ?t" by (auto split: if_splits)
          moreover have "only i s ?t" using only_trans [OF o3 only_update [OF i3]] by simp
          moreover have "start_result (services s ! i) (services ?t ! i)"
            using i3 e3(1) e2(1) nr by (simp add: start_result_def svc_run_ok_def b1)
          ultimately show ?thesis by blast
        next
          case pos: False
          obtain now s4 where s4: "gettime E s3 = (now, s4)" by (metis surj_pair)
          note e4 = gettime_pair [OF s4]
          define s5 where "s5 = update_service i (\<lambda>svc. svc\<lparr>svc_pid := pid\<rparr>) (update_service i (\<lambda>svc. svc\<lparr>time_started := now\<rparr>) s4)"
          have i4: "i < length (services s4)" using i3 e4(1) by simp
          have o5: "only i s s5"
            unfolding s5_def
            by (rule only_trans [OF only_trans [OF o3 e4(3)] only_trans [OF only_update only_update]]) (use i4 in simp_all)
          have i5: "i < length (services s5)" using i only_length [OF o5] by simp
          have f5: "flags (services s5 ! i) = flags (services s1 ! i)" "svc_pid (services s5 ! i) = pid"
            using i4 e4(1) e3(1) e2(1) by (simp_all add: s5_def)
          let ?t = "set_flags i 4 s5"
          have o: "only i s ?t" using only_trans [OF o5 only_flags(1) [OF i5]] .
          have bt: "bit (flags (services ?t ! i)) n = (bit (flags (services s1 ! i)) n \<or> bit (4 :: u32) n)" for n
            using i5 f5 by (simp add: bit_set_flags)
          have pt: "svc_pid (services ?t ! i) = pid" using i5 f5 by (simp add: set_flags_def)
          from d nr False s2 ok s3 pos s4 have "pid > 0" and
            res: "s' = ?t \<or> notify_service_state E (svc_name (services ?t ! i)) ''running'' ?t = Some s'"
            by (auto simp: s5_def [symmetric] split: if_splits)
          moreover have "start_result (services s ! i) (services ?t ! i)"
            using \<open>pid > 0\<close> by (simp add: start_result_def svc_run_ok_def bt pt b1)
          moreover have "bit (flags (services ?t ! i)) 2" by (simp add: bt)
          ultimately show ?thesis
            using o name [OF o] pt by (intro exI [of _ ?t]) auto
        qed
      qed
    qed
  qed
qed

lemma service_stop_effect:
  assumes i: "i < length (services s)" and stop: "service_stop E i s = Some s'"
  shows "\<exists>s1 st. only i s s1 \<and> (svc_run_ok (services s ! i) \<longrightarrow> svc_run_ok (services s1 ! i)) \<and>
    \<not> bit (flags (services s1 ! i)) 2 \<and> \<not> bit (flags (services s1 ! i)) 3 \<and> bit (flags (services s1 ! i)) 0 \<and>
    svc_pid (services s1 ! i) = svc_pid (services s ! i) \<and>
    notify_service_state E (svc_name (services s ! i)) st s1 = Some s'"
proof -
  define s1 where "s1 = set_flags i 1 (clear_flags i (4 OR 8) s)"
  have o1: "only i s s1"
    unfolding s1_def using i by (intro only_trans [OF only_flags(2) only_flags(1)]) (auto simp: clear_flags_def)
  have b1: "bit (flags (services s1 ! i)) n = (bit (flags (services s ! i)) n \<and> \<not> bit (4 OR 8 :: u32) n \<or> bit (1 :: u32) n)" for n
    using i bit_clear_flags [OF i, of "4 OR 8" n] bit_set_flags [of i "clear_flags i (4 OR 8) s" 1 n]
    by (simp add: s1_def clear_flags_def)
  have p1: "svc_pid (services s1 ! i) = svc_pid (services s ! i)"
    using i by (simp add: s1_def clear_flags_def set_flags_def)
  have run: "svc_run_ok (services s ! i) \<longrightarrow> svc_run_ok (services s1 ! i)"
    by (simp add: svc_run_ok_def b1 p1 bit_1_iff)
  have name: "svc_name (services s1 ! i) = svc_name (services s ! i)"
    using o1 by (simp add: only_def svc_dyn_fields)
  let ?t = "do_syscall E (Kill (- svc_pid (services s1 ! i)) 15) s1"
  have ot: "only i s ?t" using only_trans [OF o1] by simp
  note d = stop [unfolded service_stop_def Let_def, folded s1_def]
  show ?thesis
  proof (cases "svc_pid (services s1 ! i) = 0")
    case True
    with d o1 run b1 p1 name show ?thesis
      by (intro exI [of _ s1] exI [of _ "''stopped''"]) (simp add: bit_1_iff)
  next
    case False
    with d ot run b1 p1 name show ?thesis
      by (intro exI [of _ ?t] exI [of _ "''stopping''"]) (simp add: bit_1_iff)
  qed
qed

section \<open>The invariant of init\<close>

definition area_ok :: "env \<Rightarrow> init \<Rightarrow> bool" where
  "area_ok E s \<longleftrightarrow> env_ok E \<and> pa_ok E (pa s) \<and> (property_area_inited s \<or> infos (pa s) = [])"

definition init_ok :: "env \<Rightarrow> init \<Rightarrow> bool" where
  "init_ok E s \<longleftrightarrow> cfg_ok s \<and> (\<forall>svc \<in> set (services s). svc_run_ok svc) \<and> area_ok E s"

definition ro_kept :: "init \<Rightarrow> init \<Rightarrow> bool" where
  "ro_kept s s' \<longleftrightarrow> (\<forall>k v. has_prefix ''ro.'' k \<longrightarrow> prop_map (pa s) k = Some v \<longrightarrow> prop_map (pa s') k = Some v)"

definition grows :: "env \<Rightarrow> init \<Rightarrow> init \<Rightarrow> bool" where
  "grows E s s' \<longleftrightarrow> length (services s) \<le> length (services s') \<and> (init_ok E s \<longrightarrow> init_ok E s' \<and> ro_kept s s')"

lemma ro_kept_refl [simp]: "ro_kept s s"
  by (simp add: ro_kept_def)

lemma grows_refl [simp]: "grows E s s"
  by (simp add: grows_def)

lemma grows_trans [trans]: "grows E s s' \<Longrightarrow> grows E s' s'' \<Longrightarrow> grows E s s''"
  unfolding grows_def ro_kept_def by (meson order_trans)

lemma grows_length: "grows E s s' \<Longrightarrow> i < length (services s) \<Longrightarrow> i < length (services s')"
  by (auto simp: grows_def)

lemma cfg_ok_cong: "services s' = services s \<Longrightarrow> actions s' = actions s \<Longrightarrow> cfg_ok s' = cfg_ok s"
  by (simp add: cfg_ok_def)

lemma grows_same:
  assumes "services s' = services s" "actions s' = actions s" "pa s' = pa s" "property_area_inited s' = property_area_inited s"
  shows "grows E s s'"
  using assms cfg_ok_cong [OF assms(1,2)] by (simp add: grows_def init_ok_def area_ok_def ro_kept_def)

lemma rest_fields: "rest s' = rest s \<Longrightarrow> actions s' = actions s \<and> pa s' = pa s \<and> property_area_inited s' = property_area_inited s"
  by (simp add: rest_def)

lemma grows_rest: "services s' = services s \<Longrightarrow> rest s' = rest s \<Longrightarrow> grows E s s'"
  using rest_fields [of s' s] by (intro grows_same) auto

lemma grows_syscall [simp]: "grows E s (snd (syscall E' c s))" "grows E s (do_syscall E' c s)" "grows E s (snd (gettime E' s))"
  by (rule grows_rest; simp)+

lemma grows_syscall_pair: "syscall E' c s = (r, t) \<Longrightarrow> grows E s t" "gettime E' s = (r, t) \<Longrightarrow> grows E s t"
  by (metis grows_syscall(1) snd_conv, metis grows_syscall(3) snd_conv)

lemma set_update_memD: "x \<in> set (xs[i := y]) \<Longrightarrow> x \<in> set xs \<or> x = y"
  using set_update_subset_insert [of xs i y] by auto

lemma grows_only:
  assumes "only i s s'" "i < length (services s)" "svc_run_ok (services s ! i) \<Longrightarrow> svc_run_ok (services s' ! i)"
  shows "grows E s s'"
proof -
  have sv: "services s' = (services s)[i := services s' ! i]" and d: "svc_dyn (services s ! i) (services s' ! i)"
    and r: "actions s' = actions s" "pa s' = pa s" "property_area_inited s' = property_area_inited s"
    using assms(1) rest_fields [of s' s] by (auto simp: only_def)
  have "cfg_ok s'" if "cfg_ok s"
  proof -
    have "cfg_ok (update_service i (\<lambda>_. services s' ! i) s)"
      using that assms(2) d by (intro cfg_ok_update_service) (simp_all add: svc_dyn_fields)
    then show ?thesis using sv r(1) by (simp add: cfg_ok_def update_service_def)
  qed
  moreover have "\<forall>svc \<in> set (services s'). svc_run_ok svc" if "\<forall>svc \<in> set (services s). svc_run_ok svc"
    using that assms(2,3) by (subst sv) (auto dest!: set_update_memD)
  ultimately show ?thesis
    using r only_length [OF assms(1)] by (auto simp: grows_def init_ok_def area_ok_def ro_kept_def)
qed

lemma area_ok_inv: "area_ok E s \<Longrightarrow> property_area_inited s \<Longrightarrow> prop_inv E s"
  by (simp add: area_ok_def prop_inv_def)

lemma property_set_uninited:
  assumes "area_ok E s" "\<not> property_area_inited s" "property_set E n v s = Some (r, s')"
  shows "s' = s \<and> r = -1"
proof -
  have e: "infos (pa s) = []" and f: "find_ok E" using assms by (auto simp: area_ok_def env_ok_def)
  from f have "prop_find E (pa s) n = None"
    by (cases rule: find_cases [of E "pa s" n]) (use e in auto)
  with assms e show ?thesis
    by (auto simp: property_set.simps [of E n] store_property_cases PA_COUNT_MAX_def split: if_splits)
qed

lemma store_property_services: "store_property E n v s = Some (r, s') \<Longrightarrow> services s' = services s"
  by (auto simp: store_property_cases split: if_splits option.splits)

lemma property_set_services: "property_set E n v s = Some (r, s') \<Longrightarrow> services s' = services s"
proof (induction E n v s arbitrary: r s' rule: property_set.induct)
  case (1 E n v s)
  have q: "services (property_changed n v t) = services t" for t
    using prop_frame_fields(1) [OF property_changed_simps(2)] by simp
  have w: "services (write_persistent_property E n v t) = services t" for t
    using prop_frame_fields(1) [OF write_persistent_simps(2)] by simp
  obtain r0 t where t: "store_property E n v s = Some (r0, t)" "services t = services s"
    using 1(2) store_property_services by (subst (asm) property_set.simps) (force split: option.splits)
  have net: "services u = services s"
    if "property_set E ''net.change'' n t = Some (k, u)" "r0 = 0" "has_prefix ''net.'' n" "n \<noteq> ''net.change''" for k u
    using 1(1) [OF t(1) refl] that t(2) by simp
  show ?case
  proof (cases "r0 = 0 \<and> has_prefix ''net.'' n \<and> n \<noteq> ''net.change''")
    case True
    with 1(2) t(1) net show ?thesis
      by (subst (asm) property_set.simps) (auto simp: q split: option.splits)
  next
    case False
    with 1(2) t show ?thesis
      by (subst (asm) property_set.simps) (auto simp: q w Let_def split: if_splits)
  qed
qed

lemma set_property_grows:
  assumes "set_property E n v s = Some s'"
  shows "grows E s s' \<and> (area_ok E s \<longrightarrow> prop_frame s s')"
proof -
  obtain r where r: "property_set E n v s = Some (r, s')" using assms by (auto simp: set_property_def)
  have main: "length (services s) \<le> length (services s') \<and> prop_frame s s' \<and> (init_ok E s \<longrightarrow> init_ok E s' \<and> ro_kept s s')"
    if a: "area_ok E s"
  proof (cases "property_area_inited s")
    case True
    obtain t where t: "set_property E n v s = Some t" "prop_map (pa t) = snd (spec_set E n v (prop_map (pa s)))"
      "prop_inv E t" "prop_frame s t"
      using set_property_spec [OF area_ok_inv [OF a True]] by blast
    with assms have [simp]: "t = s'" by simp
    note f = prop_frame_fields [OF t(4), simplified]
    have "ro_kept s s'" using t(2) spec_set_ro by (auto simp: ro_kept_def)
    moreover have "init_ok E s'" if "init_ok E s"
      using that t(3) f cfg_ok_cong [OF f(1,2)] by (simp add: init_ok_def area_ok_def prop_inv_def)
    ultimately show ?thesis using f(1) t(4) by simp
  next
    case False
    with property_set_uninited [OF a False r] show ?thesis by simp
  qed
  moreover have "length (services s) \<le> length (services s')"
    using r property_set_services by simp
  ultimately show ?thesis by (auto simp: grows_def init_ok_def)
qed

end
