(* ===== verification/Init_Service_Inv.thy ===== *)
theory Init_Service_Inv
  imports Init_Service_Facts
begin

text \<open>
  Every operation on services, keychords and configuration files keeps the invariant of \<^verbatim>\<open>init\<close>.
\<close>

section \<open>Operations on services keep the invariant\<close>

lemmas set_property_grows1 = set_property_grows [THEN conjunct1]

lemma notify_grows: "notify_service_state E n st s = Some s' \<Longrightarrow> grows E s s'"
  by (auto simp: notify_service_state_def split: if_splits dest: set_property_grows1)

lemma service_start_grows [inv_pres]:
  assumes "i < length (services s)" "service_start E i d s = Some s'"
  shows "grows E s s'"
proof -
  obtain s1 where s1: "only i s s1" "start_result (services s ! i) (services s1 ! i)"
    "s' = s1 \<or> notify_service_state E (svc_name (services s ! i)) ''running'' s1 = Some s'"
    using service_start_effect [OF assms] by blast
  then have "grows E s s1" using assms(1) by (intro grows_only) (auto simp: start_result_def)
  with s1(3) show ?thesis using notify_grows grows_trans by blast
qed

lemma service_stop_grows [inv_pres]:
  assumes "i < length (services s)" "service_stop E i s = Some s'"
  shows "grows E s s'"
proof -
  obtain s1 st where s1: "only i s s1" "svc_run_ok (services s ! i) \<longrightarrow> svc_run_ok (services s1 ! i)"
    "notify_service_state E (svc_name (services s ! i)) st s1 = Some s'"
    using service_stop_effect [OF assms] by blast
  then have "grows E s s1" using assms(1) by (intro grows_only) auto
  with s1(3) show ?thesis using notify_grows grows_trans by blast
qed

lemma for_each_service_grows:
  assumes "\<And>i s s'. i < length (services s) \<Longrightarrow> f i s = Some s' \<Longrightarrow> grows E s s'"
    and "for_each_service f is s = Some s'" "\<forall>i \<in> set is. i < length (services s)"
  shows "grows E s s'"
  using assms(2,3)
proof (induction "is" arbitrary: s)
  case (Cons i "is")
  then obtain t where t: "f i s = Some t" "for_each_service f is t = Some s'" by (auto split: option.splits)
  have g: "grows E s t" using assms(1) [OF _ t(1)] Cons.prems by simp
  then have "\<forall>j \<in> set is. j < length (services t)" using Cons.prems grows_length by auto
  with Cons.IH [OF t(2)] g show ?case by (blast intro: grows_trans)
qed simp

lemma service_for_each_grows:
  assumes "\<And>i s s'. i < length (services s) \<Longrightarrow> f i s = Some s' \<Longrightarrow> grows E s s'"
  shows "service_for_each f s = Some s' \<Longrightarrow> grows E s s'"
    and "service_for_each_class c f s = Some s' \<Longrightarrow> grows E s s'"
    and "service_for_each_flags m f s = Some s' \<Longrightarrow> grows E s s'"
  unfolding service_for_each_def service_for_each_class_def service_for_each_flags_def
  by (erule for_each_service_grows [rotated], force, use assms in \<open>auto split: if_splits\<close>)+

lemma restart_service_grows [inv_pres]:
  assumes "i < length (services s)" "restart_service_if_needed E i s = Some s'"
  shows "grows E s s'"
proof -
  obtain now t where t: "gettime E s = (now, t)" by (metis surj_pair)
  have i: "i < length (services t)" and g: "grows E s t"
    using assms(1) gettime_pair(1) [OF t] grows_syscall_pair(2) [OF t] by auto
  let ?u = "clear_flags i 8 t"
  have "grows E t ?u"
  proof (rule grows_only)
    assume "svc_run_ok (services t ! i)"
    moreover have "svc_pid (services ?u ! i) = svc_pid (services t ! i)" using i by (simp add: clear_flags_def)
    ultimately show "svc_run_ok (services ?u ! i)" using i by (simp add: svc_run_ok_def bit_clear_flags)
  qed (use i in simp_all)
  moreover have "i < length (services ?u)" using i by (simp add: clear_flags_def)
  moreover have "grows E t (t\<lparr>process_needs_restart := k\<rparr>)" for k by (rule grows_same) simp_all
  ultimately show ?thesis
    using assms(2) t g service_start_grows [of i ?u E None s']
    by (auto simp: restart_service_if_needed_def Let_def split: if_splits intro: grows_trans)
qed

lemma restart_processes_grows [inv_pres]:
  assumes "restart_processes E s = Some s'"
  shows "grows E s s'"
proof -
  have "grows E s (s\<lparr>process_needs_restart := 0\<rparr>)" by (rule grows_same) simp_all
  moreover have "grows E (s\<lparr>process_needs_restart := 0\<rparr>) s'"
    using assms unfolding restart_processes_def 
    by (rule service_for_each_grows(3) [where f = "restart_service_if_needed E" and E = E, rotated]) (rule restart_service_grows)
  ultimately show ?thesis by (rule grows_trans)
qed

lemma find_by_name_index: "service_find_by_name n s = Some i \<Longrightarrow> i < length (services s) \<and> svc_name (services s ! i) = n"
  by (auto simp: service_find_by_name_def find_index_Some_iff)

lemma handle_control_message_grows [inv_pres]:
  "handle_control_message E msg a s = Some s' \<Longrightarrow> grows E s s'"
  by (auto simp: handle_control_message_def msg_start_def msg_stop_def Let_def split: if_splits option.splits
      dest: find_by_name_index intro: service_start_grows service_stop_grows)

lemma handle_keychord_grows [inv_pres]: "handle_keychord E k s = Some s' \<Longrightarrow> grows E s s'"
  by (auto simp: handle_keychord_def service_find_by_keychord_def find_index_Some_iff Let_def
      split: if_splits option.splits intro: service_start_grows)

lemma add_service_keycodes_grows:
  assumes "i < length (services s)" "add_service_keycodes E i s = Some s'"
  shows "grows E s s'"
proof (cases "keycodes (services s ! i) = None \<or> \<not> mem_ok E (allocs s)")
  case True
  with assms show ?thesis
    by (auto simp: add_service_keycodes_def split: option.splits intro!: grows_same)
next
  case False
  let ?u = "update_service i (\<lambda>svc. svc\<lparr>keychord_id := (keychords_count s + 1) mod 65536\<rparr>) s"
  have "grows E s ?u"
    by (rule grows_only [OF only_update]) (use assms(1) in \<open>simp_all add: svc_run_ok_def\<close>)
  moreover have "grows E ?u s'"
    using False assms by (auto simp: add_service_keycodes_def Let_def split: option.splits intro!: grows_same)
  ultimately show ?thesis by (rule grows_trans)
qed

lemma keychord_init_grows [inv_pres]:
  assumes "keychord_init E s = Some s'"
  shows "grows E s s'"
proof -
  obtain t where t: "service_for_each (add_service_keycodes E) s = Some t"
    using assms by (auto simp: keychord_init_def split: option.splits)
  have "grows E s t" using t
    by (rule service_for_each_grows(1) [where f = "add_service_keycodes E" and E = E, rotated]) (rule add_service_keycodes_grows)
  moreover have "grows E t s'"
    using assms t by (auto simp: keychord_init_def Let_def syscall_def split: option.splits if_splits intro!: grows_same)
  ultimately show ?thesis by (rule grows_trans)
qed

lemma config_more_select:
  fixes s :: init
  shows "pa s = pa \<lparr>services = [], actions = [], allocs = 0, perrors = [], \<dots> = config.more s\<rparr>"
    "property_area_inited s = property_area_inited \<lparr>services = [], actions = [], allocs = 0, perrors = [], \<dots> = config.more s\<rparr>"
  by (cases s, simp)+

lemma config_more_fields:
  fixes s s' :: init
  assumes "config.more s' = config.more s"
  shows "pa s' = pa s" "property_area_inited s' = property_area_inited s"
  by (simp_all only: config_more_select [of s] config_more_select [of s'] assms)

lemma parse_grows [inv_pres]:
  assumes "init_parse_config_file m rf fn s = Some (r, s')"
  shows "grows E s s'"
proof -
  let ?n = "length (services s)"
  have st: "parse_step ?n s s'" using assms by (rule init_parse_config_file_step)
  then have f: "config.more s' = config.more s" "take ?n (services s') = services s" "?n \<le> length (services s')" "new_fresh ?n s'"
    by (auto simp: parse_step_def new_fresh_def)
  have "\<forall>svc \<in> set (services s'). svc_run_ok svc" if "\<forall>svc \<in> set (services s). svc_run_ok svc"
  proof
    fix svc assume "svc \<in> set (services s')"
    then obtain j where j: "j < length (services s')" "services s' ! j = svc" by (auto simp: in_set_conv_nth)
    show "svc_run_ok svc"
    proof (cases "j < ?n")
      case True
      then have "svc = services s ! j" using f(2) j by (metis nth_take)
      with True that show ?thesis by auto
    next
      case False
      with f(4) j have "fresh svc" by (auto simp: new_fresh_def)
      then show ?thesis by (simp add: fresh_def svc_run_ok_def)
    qed
  qed
  with f assms init_parse_config_file_ok config_more_fields [OF f(1)] show ?thesis
    by (auto simp: grows_def init_ok_def area_ok_def ro_kept_def)
qed

lemma wait_for_service_grows [inv_pres]: "wait_for_service E fn s = Some (r, s') \<Longrightarrow> grows E s s'"
  by (auto simp: wait_for_service_def syscall_def Let_def split: if_splits intro!: grows_same)

lemma add_environment_grows [inv_pres]: "add_environment E k v s = Some (r, s') \<Longrightarrow> grows E s s'"
  by (auto simp: add_environment_def split: if_splits intro!: grows_same)

end
