(* ===== verification/Init_Boot_Inv.thy ===== *)
theory Init_Boot_Inv
  imports Init_Boot Init_Service_Inv
begin

text \<open>
  The invariant of \<^verbatim>\<open>init\<close> over its whole life: every command, every action of the boot sequence, every request
  and every iteration of the main loop keeps it.
\<close>

section \<open>Commands\<close>

lemma returns_Some [simp]: "returns r res = Some (q, s) \<longleftrightarrow> res = Some s \<and> q = r"
  by (auto simp: returns_def split: option.splits)

lemma with_arg_Some: "with_arg args i f = Some x \<longleftrightarrow> i < length args \<and> f (args ! i) = Some x"
  by (auto simp: with_arg_def arg_def)

lemma write_file_grows: "write_file E p v s = (r, s') \<Longrightarrow> grows E s s'"
  by (auto simp: write_file_def syscall_def Let_def split: if_splits intro!: grows_same)

lemma insmod_grows: "insmod E f opts s = (r, s') \<Longrightarrow> grows E s s'"
  by (auto simp: insmod_def split: option.splits dest: grows_syscall_pair)

lemma setkey_grows: "setkey E a b c s = (r, s') \<Longrightarrow> grows E s s'"
  by (auto simp: setkey_def syscall_def Let_def split: if_splits intro!: grows_same)

lemma mount_at_grows: "mount_at E w src tgt sy fl opts s = (r, s') \<Longrightarrow> grows E s s'"
  by (auto simp: mount_at_def do_syscall_def syscall_def Let_def split: if_splits intro!: grows_same)

lemma mount_loop_grows: "mount_loop k n E fd tgt sy fl opts s = (r, s') \<Longrightarrow> grows E s s'"
proof (induction k n E fd tgt sy fl opts s arbitrary: r s' rule: mount_loop.induct)
  case (1 n E fd tgt sy fl opts s)
  then show ?case by auto
next
  case (2 k n E fd tgt sy fl opts s)
  obtain loop s1 where s1: "syscall E (Open (''/dev/block/loop'' @ show_nat n)) s = (loop, s1)" by (metis surj_pair)
  obtain r2 s2 where s2: "syscall E (Loop_get_status loop) s1 = (r2, s2)" by (metis surj_pair)
  obtain r3 s3 where s3: "syscall E (Loop_set_fd loop fd) s2 = (r3, s3)" by (metis surj_pair)
  obtain r4 s4 where s4: "syscall E (Mount (''/dev/block/loop'' @ show_nat n) tgt sy fl opts) s3 = (r4, s4)"
    by (metis surj_pair)
  have g: "grows E s s1" "grows E s1 s2" "grows E s2 s3" "grows E s3 s4"
    using s1 s2 s3 s4 by (auto dest: grows_syscall_pair)
  have g4: "grows E s s4" and g3: "grows E s s3" and g2: "grows E s s2"
    using g grows_trans by blast+
  have "grows E s (do_syscall E (Loop_clr_fd loop) s4)" using g4 grows_syscall(2) by (rule grows_trans)
  with 2 s1 s2 s3 s4 g g2 g3 g4 show ?case
    by (auto split: if_splits intro: grows_trans)
qed

lemma action_for_each_trigger_eq:
  "action_for_each_trigger t add_queue_tail s = queue_actions (trigger_actions t s) s"
  unfolding action_for_each_trigger_def all_actions_def trigger_actions_def
  by (subst for_each_queue) simp_all

lemma queue_actions_grows [simp]: "grows E s (queue_actions is s)"
  by (rule grows_same) (simp_all add: queue_actions_def)

lemma start_if_not_disabled_grows:
  "i < length (services s) \<Longrightarrow> service_start_if_not_disabled E i s = Some s' \<Longrightarrow> grows E s s'"
  by (auto simp: service_start_if_not_disabled_def split: if_splits dest: service_start_grows)

lemma do_class_grows:
  "do_class_start E args s = Some (r, s') \<Longrightarrow> grows E s s'" "do_class_stop E args s = Some (r, s') \<Longrightarrow> grows E s s'"
proof -
  assume "do_class_start E args s = Some (r, s')"
  then have "service_for_each_class (args ! 1) (service_start_if_not_disabled E) s = Some s'"
    by (simp add: do_class_start_def with_arg_Some)
  then show "grows E s s'"
    by (rule service_for_each_grows(2) [where f = "service_start_if_not_disabled E" and E = E, rotated])
      (rule start_if_not_disabled_grows)
next
  assume "do_class_stop E args s = Some (r, s')"
  then have "service_for_each_class (args ! 1) (service_stop E) s = Some s'"
    by (simp add: do_class_stop_def with_arg_Some)
  then show "grows E s s'"
    by (rule service_for_each_grows(2) [where f = "service_stop E" and E = E, rotated]) (rule service_stop_grows)
qed

lemma do_service_grows:
  "do_start E args s = Some (r, s') \<Longrightarrow> grows E s s'" "do_stop E args s = Some (r, s') \<Longrightarrow> grows E s s'"
  "do_restart E args s = Some (r, s') \<Longrightarrow> grows E s s'"
proof -
  assume "do_restart E args s = Some (r, s')"
  then consider "s' = s"
    | i t where "i < length (services s)" "service_stop E i s = Some t" "service_start E i None t = Some s'"
    by (auto simp: do_restart_def with_arg_Some split: option.splits dest: find_by_name_index)
  then show "grows E s s'"
  proof cases
    case 2
    have "grows E s t" using 2 service_stop_grows by blast
    moreover have "grows E t s'" using 2 grows_length [OF calculation] service_start_grows by blast
    ultimately show ?thesis by (rule grows_trans)
  qed simp
qed (auto simp: do_start_def do_stop_def with_arg_Some split: option.splits dest!: find_by_name_index
    intro: service_start_grows service_stop_grows)

lemma do_file_grows:
  "do_mkdir E args s = Some (r, s') \<Longrightarrow> grows E s s'" "do_chown E args s = Some (r, s') \<Longrightarrow> grows E s s'"
  "do_chmod E args s = Some (r, s') \<Longrightarrow> grows E s s'" "do_sysclktz E args s = Some (r, s') \<Longrightarrow> grows E s s'"
  "do_chdir E args s = Some (r, s') \<Longrightarrow> grows E s s'" "do_chroot E args s = Some (r, s') \<Longrightarrow> grows E s s'"
  "do_symlink E args s = Some (r, s') \<Longrightarrow> grows E s s'" "do_setrlimit E args s = Some (r, s') \<Longrightarrow> grows E s s'"
  "do_loglevel E args s = Some (r, s') \<Longrightarrow> grows E s s'" "do_wait E args s = Some (r, s') \<Longrightarrow> grows E s s'"
  by (auto simp: do_mkdir_def do_chown_def do_chmod_def do_sysclktz_def do_chdir_def do_chroot_def do_symlink_def
      do_setrlimit_def do_loglevel_def do_wait_def with_arg_Some do_syscall_def syscall_def Let_def
      split: if_splits intro!: grows_same)

lemma do_mount_grows: "do_mount E args s = Some (r, s') \<Longrightarrow> grows E s s'"
  by (auto simp: do_mount_def with_arg_Some Let_def split: prod.splits if_splits
      dest!: mount_at_grows mount_loop_grows grows_syscall_pair(1) intro: grows_trans)

lemma do_other_grows:
  "do_domainname E args s = Some (r, s') \<Longrightarrow> grows E s s'" "do_hostname E args s = Some (r, s') \<Longrightarrow> grows E s s'"
  "do_write E args s = Some (r, s') \<Longrightarrow> grows E s s'" "do_insmod E args s = Some (r, s') \<Longrightarrow> grows E s s'"
  "do_setkey E args s = Some (r, s') \<Longrightarrow> grows E s s'" "do_export E args s = Some (r, s') \<Longrightarrow> grows E s s'"
  "do_exec E args s = Some (r, s') \<Longrightarrow> grows E s s'" "do_import E args s = Some (r, s') \<Longrightarrow> grows E s s'"
  "do_setprop E args s = Some (r, s') \<Longrightarrow> grows E s s'" "do_trigger E args s = Some (r, s') \<Longrightarrow> grows E s s'"
  by (auto simp: do_domainname_def do_hostname_def do_write_def do_insmod_def do_insmod_inner_def do_setkey_def do_export_def
      do_exec_def do_import_def do_setprop_def do_trigger_def with_arg_Some Let_def action_for_each_trigger_eq
      split: if_splits dest: write_file_grows insmod_grows setkey_grows add_environment_grows wait_for_service_grows
        parse_grows set_property_grows1)

lemmas do_grows = do_class_grows do_service_grows do_file_grows do_mount_grows do_other_grows

lemma do_keyword_grows: "do_keyword E kw args s = Some (r, s') \<Longrightarrow> grows E s s'"
  unfolding do_keyword_def
  by (cases kw) (simp_all only: keyword.case option.inject option.distinct, (erule do_grows grows_syscall_pair(1) | simp)+)

section \<open>Reaping\<close>

lemma four_bit [simp]: "bit (4 :: int) n \<longleftrightarrow> n = 2"
  using bit_exp_iff [where ?'a = int, of 2 n] by simp

lemma run_keyword_command_grows: "run_keyword_command E cmd s = Some (r, s') \<Longrightarrow> grows E s s'"
  by (auto simp: run_keyword_command_def split: func.splits dest: do_keyword_grows)

lemma run_commands_grows: "run_commands E cmds s = Some s' \<Longrightarrow> grows E s s'"
proof (induction cmds arbitrary: s)
  case (Cons cmd cmds)
  then obtain r t where "run_keyword_command E cmd s = Some (r, t)" "run_commands E cmds t = Some s'"
    by (auto split: option.splits)
  with Cons.IH run_keyword_command_grows show ?case by (blast intro: grows_trans)
qed simp

lemma unlink_sockets_only [simp]: "only i s (unlink_sockets E sis s)" "services (unlink_sockets E sis s) = services s"
proof (induction sis arbitrary: s)
  case (Cons si sis)
  { case 1 show ?case using only_trans [OF only_syscall(2) Cons(1)] by simp }
  { case 2 show ?case using Cons(2) by simp }
qed simp_all

text \<open>The first half of \<^verbatim>\<open>wait_for_one_process\<close> for a process of the service \<open>i\<close>: it is marked as gone, and as disabled
  if it was to run once.\<close>

definition reaped :: "env \<Rightarrow> nat \<Rightarrow> int \<Rightarrow> init \<Rightarrow> init" where
  "reaped E i pid s =
     (let s = (if \<not> has_flag i SVC_ONESHOT s then do_syscall E (Kill (- pid) SIGKILL) s else s);
          s = unlink_sockets E (sockets (services s ! i)) s;
          s = update_service i (\<lambda>svc. svc\<lparr>svc_pid := 0\<rparr>) s;
          s = clear_flags i SVC_RUNNING s
      in if has_flag i SVC_ONESHOT s then set_flags i SVC_DISABLED s else s)"

lemma reaped_effect:
  assumes i: "i < length (services s)"
  shows "only i s (reaped E i pid s)" "svc_pid (services (reaped E i pid s) ! i) = 0"
    "bit (flags (services (reaped E i pid s) ! i)) n =
      (bit (flags (services s ! i)) n \<and> n \<noteq> 2 \<or> bit (flags (services s ! i)) 1 \<and> n = 0)"
proof -
  define s1 where "s1 = (if \<not> has_flag i 2 s then do_syscall E (Kill (- pid) 9) s else s)"
  define s2 where "s2 = unlink_sockets E (sockets (services s1 ! i)) s1"
  define s3 where "s3 = update_service i (\<lambda>svc. svc\<lparr>svc_pid := 0\<rparr>) s2"
  define s4 where "s4 = clear_flags i 4 s3"
  define s5 where "s5 = (if has_flag i 2 s4 then set_flags i 1 s4 else s4)"
  have r: "reaped E i pid s = s5"
    by (simp add: reaped_def s5_def s4_def s3_def s2_def s1_def Let_def)
  have o1: "only i s s1" "services s1 = services s" by (auto simp: s1_def)
  have o2: "only i s s2" "services s2 = services s" using only_trans [OF o1(1)] o1(2) by (auto simp: s2_def)
  have i2: "i < length (services s2)" using i o2(2) by simp
  have o3: "only i s s3" unfolding s3_def by (rule only_trans [OF o2(1) only_update [OF i2]]) simp
  have f3: "services s3 = (services s)[i := (services s ! i)\<lparr>svc_pid := 0\<rparr>]"
    using o2(2) by (simp add: s3_def update_service_def)
  have i3: "i < length (services s3)" using i f3 by simp
  have o4: "only i s s4" unfolding s4_def by (rule only_trans [OF o3 only_flags(2) [OF i3]])
  have i4: "i < length (services s4)" using i only_length [OF o4] by simp
  have b4: "bit (flags (services s4 ! i)) n = (bit (flags (services s ! i)) n \<and> n \<noteq> 2)" for n
    using bit_clear_flags [OF i3, of 4 n] i by (auto simp: s4_def f3)
  have p4: "svc_pid (services s4 ! i) = 0" using i3 i f3 by (simp add: s4_def clear_flags_def)
  show "only i s (reaped E i pid s)" unfolding r s5_def using o4 only_trans [OF o4 only_flags(1) [OF i4]] by simp
  show "svc_pid (services (reaped E i pid s) ! i) = 0" unfolding r s5_def using p4 i4 by (simp add: set_flags_def)
  show "bit (flags (services (reaped E i pid s) ! i)) n =
      (bit (flags (services s ! i)) n \<and> n \<noteq> 2 \<or> bit (flags (services s ! i)) 1 \<and> n = 0)"
    unfolding r s5_def using b4 bit_set_flags [OF i4, of 1 n] by (auto simp: bit_1_iff)
qed

lemma reaped_counters:
  assumes "i < length (services s)"
  shows "time_crashed (services (reaped E i pid s) ! i) = time_crashed (services s ! i)"
    "nr_crashed (services (reaped E i pid s) ! i) = nr_crashed (services s ! i)"
  using assms by (simp_all add: reaped_def Let_def set_flags_def clear_flags_def)

text \<open>The second half: what happens to a service that is to be restarted.\<close>

definition crash_counted :: "nat \<Rightarrow> int \<Rightarrow> init \<Rightarrow> init" where
  "crash_counted i now s =
     (if has_flag i SVC_CRITICAL s then
        if time_crashed (services s ! i) + CRITICAL_CRASH_WINDOW \<ge> now
        then update_service i (\<lambda>svc. svc\<lparr>nr_crashed := nr_crashed svc + 1\<rparr>) s
        else update_service i (\<lambda>svc. svc\<lparr>time_crashed := now, nr_crashed := 1\<rparr>) s
      else s)"

lemma wait_for_one_process_eq:
  "wait_for_one_process E s =
     (let (pid, s) = syscall E Waitpid s in
      if pid \<le> 0 then Some (-1, s)
      else case service_find_by_pid pid s of
        None \<Rightarrow> Some (0, s)
      | Some i \<Rightarrow>
          let s = reaped E i pid s in
          if has_flag i SVC_DISABLED s then
            returns 0 (notify_service_state E (svc_name (services s ! i)) ''stopped'' s)
          else
            let (now, t) = gettime E s; u = crash_counted i now t in
            if has_flag i SVC_CRITICAL t \<and> time_crashed (services t ! i) + CRITICAL_CRASH_WINDOW \<ge> now \<and>
               nr_crashed (services u ! i) > CRITICAL_CRASH_THRESHOLD then
              Some (0, do_syscall E (Reboot ''recovery'') (do_syscall E Sync u))
            else
              let s = set_flags i SVC_RESTARTING u in
              case run_commands E (onrestart (services s ! i)) s of
                None \<Rightarrow> None
              | Some s \<Rightarrow> returns 0 (notify_service_state E (svc_name (services s ! i)) ''restarting'' s))"
  unfolding wait_for_one_process_def reaped_def crash_counted_def Let_def by (rule refl)

lemma crash_counted_effect:
  assumes "i < length (services s)"
  shows "only i s (crash_counted i now s)" "flags (services (crash_counted i now s) ! i) = flags (services s ! i)"
    "svc_pid (services (crash_counted i now s) ! i) = svc_pid (services s ! i)"
  using assms by (auto simp: crash_counted_def intro!: only_update)

lemma find_by_pid_index: "service_find_by_pid p s = Some i \<Longrightarrow> i < length (services s) \<and> svc_pid (services s ! i) = p"
  by (auto simp: service_find_by_pid_def find_index_Some_iff)

lemma reaped_run_ok:
  assumes "i < length (services s)" "svc_pid (services s ! i) > 0" "svc_run_ok (services s ! i)"
  shows "svc_run_ok (services (reaped E i pid s) ! i)" "\<not> bit (flags (services (reaped E i pid s) ! i)) 3"
  using assms reaped_effect [OF assms(1)] by (auto simp: svc_run_ok_def)

lemma wait_for_one_process_grows:
  assumes "wait_for_one_process E s = Some (r, s')"
  shows "grows E s s'"
proof -
  obtain pid s1 where s1: "syscall E Waitpid s = (pid, s1)" by (metis surj_pair)
  have g1: "grows E s s1" using s1 by (rule grows_syscall_pair)
  note d = assms [unfolded wait_for_one_process_eq s1 Let_def prod.case]
  show ?thesis
  proof (cases "pid \<le> 0 \<or> service_find_by_pid pid s1 = None")
    case True
    with d g1 show ?thesis by (auto split: if_splits)
  next
    case False
    then obtain i where i: "service_find_by_pid pid s1 = Some i" and pid: "pid > 0" by auto
    note idx = find_by_pid_index [OF i]
    let ?s2 = "reaped E i pid s1"
    have o2: "only i s1 ?s2" using idx reaped_effect by blast
    have g2: "grows E s1 ?s2" using idx pid o2 reaped_run_ok by (intro grows_only [OF o2]) auto
    have i2: "i < length (services ?s2)" using idx only_length [OF o2] by simp
    show ?thesis
    proof (cases "has_flag i 1 ?s2")
      case True
      with d i pid have "notify_service_state E (svc_name (services ?s2 ! i)) ''stopped'' ?s2 = Some s'" by simp
      with g1 g2 show ?thesis using notify_grows grows_trans by blast
    next
      case nd: False
      obtain now s3 where s3: "gettime E ?s2 = (now, s3)" by (metis surj_pair)
      note e3 = gettime_pair [OF s3]
      let ?s4 = "crash_counted i now s3"
      have i3: "i < length (services s3)" using i2 e3(1) by simp
      note e4 = crash_counted_effect [OF i3, of now]
      have i4: "i < length (services ?s4)" using i3 only_length [OF e4(1)] by simp
      have g4: "grows E s3 ?s4" using e4 by (intro grows_only [OF e4(1) i3]) (simp add: svc_run_ok_def)
      have o5: "only i ?s2 (set_flags i 8 ?s4)"
        by (rule only_trans [OF e3(3) only_trans [OF e4(1) only_flags(1) [OF i4]]])
      have g5: "grows E ?s2 (set_flags i 8 ?s4)"
      proof (rule grows_only [OF o5 i2])
        have "svc_pid (services (set_flags i 8 ?s4) ! i) = 0"
          using i4 e4(3) e3(1) reaped_effect(2) [of i s1 E pid] idx by (simp add: set_flags_def)
        moreover have "bit (flags (services (set_flags i 8 ?s4) ! i)) n =
            (bit (flags (services ?s2 ! i)) n \<or> bit (8 :: u32) n)" for n
          using bit_set_flags [OF i4, of 8 n] e4(2) e3(1) by simp
        moreover have "\<not> bit (flags (services ?s2 ! i)) 0" using nd by simp
        moreover have "bit (flags (services ?s2 ! i)) 1 \<Longrightarrow> bit (flags (services ?s2 ! i)) 0"
          "\<not> bit (flags (services ?s2 ! i)) 2"
          using reaped_effect(3) [of i s1 E pid] idx by auto
        ultimately show "svc_run_ok (services (set_flags i 8 ?s4) ! i)" by (auto simp: svc_run_ok_def)
      qed
      have g34: "grows E s ?s4" using g1 g2 grows_syscall_pair(2) [OF s3] g4 grows_trans by blast
      have rb: "grows E ?s4 (do_syscall E (Reboot ''recovery'') (do_syscall E Sync ?s4))"
        using grows_syscall(2) grows_syscall(2) by (rule grows_trans)
      have gs: "grows E s (set_flags i 8 ?s4)" using g1 g2 g5 grows_trans by blast
      from d i pid nd s3 consider "s' = do_syscall E (Reboot ''recovery'') (do_syscall E Sync ?s4)"
        | t where "run_commands E (onrestart (services (set_flags i 8 ?s4) ! i)) (set_flags i 8 ?s4) = Some t"
            "notify_service_state E (svc_name (services t ! i)) ''restarting'' t = Some s'"
        by (auto split: if_splits option.splits)
      then show ?thesis
      proof cases
        case 1
        with g34 rb show ?thesis using grows_trans by blast
      next
        case 2
        show ?thesis by (rule grows_trans [OF gs grows_trans [OF run_commands_grows [OF 2(1)] notify_grows [OF 2(2)]]])
      qed
    qed
  qed
qed

lemma handle_signal_grows: "handle_signal E s = Some s' \<Longrightarrow> grows E s s'"
proof (rule handle_signal.raw_induct [of "\<lambda>E s s'. grows E s s'"], goal_cases)
  case (1 hs E s s')
  then show ?case
    by (auto split: option.splits if_splits dest: wait_for_one_process_grows intro: grows_trans)
qed

section \<open>Boot actions\<close>

lemma set_boot_grows [simp]: "grows E s (set_boot f s)"
  by (rule grows_same) (simp_all add: set_boot_def)

lemma import_kernel_nv_grows: "import_kernel_nv E n q s = Some s' \<Longrightarrow> grows E s s'"
  by (auto simp: import_kernel_nv_def Let_def split: option.splits if_splits dest: set_property_grows1)

lemma import_words_grows: "import_words E p q s = Some s' \<Longrightarrow> grows E s s'"
proof (induction E p q s rule: import_words.induct)
  case (1 E p q s)
  show ?case
  proof (cases "p = [] \<or> strchr p CHR '' '' = None")
    case True
    with 1(2) show ?thesis by (subst (asm) import_words.simps) (auto split: if_splits dest: import_kernel_nv_grows)
  next
    case False
    then obtain x where x: "p \<noteq> []" "strchr p CHR '' '' = Some x" by auto
    with 1(2) obtain t where t: "import_kernel_nv E (take (length p - length x) p) q s = Some t"
      "import_words E (drop 1 x) q t = Some s'"
      by (subst (asm) import_words.simps) (auto split: option.splits)
    show ?thesis by (rule grows_trans [OF import_kernel_nv_grows [OF t(1)] 1(1) [OF x t]])
  qed
qed

lemma import_kernel_cmdline_grows: "import_kernel_cmdline E q s = Some s' \<Longrightarrow> grows E s s'"
  by (auto simp: import_kernel_cmdline_def Let_def dest!: import_words_grows intro: grows_trans)

lemma get_hardware_name_grows [simp]: "grows E s (get_hardware_name E s)"
proof -
  have *: "grows E s (set_boot f (set_boot g s))" for f g using set_boot_grows set_boot_grows by (rule grows_trans)
  show ?thesis by (auto simp: get_hardware_name_def Let_def * split: option.splits)
qed

lemma set_properties_grows: "set_properties E ps s = Some s' \<Longrightarrow> grows E s s'"
proof (induction E ps s rule: set_properties.induct)
  case (2 E n v ps s)
  then show ?case by (auto split: option.splits dest: set_property_grows1 intro: grows_trans)
qed simp

lemma load_properties_grows: "load_properties E p s = Some s' \<Longrightarrow> grows E s s'"
proof (induction E p s rule: load_properties.induct)
  case (1 E p s)
  show ?case
  proof (cases "strchr p LF")
    case None
    with 1(3) show ?thesis by (subst (asm) load_properties.simps) simp
  next
    case (Some eol)
    let ?l = "property_line (take (length p - length eol) p)"
    show ?thesis
    proof (cases ?l)
      case None
      with Some 1(3) have "load_properties E (drop 1 eol) s = Some s'"
        by (subst (asm) load_properties.simps) simp
      with 1(1) [OF Some refl refl None] show ?thesis .
    next
      case (Some kv)
      obtain k v where kv: "kv = (k, v)" by (cases kv)
      with Some 1(3) \<open>strchr p LF = Some eol\<close> obtain t where t: "set_property E k v s = Some t"
        "load_properties E (drop 1 eol) t = Some s'"
        by (subst (asm) load_properties.simps) (auto split: option.splits)
      have "grows E t s'" using 1(2) [OF \<open>strchr p LF = Some eol\<close> refl refl Some] kv t by simp
      with set_property_grows1 [OF t(1)] show ?thesis by (rule grows_trans)
    qed
  qed
qed

lemma load_file_grows: "load_properties_from_file E fn s = Some s' \<Longrightarrow> grows E s s'"
  by (auto simp: load_properties_from_file_def split: option.splits dest: load_properties_grows)

lemma load_entries_grows: "load_persistent_entries E es s = Some s' \<Longrightarrow> grows E s s'"
proof (induction E es s rule: load_persistent_entries.induct)
  case (2 E d reg es s)
  then show ?case by (auto split: option.splits if_splits dest: set_property_grows1 intro: grows_trans)
qed simp

lemma load_persistent_grows: "load_persistent_properties E s = Some s' \<Longrightarrow> grows E s s'"
proof -
  assume "load_persistent_properties E s = Some s'"
  then obtain t where t: "t = s \<or> (\<exists>es. load_persistent_entries E es s = Some t)" "s' = t\<lparr>persistent_properties_loaded := True\<rparr>"
    by (auto simp: load_persistent_properties_def split: option.splits)
  have "grows E t s'" unfolding t(2) by (rule grows_same) simp_all
  moreover have "grows E s t" using t(1) load_entries_grows [of E _ s t] by auto
  ultimately show ?thesis by (rule grows_trans [rotated])
qed

lemma create_socket_grows: "create_socket E n ty pm u g s = (fd, s') \<Longrightarrow> grows E s s'"
  by (auto simp: create_socket_def do_syscall_def syscall_def Let_def split: if_splits intro!: grows_same)

lemma start_property_service_grows:
  assumes "start_property_service E s = Some s'"
  shows "grows E s s'"
proof -
  obtain s1 s2 s3 s4 where s: "load_properties_from_file E (PROP_PATH_SYSTEM_BUILD E) s = Some s1"
    "load_properties_from_file E (PROP_PATH_SYSTEM_DEFAULT E) s1 = Some s2"
    "load_properties_from_file E (PROP_PATH_LOCAL_OVERRIDE E) s2 = Some s3" "load_persistent_properties E s3 = Some s4"
    using assms by (auto simp: start_property_service_def split: option.splits)
  obtain fd s5 where s5: "create_socket E (PROP_SERVICE_NAME E) 1 (oct 0 6 6 6) 0 0 s4 = (fd, s5)" by (metis surj_pair)
  have "grows E s5 s'"
    using assms s s5 by (auto simp: start_property_service_def split: if_splits intro!: grows_same)
  moreover have "grows E s s5"
    using load_file_grows [OF s(1)] load_file_grows [OF s(2)] load_file_grows [OF s(3)] load_persistent_grows [OF s(4)]
      create_socket_grows [OF s5] by (blast intro: grows_trans)
  ultimately show ?thesis by (rule grows_trans [rotated])
qed

lemma init_workspace_rest:
  assumes "init_workspace E n s = (r, t)"
  shows "services t = services s" "actions t = actions s" "pa t = pa s" "property_area_inited t = property_area_inited s"
  using assms by (auto simp: init_workspace_def do_syscall_def syscall_def Let_def split: if_splits)

lemma init_property_area_grows [simp]: "grows E s (snd (init_property_area E s))"
proof (cases "property_area_inited s")
  case True
  then show ?thesis by (simp add: init_property_area_def)
next
  case False
  obtain r t where t: "init_workspace E PA_SIZE s = (r, t)" by (metis surj_pair)
  note e = init_workspace_rest [OF t]
  have gt: "grows E s t" using e by (intro grows_same) auto
  have "grows E s (t\<lparr>pa := empty_area, property_area_inited := True\<rparr>)"
    using e False cfg_ok_cong [of "t\<lparr>pa := empty_area, property_area_inited := True\<rparr>" s]
    by (auto simp: grows_def init_ok_def area_ok_def ro_kept_def empty_area_def pa_ok_def prop_map_def)
  with gt t False show ?thesis by (simp add: init_property_area_def)
qed

lemma property_init_grows: "property_init E s = Some s' \<Longrightarrow> grows E s s'"
  unfolding property_init_def by (rule grows_trans [OF init_property_area_grows load_file_grows])

lemma do_console_init_grows: "do_console_init E s = Some s' \<Longrightarrow> grows E s s'"
  by (auto simp: do_console_init_def do_syscall_def syscall_def Let_def split: if_splits intro!: grows_same)

lemma set_init_properties_grows: "do_set_init_properties E s = Some s' \<Longrightarrow> grows E s s'"
  by (auto simp: do_set_init_properties_def split: option.splits if_splits
      dest: import_kernel_cmdline_grows set_properties_grows intro: grows_trans)

lemma signal_init_grows:
  assumes "signal_init E s = Some s'"
  shows "grows E s s'"
proof -
  obtain r t where t: "syscall E Socketpair s = (r, t)" by (metis surj_pair)
  let ?u = "if r = 0 then t\<lparr>signal_recv_fd := snd (pair_fds E (trace t))\<rparr> else t"
  have "grows E t ?u" by (auto intro!: grows_same)
  moreover have "handle_signal E ?u = Some s'" using assms t by (simp add: signal_init_def Let_def)
  ultimately show ?thesis
    using grows_syscall_pair(1) [OF t] handle_signal_grows by (blast intro: grows_trans)
qed

lemma queue_triggers_grows: "grows E s (do_queue_property_triggers E s)"
  unfolding do_queue_property_triggers_def queue_all_eq
  by (rule grows_same) (simp_all add: queue_actions_def)

lemma run_boot_action_grows: "run_boot_action E b s = Some (r, s') \<Longrightarrow> grows E s s'"
  by (cases b) (auto simp: run_boot_action_def do_check_startup_def queue_triggers_grows split: if_splits
      dest: grows_syscall_pair(1) property_init_grows keychord_init_grows do_console_init_grows set_init_properties_grows
        start_property_service_grows signal_init_grows)

lemma run_command_grows: "run_command E cmd s = Some (r, s') \<Longrightarrow> grows E s s'"
  by (auto simp: run_command_def split: func.splits dest: do_keyword_grows run_boot_action_grows)

section \<open>The main loop\<close>

lemma handle_property_set_fd_grows: "handle_property_set_fd E conn s = Some s' \<Longrightarrow> grows E s s'"
  by (auto simp: handle_property_set_fd_def Let_def split: if_splits option.splits
      dest: handle_control_message_grows set_property_grows1)

text \<open>The choice of the next command: what \<^verbatim>\<open>execute_one_command\<close> does before it calls the function.\<close>

definition next_command :: "init \<Rightarrow> init" where
  "next_command s =
     (let s = (case (cur_action s, cur_command s) of
                 (Some act, Some cmd) \<Rightarrow>
                   if is_last_command act cmd s then s\<lparr>cur_action := None\<rparr>
                   else s\<lparr>cur_command := get_next_command act cmd s\<rparr>
               | _ \<Rightarrow> s\<lparr>cur_action := None\<rparr>)
      in if cur_action s = None then
           let (act, q) = action_remove_queue_head (action_queue s) in
           s\<lparr>cur_action := act, action_queue := q,
             cur_command := (case act of None \<Rightarrow> None | Some a \<Rightarrow> get_first_command a s)\<rparr>
         else s)"

lemma execute_one_command_eq:
  "execute_one_command E s =
     (let s = next_command s in
      case (cur_action s, cur_command s) of
        (Some act, Some cmd) \<Rightarrow>
          if cmd < length (commands (actions s ! act))
          then map_option snd (run_command E (commands (actions s ! act) ! cmd) s)
          else None
      | _ \<Rightarrow> Some s)"
  unfolding execute_one_command_def next_command_def Let_def by (rule refl)

lemma next_command_grows [simp]: "grows E s (next_command s)"
  by (auto simp: next_command_def Let_def split: option.splits prod.splits intro!: grows_same)

lemma execute_one_command_grows: "execute_one_command E s = Some s' \<Longrightarrow> grows E s s'"
  by (auto simp: execute_one_command_eq Let_def split: option.splits if_splits dest!: run_command_grows
      intro: grows_trans [OF next_command_grows])

lemma handle_input_grows: "handle_input E inp s = Some s' \<Longrightarrow> grows E s s'"
  by (cases inp) (auto simp: handle_input_def split: if_splits
      dest: handle_property_set_fd_grows handle_keychord_grows handle_signal_grows)

lemma handle_inputs_grows: "handle_inputs E inps s = Some s' \<Longrightarrow> grows E s s'"
proof (induction E inps s rule: handle_inputs.induct)
  case (2 E inp inps s)
  then obtain t where "handle_input E inp s = Some t" "handle_inputs E inps t = Some s'" by (auto split: option.splits)
  with 2(1) handle_input_grows show ?case by (blast intro: grows_trans)
qed simp

lemma poll_timeout_grows [simp]: "grows E s (snd (poll_timeout E s))"
  by (auto simp: poll_timeout_def gettime_def syscall_def Let_def split: prod.splits if_splits intro!: grows_same)

lemma main_iteration_grows: "main_iteration E inps s = Some s' \<Longrightarrow> grows E s s'"
proof -
  assume "main_iteration E inps s = Some s'"
  then obtain t u where "execute_one_command E s = Some t" "restart_processes E t = Some u"
    "handle_inputs E inps (snd (poll_timeout E u)) = Some s'"
    by (auto simp: main_iteration_def split: option.splits)
  with execute_one_command_grows restart_processes_grows handle_inputs_grows poll_timeout_grows show ?thesis
    by (blast intro: grows_trans)
qed

lemma main_loop_grows: "main_loop E inps s = Some s' \<Longrightarrow> grows E s s'"
proof (induction E inps s rule: main_loop.induct)
  case (2 E inp inps s)
  then obtain t where "main_iteration E inp s = Some t" "main_loop E inps t = Some s'" by (auto split: option.splits)
  with 2(1) main_iteration_grows show ?case by (blast intro: grows_trans)
qed simp

section \<open>Start of init\<close>

lemma queue_builtin_action_grows: "queue_builtin_action E b n s = Some s' \<Longrightarrow> grows E s s'"
  by (auto simp: queue_builtin_action_def add_queue_tail_def grows_def init_ok_def cfg_ok_def cmd_ok_def area_ok_def ro_kept_def Let_def
      split: if_splits)

lemma queue_boot_grows: "queue_boot E bs s = Some s' \<Longrightarrow> grows E s s'"
proof (induction E bs s rule: queue_boot.induct)
  case (2 E t bs s)
  then show ?case using grows_trans [OF queue_actions_grows] by (simp add: action_for_each_trigger_eq)
next
  case (3 E b n bs s)
  then obtain t where "queue_builtin_action E b n s = Some t" "queue_boot E bs t = Some s'" by (auto split: option.splits)
  with 3(1) queue_builtin_action_grows show ?case by (blast intro: grows_trans)
qed simp

lemma parse_file_grows: "parse_file E fn s = Some s' \<Longrightarrow> grows E s s'"
  by (auto simp: parse_file_def dest: parse_grows)

lemma boot_init_grows:
  assumes "boot_init E s = Some s'"
  shows "grows E s s'"
proof -
  obtain t u v where "parse_file E ''/init.rc'' s = Some t" "import_kernel_cmdline E False t = Some u"
    "parse_file E (take 31 (''/init.'' @ bp_hardware (boot (get_hardware_name E u)) @ ''.rc'')) (get_hardware_name E u) = Some v"
    "queue_boot E boot_sequence v = Some s'"
    using assms by (auto simp: boot_init_def Let_def split: option.splits)
  with parse_file_grows import_kernel_cmdline_grows queue_boot_grows get_hardware_name_grows show ?thesis
    by (meson grows_trans)
qed

lemma do_syscalls_grows [simp]: "grows E s (do_syscalls E' cs s)"
  by (induction cs arbitrary: s) (auto intro: grows_trans [OF grows_syscall(2)])

lemma init_state_ok: "env_ok E \<Longrightarrow> init_ok E init_state"
  by (simp add: init_ok_def init_state_def cfg_ok_def area_ok_def pa_ok_def empty_area_def)

lemma open_devnull_stdio_grows: "open_devnull_stdio E s = Some s' \<Longrightarrow> grows E s s'"
  by (auto simp: open_devnull_stdio_def do_syscall_def syscall_def Let_def split: if_splits intro!: grows_same)

lemma log_init_grows [simp]: "grows E s (log_init E s)"
  by (auto simp: log_init_def do_syscall_def syscall_def Let_def intro!: grows_same)

lemma init_main_ok:
  assumes "env_ok E" "init_main E = Some s"
  shows "init_ok E s"
proof -
  obtain t where t: "open_devnull_stdio E (do_syscalls E basic_mounts init_state) = Some t" "boot_init E (log_init E t) = Some s"
    using assms by (auto simp: init_main_def split: option.splits)
  have "grows E init_state s"
    using open_devnull_stdio_grows [OF t(1)] boot_init_grows [OF t(2)] by (meson do_syscalls_grows log_init_grows grows_trans)
  with init_state_ok [OF assms(1)] show ?thesis by (simp add: grows_def)
qed

lemma queue_boot_total: "(\<And>n. mem_ok E n) \<Longrightarrow> \<exists>s'. queue_boot E bs s = Some s'"
proof (induction bs arbitrary: s)
  case (Cons b bs)
  then show ?case by (cases b) (auto simp: queue_builtin_action_def Let_def)
qed simp

end
