(* ===== verification/Init_Life.thy ===== *)
theory Init_Life
  imports Init_Boot_Inv
begin

text \<open>
  Properties of the running \<^verbatim>\<open>init\<close> process: its invariant, the properties that never change, and the confinement of property requests.
\<close>

section \<open>The invariant over the life of init\<close>

text \<open>C5: Invariant.  Whatever the configuration files, the kernel and the clients do, if \<^verbatim>\<open>init\<close> gets through its
  start and then through any number of iterations of its main loop, the configuration is well formed,
  the flags of every service agree with its process id (a running service has a process; a service that
  waits for its restart has none and is not disabled, running or oneshot), and the property area is well formed.\<close>

theorem init_keeps_invariant:
  assumes "env_ok E" "init_main E = Some s" "main_loop E inputs s = Some s'"
  shows "init_ok E s'"
  using main_loop_grows [OF assms(3)] init_main_ok [OF assms(1,2)] by (simp add: grows_def)

lemma init_main_w_env: "\<exists>s. init_main w_env = Some s"
proof -
  have f: "sys_file w_env t fn = None" "sys w_env t c = 0" "mem_ok w_env n" for t fn c n by (simp_all add: w_env_def)
  have p: "parse_file w_env fn s = Some s" for fn s
    by (simp add: parse_file_def init_parse_config_file_def f)
  have k: "import_kernel_cmdline w_env False s = Some (do_syscall w_env (Chmod ''/proc/cmdline'' (oct 0 4 4 0)) s)" for s
    by (simp add: import_kernel_cmdline_def f import_words.simps)
  have o: "\<exists>t. open_devnull_stdio w_env s = Some t" for s
    by (simp add: open_devnull_stdio_def syscall_def f Let_def)
  have q: "\<exists>t. boot_init w_env s = Some t" for s
    using queue_boot_total [OF f(3)] by (simp add: boot_init_def p k Let_def)
  from o obtain t where "open_devnull_stdio w_env (do_syscalls w_env basic_mounts init_state) = Some t" by blast
  with q [of "log_init w_env t"] show ?thesis by (simp add: init_main_def)
qed

theorem init_keeps_invariant_witness: "\<exists>s. init_main w_env = Some s \<and> main_loop w_env [] s = Some s \<and> init_ok w_env s"
proof -
  obtain s where s: "init_main w_env = Some s" using init_main_w_env by blast
  moreover have "main_loop w_env [] s = Some s" by simp
  ultimately show ?thesis using init_keeps_invariant [OF w_env_ok s] by blast
qed

text \<open>C6: Read-only properties.  A property whose name starts with \<^verbatim>\<open>ro.\<close> keeps its value for ever: no command, property
  file, persistent property, client request or boot action changes or removes it.\<close>

theorem ro_properties_never_change:
  assumes "init_ok E s" "main_loop E inputs s = Some s'"
    and "has_prefix ''ro.'' n" "property_get E n s = Some v"
  shows "property_get E n s' = Some v"
proof -
  have g: "init_ok E s'" "ro_kept s s'"
    using main_loop_grows [OF assms(2)] assms(1) by (auto simp: grows_def)
  have f: "find_ok E" using assms(1) by (auto simp: init_ok_def area_ok_def env_ok_def)
  have len: "length n < PROP_NAME_MAX E" using assms(4) by (auto simp: property_get_def split: if_splits)
  have map: "property_get E n t = prop_map (pa t) n" if "init_ok E t" for t
  proof -
    have p: "pa_ok E (pa t)" using that by (auto simp: init_ok_def area_ok_def)
    from f show ?thesis
    proof (cases rule: find_cases [of E "pa t" n])
      case (1 i)
      with prop_map_nth [OF p 1(2)] len show ?thesis by (simp add: property_get_def)
    qed (use len in \<open>auto simp: property_get_def dom_def\<close>)
  qed
  show ?thesis using g(2) assms(3,4) map [OF assms(1)] map [OF g(1)] by (simp add: ro_kept_def)
qed

definition padded :: "nat \<Rightarrow> string \<Rightarrow> string" where
  "padded n s = s @ replicate (n - length s) NUL"

lemma padded_end:
  assumes "length s < n"
  shows "(padded n s)[n - 1 := NUL] = s @ NUL # replicate (n - length s - 1) NUL"
proof -
  have "n - length s = Suc (n - length s - 1)" using assms by simp
  then have "replicate (n - length s) NUL = NUL # replicate (n - length s - 1) NUL" by (metis replicate_Suc)
  moreover have "(padded n s)[n - 1 := NUL] = padded n s"
    using assms by (auto simp: padded_def list_update_append)
  ultimately show ?thesis by (simp add: padded_def)
qed

definition w_request :: "u32 \<Rightarrow> u32 \<Rightarrow> string \<Rightarrow> string \<Rightarrow> connection" where
  "w_request uid gid name val = \<lparr>accepted = True, peer = Some (uid, gid),
     received = Some \<lparr>msg_setprop = True, msg_name = padded 32 name,
       msg_value = padded 92 val\<rparr>\<rparr>"

lemma w_request_set:
  assumes "4 \<le> length name" "length name < 32" "length val < 92" "NUL \<notin> set name" "NUL \<notin> set val" "take 4 name \<noteq> ''ctl.''"
  shows "handle_property_set_fd w_env (w_request uid gid name val) s =
    (if check_perms name uid gid then set_property w_env name val s else Some s)"
  using assms padded_end [of name 32] padded_end [of val 92]
  by (simp add: handle_property_set_fd_def w_request_def Let_def w_env_def)

definition w_running :: init where
  "w_running = w_init\<lparr>property_set_fd := 5,
     pa := \<lparr>infos = [\<lparr>pi_name = ''ro.a'', pi_value = ''1'', pi_serial = 0x1000000\<rparr>], toc = [0x4000400], pa_serial = 1\<rparr>\<rparr>"

lemma w_running_ok: "init_ok w_env w_running"
  using w_env_ok
  by (simp add: init_ok_def w_running_def w_init_def cfg_ok_def area_ok_def pa_ok_def info_ok_def toc_ok_def w_env_def
      PA_COUNT_MAX_def PA_INFO_START_def PA_SIZE_def)

theorem ro_properties_never_change_witness:
  "\<exists>s'. main_loop w_env [[Property_request (w_request 0 0 ''ro.a'' ''2'')]] w_running = Some s' \<and>
     property_get w_env ''ro.a'' s' = Some ''1''"
proof -
  let ?in = "[[Property_request (w_request 0 0 ''ro.a'' ''2'')]]"
  have q: "next_command w_running = w_running"
    by (simp add: next_command_def w_running_def w_init_def action_remove_queue_head_def list_empty_def)
  have r: "restart_processes w_env w_running = Some w_running" "snd (poll_timeout w_env w_running) = w_running"
    by (simp_all add: restart_processes_def service_for_each_flags_def poll_timeout_def w_running_def w_init_def)
  have "set_property w_env ''ro.a'' ''2'' w_running = Some w_running"
    by (simp add: set_property_def property_set.simps store_property_cases bad_lengths_def w_env_def has_prefix_def w_running_def)
  then have "handle_property_set_fd w_env (w_request 0 0 ''ro.a'' ''2'') w_running = Some w_running"
    by (simp add: w_request_set NUL_def check_perms_def)
  then have "handle_input w_env (Property_request (w_request 0 0 ''ro.a'' ''2'')) w_running = Some w_running"
    by (simp add: handle_input_def w_running_def)
  then have "execute_one_command w_env w_running = Some w_running \<Longrightarrow> main_loop w_env ?in w_running = Some w_running"
    by (simp add: main_iteration_def r)
  moreover have "execute_one_command w_env w_running = Some w_running"
    by (simp add: execute_one_command_eq q) (simp add: w_running_def w_init_def)
  ultimately obtain s' where s': "main_loop w_env ?in w_running = Some s'" by blast
  have "has_prefix ''ro.'' ''ro.a''" "property_get w_env ''ro.a'' w_running = Some ''1''"
    by (simp_all add: has_prefix_def property_get_def w_running_def w_env_def)
  with ro_properties_never_change [OF w_running_ok s'] s' show ?thesis by blast
qed

section \<open>Property requests\<close>

lemma control_loop_iff:
  "control_loop ps name uid gid \<longleftrightarrow> (\<exists>u g. (name, u, g) \<in> set ps \<and> (uid \<noteq> 0 \<and> u = uid \<or> gid \<noteq> 0 \<and> g = gid))"
  by (induction ps name uid gid rule: control_loop.induct) auto

lemma perms_loop_iff:
  "perms_loop ps name uid gid \<longleftrightarrow>
     (\<exists>(p, u, g) \<in> set ps. has_prefix p name \<and> (uid \<noteq> 0 \<and> u = uid \<or> gid \<noteq> 0 \<and> g = gid))"
  by (induction ps name uid gid rule: perms_loop.induct) (simp_all, blast)

lemma property_perms_gid: "(p, u, g) \<in> set property_perms \<Longrightarrow> g = 0"
  by (auto simp: property_perms_def)

lemma check_perms_user:
  assumes "check_perms name uid gid" "uid \<noteq> 0"
  shows "\<exists>p g. (p, uid, g) \<in> set property_perms \<and> (has_prefix p name \<or> has_prefix (''ro.'' @ p) name)"
proof -
  let ?n = "if has_prefix ''ro.'' name then drop 3 name else name"
  obtain p u g where p: "(p, u, g) \<in> set property_perms" "has_prefix p ?n" "u = uid \<or> gid \<noteq> 0 \<and> g = gid"
    using assms by (auto simp: check_perms_def perms_loop_iff Let_def)
  then have "u = uid" using property_perms_gid by blast
  moreover have "has_prefix p name \<or> has_prefix (''ro.'' @ p) name"
    using p(2) by (auto simp: has_prefix_iff split: if_splits)
  ultimately show ?thesis using p(1) by blast
qed

text \<open>C4: Confinement of clients.  A request on the property socket by a user other than root changes nothing, or
  it sets a property whose name (after an optional \<^verbatim>\<open>ro.\<close>) starts with a prefix that \<^verbatim>\<open>property_perms\<close> grants to
  this user, or it is a control message by \<^verbatim>\<open>system\<close> or by a user or group that \<^verbatim>\<open>control_perms\<close> lists for exactly
  this argument.  A user id of an application, in neither of the groups \<^verbatim>\<open>log\<close> and \<^verbatim>\<open>radio\<close>, never changes anything.\<close>

theorem property_request_confined:
  assumes "handle_property_set_fd E conn s = Some s'" "peer conn = Some (uid, gid)" "uid \<noteq> 0"
  shows "(s' = s \<or>
      (\<exists>p g name val. (p, uid, g) \<in> set property_perms \<and> (has_prefix p name \<or> has_prefix (''ro.'' @ p) name) \<and>
        set_property E name val s = Some s') \<or>
      (\<exists>msg val. (uid = AID_SYSTEM \<or> (\<exists>u g. (val, u, g) \<in> set control_perms \<and> (u = uid \<or> gid \<noteq> 0 \<and> g = gid))) \<and>
        handle_control_message E msg val s = Some s')) \<and>
    (AID_APP \<le> uid \<and> gid \<noteq> AID_LOG \<and> gid \<noteq> AID_RADIO \<longrightarrow> s' = s)"
proof -
  consider (none) "s' = s"
    | (set) name val where "check_perms name uid gid" "set_property E name val s = Some s'"
    | (ctl) msg val where "check_control_perms val uid gid" "handle_control_message E msg val s = Some s'"
    using assms(1,2) by (auto simp: handle_property_set_fd_def Let_def split: if_splits option.splits)
  then show ?thesis
  proof cases
    case none
    then show ?thesis by blast
  next
    case set
    from check_perms_user [OF set(1) assms(3)] obtain p g where
      p: "(p, uid, g) \<in> set property_perms" "has_prefix p name \<or> has_prefix (''ro.'' @ p) name" by blast
    then have "\<not> AID_APP \<le> uid" by (auto simp: property_perms_def)
    with p set show ?thesis by blast
  next
    case ctl
    then have "uid = AID_SYSTEM \<or> (\<exists>u g. (val, u, g) \<in> set control_perms \<and> (u = uid \<or> gid \<noteq> 0 \<and> g = gid))"
      using assms(3) by (auto simp: check_control_perms_def control_loop_iff split: if_splits)
    moreover from this have "\<not> (AID_APP \<le> uid \<and> gid \<noteq> AID_LOG \<and> gid \<noteq> AID_RADIO)"
      by (auto simp: control_perms_def)
    ultimately show ?thesis using ctl(2) by blast
  qed
qed

theorem property_request_confined_witness:
  "handle_property_set_fd w_env (w_request 10001 10001 ''debug.x'' ''1'') w_running = Some w_running"
proof -
  let ?c = "w_request 10001 10001 ''debug.x'' ''1''"
  have "\<exists>s'. handle_property_set_fd w_env ?c w_running = Some s'"
    by (simp add: w_request_set NUL_def check_perms_def property_perms_def has_prefix_def)
  then obtain s' where s': "handle_property_set_fd w_env ?c w_running = Some s'" by blast
  have "peer ?c = Some (10001, 10001)" by (simp add: w_request_def)
  from property_request_confined [OF s' this] s' show ?thesis by simp
qed

end
