(* ===== verification/Init_Child.thy ===== *)
theory Init_Child
  imports Init_Boot_Inv
begin

text \<open>
  What a started service does between \<^verbatim>\<open>fork\<close> and \<^verbatim>\<open>execve\<close>: the order in which it gives up its privileges, and the
  sizes of the argument and environment arrays.
\<close>

section \<open>Arguments and environment\<close>

lemma add_words_prefix: "take (length a) (add_words a ws) = a"
proof (induction a ws rule: add_words.induct)
  case (2 a w ws)
  show ?case
  proof (cases "length a + 1 = INIT_PARSER_MAXARGS")
    case False
    have "take (length a) (add_words (a @ [w]) ws) = take (length a) (take (length (a @ [w])) (add_words (a @ [w]) ws))"
      by simp
    also have "\<dots> = a" using 2 False by simp
    finally show ?thesis using False by simp
  qed simp
qed simp

lemma add_words_length: "length a < INIT_PARSER_MAXARGS \<Longrightarrow> length (add_words a ws) \<le> INIT_PARSER_MAXARGS"
  by (induction a ws rule: add_words.induct) auto

lemma add_environment_bound: "add_environment E k v s = Some (r, s') \<Longrightarrow> length (ENV s) \<le> 31 \<Longrightarrow> length (ENV s') \<le> 31"
  by (auto simp: add_environment_def split: if_splits)

lemma syscall_ENV: "syscall E c s = (r, t) \<Longrightarrow> ENV t = ENV s" "ENV (do_syscall E c s) = ENV s"
  by (auto simp: syscall_def do_syscall_def Let_def)

lemma create_socket_ENV: "create_socket E n ty pm u g s = (fd, s') \<Longrightarrow> ENV s' = ENV s"
  by (auto simp: create_socket_def syscall_def do_syscall_def Let_def split: if_splits)

lemma add_envvars_bound: "add_envvars E eis s = Some s' \<Longrightarrow> length (ENV s) \<le> 31 \<Longrightarrow> length (ENV s') \<le> 31"
proof (induction eis arbitrary: s)
  case (Cons ei eis)
  then obtain v r t where t: "add_environment E (ei_name ei) v s = Some (r, t)" "add_envvars E eis t = Some s'"
    by (auto split: option.splits)
  show ?case by (rule Cons.IH [OF t(2) add_environment_bound [OF t(1) Cons.prems(2)]])
qed simp

lemma create_sockets_bound: "create_sockets E sis s = Some s' \<Longrightarrow> length (ENV s) \<le> 31 \<Longrightarrow> length (ENV s') \<le> 31"
proof (induction sis arbitrary: s)
  case (Cons si sis)
  let ?ty = "if si_type si = ''stream'' then 1 else if si_type si = ''dgram'' then 2 else 5 :: int"
  obtain fd t where t: "create_socket E (si_name si) ?ty (of_int (si_perm si)) (si_uid si) (si_gid si) s = (fd, t)"
    by (metis surj_pair)
  have "length (ENV t) \<le> 31" using create_socket_ENV [OF t] Cons.prems(2) by simp
  moreover obtain u where "u = t \<or> publish_socket E (si_name si) fd t = Some u" "create_sockets E sis u = Some s'"
    using Cons.prems(1) t by (auto simp: Let_def split: if_splits option.splits)
  ultimately show ?case
    using Cons.IH by (auto simp: publish_socket_def dest: add_environment_bound)
qed simp

lemma workspace_env_bound: "workspace_env E s = Some s' \<Longrightarrow> length (ENV s) \<le> 31 \<Longrightarrow> length (ENV s') \<le> 31"
  by (auto simp: workspace_env_def syscall_def Let_def dest!: add_environment_bound)

section \<open>The end of the child\<close>

text \<open>The calls that set the credentials of a service, in the order of the code.\<close>

definition credentials :: "service \<Rightarrow> syscall list" where
  "credentials svc =
     (if svc_gid svc \<noteq> 0 then [Setgid (svc_gid svc)] else []) @
     (if nr_supp_gids svc \<noteq> 0 then [Setgroups (take (nr_supp_gids svc) (supp_gids svc))] else []) @
     (if svc_uid svc \<noteq> 0 then [Setuid (svc_uid svc)] else [])"

lemma do_syscall_trace: "map fst (trace (do_syscall E c s)) = c # map fst (trace s)"
  by (simp add: do_syscall_def syscall_def Let_def)

lemma set_credentials_trace: "map fst (trace (set_credentials E svc s)) = rev (credentials svc) @ map fst (trace s)"
  by (simp add: set_credentials_def credentials_def do_syscall_trace Let_def)

lemma set_credentials_ENV: "ENV (set_credentials E svc s) = ENV s"
  by (simp add: set_credentials_def syscall_ENV Let_def)

definition child_argv :: "service \<Rightarrow> string option \<Rightarrow> string list" where
  "child_argv svc d = (case d of None \<Rightarrow> svc_args svc | Some d \<Rightarrow> add_words (svc_args svc) (split_words d))"

lemma stdio_ENV: "ENV (zap_stdio E s) = ENV s" "ENV (open_console E s) = ENV s"
  by (auto simp: zap_stdio_def open_console_def do_syscall_def syscall_def Let_def split: prod.splits if_splits)

lemma service_child_end:
  assumes "service_child E svc d nc s = Some s'" "length (ENV s) \<le> 31"
  shows "\<exists>envp pre. map fst (trace s') =
      Exit 127 # Execve (svc_args svc ! 0) (child_argv svc d) envp # rev (credentials svc) @ Setpgid # pre \<and> length envp \<le> 31"
proof -
  obtain s1 s2 s3 where s1: "(if property_area_inited s then workspace_env E s else Some s) = Some s1"
    and s2: "add_envvars E (envvars svc) s1 = Some s2" and s3: "create_sockets E (sockets svc) s2 = Some s3"
    using assms(1) by (auto simp: service_child_def split: option.splits if_splits)
  define s4 where "s4 = (if ioprio_class svc \<noteq> IoSchedClass_NONE
      then do_syscall E (Ioprio_set (ioprio_class svc) (ioprio_pri svc)) s3 else s3)"
  define s5 where "s5 = (if nc then open_console E (do_syscall E Setsid s4) else zap_stdio E s4)"
  define s6 where "s6 = set_credentials E svc (do_syscall E Setpgid s5)"
  have s': "s' = do_syscall E (Exit 127) (do_syscall E (Execve (svc_args svc ! 0) (child_argv svc d) (ENV s6)) s6)"
    using assms(1) unfolding service_child_def s6_def s5_def s4_def child_argv_def Let_def
    by (simp only: s1 s2 s3 option.case option.inject)
  have "length (ENV s1) \<le> 31" using s1 assms(2) by (auto split: if_splits dest: workspace_env_bound)
  then have "length (ENV s3) \<le> 31" using add_envvars_bound [OF s2] create_sockets_bound [OF s3] by simp
  then have "length (ENV s6) \<le> 31"
    by (simp add: s6_def s5_def s4_def set_credentials_ENV syscall_ENV stdio_ENV)
  then show ?thesis
    by (intro exI [of _ "ENV s6"] exI [of _ "map fst (trace s5)"])
      (simp add: s' do_syscall_trace s6_def set_credentials_trace)
qed

text \<open>C7: Credentials of a service.  The last things a started service does before \<^verbatim>\<open>execve\<close> are \<^verbatim>\<open>setgid\<close>, \<^verbatim>\<open>setgroups\<close> and
  \<^verbatim>\<open>setuid\<close>, in this order and with the configured ids, each unless the configuration leaves it at root; the
  groups are set while the process may still do so.\<close>

theorem child_drops_privileges:
  assumes "service_child E svc d nc s = Some s'" "length (ENV s) \<le> 31"
  shows "\<exists>argv envp pre. map fst (trace s') = Exit 127 # Execve (svc_args svc ! 0) argv envp #
      (if svc_uid svc \<noteq> 0 then [Setuid (svc_uid svc)] else []) @
      (if nr_supp_gids svc \<noteq> 0 then [Setgroups (take (nr_supp_gids svc) (supp_gids svc))] else []) @
      (if svc_gid svc \<noteq> 0 then [Setgid (svc_gid svc)] else []) @ Setpgid # pre"
  using service_child_end [OF assms] by (auto simp: credentials_def)

text \<open>C37: Sizes.  The argument vector of a child starts with the words of the configuration and never has more
  than \<open>INIT_PARSER_MAXARGS\<close> words, so that it fits the array \<^verbatim>\<open>arg_ptrs\<close> with its terminating null pointer,
  however many words a control message adds; the environment never has more than 31 entries.\<close>

theorem exec_arguments_fit:
  assumes "service_child E svc d nc s = Some s'" "length (ENV s) \<le> 31" "svc_ok svc"
  shows "\<exists>argv envp rest. map fst (trace s') = Exit 127 # Execve (svc_args svc ! 0) argv envp # rest \<and>
    take (length (svc_args svc)) argv = svc_args svc \<and> length argv \<le> INIT_PARSER_MAXARGS \<and> length envp \<le> 31"
proof -
  obtain envp pre where "map fst (trace s') =
      Exit 127 # Execve (svc_args svc ! 0) (child_argv svc d) envp # rev (credentials svc) @ Setpgid # pre" "length envp \<le> 31"
    using service_child_end [OF assms(1,2)] by (elim exE conjE)
  moreover have "length (svc_args svc) < INIT_PARSER_MAXARGS" using assms(3) by (simp add: svc_ok_def)
  then have "take (length (svc_args svc)) (child_argv svc d) = svc_args svc" "length (child_argv svc d) \<le> INIT_PARSER_MAXARGS"
    by (auto simp: child_argv_def add_words_prefix add_words_length split: option.splits)
  ultimately show ?thesis by (intro exI conjI)
qed

definition w_service :: service where
  "w_service = (new_service ''adbd'' [''/sbin/adbd''])\<lparr>svc_uid := 2000, svc_gid := 2000,
     supp_gids := 1011 # replicate 11 0, nr_supp_gids := 1\<rparr>"

lemma w_child: "\<exists>s'. service_child w_env w_service (Some ''a b'') False (w_init\<lparr>property_area_inited := False\<rparr>) = Some s'"
  by (simp add: service_child_def w_service_def new_service_def w_init_def Let_def)

theorem child_drops_privileges_witness:
  "\<exists>s' argv envp pre. service_child w_env w_service (Some ''a b'') False (w_init\<lparr>property_area_inited := False\<rparr>) = Some s' \<and>
     map fst (trace s') = Exit 127 # Execve ''/sbin/adbd'' argv envp # Setuid 2000 # Setgroups [1011] # Setgid 2000 # Setpgid # pre"
proof -
  obtain s' where s': "service_child w_env w_service (Some ''a b'') False (w_init\<lparr>property_area_inited := False\<rparr>) = Some s'"
    using w_child by blast
  have "length (ENV (w_init\<lparr>property_area_inited := False\<rparr>)) \<le> 31" by (simp add: w_init_def)
  from child_drops_privileges [OF s' this] s' show ?thesis by (auto simp: w_service_def new_service_def)
qed

theorem exec_arguments_fit_witness:
  "\<exists>s' argv envp rest. service_child w_env w_service (Some ''a b'') False (w_init\<lparr>property_area_inited := False\<rparr>) = Some s' \<and>
     map fst (trace s') = Exit 127 # Execve ''/sbin/adbd'' argv envp # rest \<and> take 1 argv = [''/sbin/adbd''] \<and>
     length argv \<le> INIT_PARSER_MAXARGS"
proof -
  obtain s' where s': "service_child w_env w_service (Some ''a b'') False (w_init\<lparr>property_area_inited := False\<rparr>) = Some s'"
    using w_child by blast
  have env: "length (ENV (w_init\<lparr>property_area_inited := False\<rparr>)) \<le> 31" by (simp add: w_init_def)
  have ok: "svc_ok w_service"
    by (simp add: svc_ok_def w_service_def new_service_def INIT_PARSER_MAXARGS_def NR_SVC_SUPP_GIDS_def valid_name_def
        c_isalnum_def c_isalpha_def)
  obtain argv envp rest where "map fst (trace s') = Exit 127 # Execve (svc_args w_service ! 0) argv envp # rest"
    "take (length (svc_args w_service)) argv = svc_args w_service" "length argv \<le> INIT_PARSER_MAXARGS" "length envp \<le> 31"
    using exec_arguments_fit [OF s' env ok] by (elim exE conjE)
  with s' show ?thesis by (intro exI [of _ s'] exI [of _ argv] exI [of _ envp] exI [of _ rest]) (simp add: w_service_def new_service_def)
qed

end
