(* ===== verification/Init_Commands.thy ===== *)
theory Init_Commands
  imports Init_Boot_Inv
begin

text \<open>
  Commands and their arguments: the arity table of \<^verbatim>\<open>keywords.h\<close> against what the functions of \<^verbatim>\<open>builtins.c\<close> read,
  and the order in which the actions of the boot run.
\<close>

section \<open>Operations that always return\<close>

lemma prop_inv_simps [simp]:
  "prop_inv E (do_syscall E' c s) = prop_inv E s" "prop_inv E (update_service i f s) = prop_inv E s"
  "prop_inv E (set_flags i m s) = prop_inv E s" "prop_inv E (clear_flags i m s) = prop_inv E s"
  by (simp_all add: prop_inv_def do_syscall_def syscall_def Let_def update_service_def set_flags_def clear_flags_def)

lemma prop_inv_syscall: "syscall E' c s = (r, s') \<Longrightarrow> prop_inv E s' = prop_inv E s"
  by (auto simp: prop_inv_def syscall_def Let_def)

lemma prop_inv_gettime: "gettime E' s = (r, s') \<Longrightarrow> prop_inv E s' = prop_inv E s"
  by (auto simp: gettime_def split: prod.splits if_splits dest: prop_inv_syscall)

lemma set_property_total: "prop_inv E s \<Longrightarrow> \<exists>s'. set_property E n v s = Some s' \<and> prop_inv E s'"
  using property_set_spec [of E s n v] by (auto simp: set_property_def)

lemma notify_total: "prop_inv E s \<Longrightarrow> \<exists>s'. notify_service_state E n st s = Some s' \<and> prop_inv E s'"
  using set_property_total by (simp add: notify_service_state_def)

lemma service_stop_total: "prop_inv E s \<Longrightarrow> \<exists>s'. service_stop E i s = Some s' \<and> prop_inv E s'"
  by (simp add: service_stop_def Let_def notify_total)

lemma service_start_total:
  assumes "prop_inv E s" "\<And>t. sys E t Fork \<noteq> 0"
  shows "\<exists>s'. service_start E i d s = Some s' \<and> prop_inv E s'"
proof -
  have "syscall E Fork t \<noteq> (0, t')" for t t' using assms(2) by (simp add: syscall_def Let_def)
  then show ?thesis
    using assms(1) unfolding service_start_def
    by (auto simp: Let_def notify_total prop_inv_syscall prop_inv_gettime split: prod.splits)
qed

lemma for_each_total:
  assumes "\<And>i s. prop_inv E s \<Longrightarrow> \<exists>s'. f i s = Some s' \<and> prop_inv E s'" "prop_inv E s"
  shows "\<exists>s'. for_each_service f is s = Some s' \<and> prop_inv E s'"
  using assms(2)
proof (induction "is" arbitrary: s)
  case (Cons i "is")
  from assms(1) [OF Cons.prems, of i] Cons.IH show ?case by auto
qed simp

lemma join_options_length: "length (join_options opts as) = length opts + sum_list (map (\<lambda>a. Suc (length a)) as)"
  by (induction opts as rule: join_options.induct) auto

lemma options_size_eq: "options_size as = sum_list (map (\<lambda>a. Suc (length a)) as)"
  by (induction as) auto

lemma do_insmod_total: "2 \<le> length args \<Longrightarrow> \<exists>r s'. do_insmod E args s = Some (r, s')"
proof -
  assume a: "2 \<le> length args"
  have "length args > 2 \<Longrightarrow> drop 2 args = args ! 2 # drop 3 args"
    by (metis Cons_nth_drop_Suc eval_nat_numeral(3))
  then have "length args > 2 \<Longrightarrow> options_size (drop 2 args) = Suc (length (join_options (args ! 2) (drop 3 args)))"
    by (simp add: options_size_eq join_options_length)
  with a show ?thesis
    by (cases "insmod E (args ! 1) (if length args > 2 then join_options (args ! 2) (drop 3 args) else []) s")
      (auto simp: do_insmod_def do_insmod_inner_def with_arg_def arg_def Let_def)
qed

section \<open>Arguments\<close>

lemma with_arg_in: "i < length args \<Longrightarrow> with_arg args i f = f (args ! i)"
  by (simp add: with_arg_def arg_def)

lemma pairs_exist: "\<exists>r s'. x = (r :: 'a, s' :: 'b)"
  by (rule surj_pair)

lemma returns_total: "\<exists>s'. x = Some s' \<and> P s' \<Longrightarrow> \<exists>r s'. returns k x = Some (r, s')"
  by (auto simp: returns_def)

lemma do_start_stop_total:
  assumes "prop_inv E s" "\<And>t. sys E t Fork \<noteq> 0" "1 < length args"
  shows "\<exists>r s'. do_start E args s = Some (r, s')" "\<exists>r s'. do_stop E args s = Some (r, s')"
    "\<exists>r s'. do_restart E args s = Some (r, s')" "\<exists>r s'. do_class_start E args s = Some (r, s')"
    "\<exists>r s'. do_class_stop E args s = Some (r, s')"
proof -
  note start = service_start_total [OF _ assms(2)] and stop = service_stop_total
  show "\<exists>r s'. do_start E args s = Some (r, s')"
    using returns_total [OF start [OF assms(1)]] assms(3) by (simp add: do_start_def with_arg_in split: option.split)
  show "\<exists>r s'. do_stop E args s = Some (r, s')"
    using returns_total [OF stop [OF assms(1)]] assms(3) by (simp add: do_stop_def with_arg_in split: option.split)
  show "\<exists>r s'. do_restart E args s = Some (r, s')"
  proof (cases "service_find_by_name (args ! 1) s")
    case (Some i)
    obtain s1 where s1: "service_stop E i s = Some s1" "prop_inv E s1" using stop [OF assms(1)] by blast
    obtain s2 where "service_start E i None s1 = Some s2" using start [OF s1(2)] by blast
    with s1 Some assms(3) show ?thesis by (simp add: do_restart_def with_arg_in returns_def)
  qed (use assms(3) in \<open>simp add: do_restart_def with_arg_in\<close>)
  have "\<exists>s'. service_for_each_class c (service_start_if_not_disabled E) s = Some s' \<and> prop_inv E s'" for c
    unfolding service_for_each_class_def service_start_if_not_disabled_def
    by (rule for_each_total [OF _ assms(1)]) (simp add: start)
  from returns_total [OF this] show "\<exists>r s'. do_class_start E args s = Some (r, s')"
    using assms(3) by (simp add: do_class_start_def with_arg_in)
  have "\<exists>s'. service_for_each_class c (service_stop E) s = Some s' \<and> prop_inv E s'" for c
    unfolding service_for_each_class_def by (rule for_each_total [OF _ assms(1)]) (simp add: stop)
  from returns_total [OF this] show "\<exists>r s'. do_class_stop E args s = Some (r, s')"
    using assms(3) by (simp add: do_class_stop_def with_arg_in)
qed

text \<open>The commands whose functions read only their arguments and call the kernel.\<close>

lemmas plain_commands = do_chdir_def do_chroot_def do_domainname_def do_hostname_def do_setrlimit_def do_trigger_def
  do_write_def do_symlink_def do_setkey_def

lemma do_mkdir_total: "1 < length args \<Longrightarrow> \<exists>r s'. do_mkdir E args s = Some (r, s')"
  by (auto simp: do_mkdir_def with_arg_in Let_def split: prod.splits)

lemma do_mount_total: "3 < length args \<Longrightarrow> \<exists>r s'. do_mount E args s = Some (r, s')"
  by (auto simp: do_mount_def with_arg_in Let_def pairs_exist split: prod.splits)

lemma do_small_total:
  "\<exists>r s'. do_sysclktz E args s = Some (r, s')" "\<exists>r s'. do_chown E args s = Some (r, s')"
  "\<exists>r s'. do_loglevel E args s = Some (r, s')" "\<exists>r s'. do_wait E args s = Some (r, s')"
  by (auto simp: do_sysclktz_def do_chown_def do_loglevel_def do_wait_def Let_def pairs_exist split: prod.splits)

lemma do_chmod_total: "2 < length args \<Longrightarrow> \<exists>r s'. do_chmod E args s = Some (r, s')"
  by (auto simp: do_chmod_def with_arg_in Let_def split: prod.splits)

lemma do_export_total: "2 < length args \<Longrightarrow> (\<And>n. mem_ok E n) \<Longrightarrow> \<exists>r s'. do_export E args s = Some (r, s')"
  by (auto simp: do_export_def with_arg_in add_environment_def returns_def)

lemma do_setprop_total: "2 < length args \<Longrightarrow> prop_inv E s \<Longrightarrow> \<exists>r s'. do_setprop E args s = Some (r, s')"
  using set_property_total [of E s "args ! 1" "args ! 2"] by (auto simp: do_setprop_def with_arg_in returns_def)

lemma do_exec_total:
  assumes "1 < length args" "\<And>t. sys E t Fork \<noteq> 0"
  shows "\<exists>r s'. do_exec E args s = Some (r, s')"
proof -
  have "syscall E Fork t \<noteq> (0, t')" for t t' using assms(2) by (simp add: syscall_def Let_def)
  with assms(1) show ?thesis by (auto simp: do_exec_def with_arg_in wait_for_service_def Let_def split: prod.splits)
qed



section \<open>The order of the boot\<close>

text \<open>The actions a list of boot steps queues: those of a trigger in the order of their definition, and for a built-in
  step the next new action.\<close>

fun boot_order :: "boot_entry list \<Rightarrow> nat \<Rightarrow> init \<Rightarrow> nat list" where
  "boot_order [] n s = []"
| "boot_order (Trigger t # bs) n s = trigger_actions t s @ boot_order bs n s"
| "boot_order (Builtin b name # bs) n s = n # boot_order bs (Suc n) s"

fun builtin_actions :: "boot_entry list \<Rightarrow> action list" where
  "builtin_actions [] = []"
| "builtin_actions (Trigger t # bs) = builtin_actions bs"
| "builtin_actions (Builtin b name # bs) =
     \<lparr>act_name = name, commands = [\<lparr>cmd_func = Boot b, cmd_args = [name]\<rparr>]\<rparr> # builtin_actions bs"

fun triggers :: "boot_entry list \<Rightarrow> string list" where
  "triggers [] = []"
| "triggers (Trigger t # bs) = t # triggers bs"
| "triggers (Builtin b name # bs) = triggers bs"

fun builtin_names :: "boot_entry list \<Rightarrow> string list" where
  "builtin_names [] = []"
| "builtin_names (Trigger t # bs) = builtin_names bs"
| "builtin_names (Builtin b name # bs) = name # builtin_names bs"

lemma trigger_actions_append:
  "act_name a \<noteq> t \<Longrightarrow> actions s' = actions s @ [a] \<Longrightarrow> trigger_actions t s' = trigger_actions t s"
  by (auto simp: trigger_actions_def nth_append intro!: filter_cong)

lemma trigger_actions_bound: "i \<in> set (trigger_actions t s) \<Longrightarrow> i < length (actions s) \<and> act_name (actions s ! i) = t"
  by (simp add: trigger_actions_def)

lemma boot_order_append:
  "act_name a \<notin> set (triggers bs) \<Longrightarrow> actions s' = actions s @ [a] \<Longrightarrow> boot_order bs n s' = boot_order bs n s"
  by (induction bs n s rule: boot_order.induct) (auto simp: trigger_actions_append)

lemma boot_order_set: "i \<in> set (boot_order bs n s) \<Longrightarrow>
    i \<ge> n \<or> (i < length (actions s) \<and> act_name (actions s ! i) \<in> set (triggers bs))"
  by (induction bs n s rule: boot_order.induct) (auto dest: trigger_actions_bound)

lemma boot_order_distinct: "length (actions s) \<le> n \<Longrightarrow> distinct (triggers bs) \<Longrightarrow> distinct (boot_order bs n s)"
proof (induction bs n s rule: boot_order.induct)
  case (2 t bs n s)
  have "i \<notin> set (boot_order bs n s)" if "i \<in> set (trigger_actions t s)" for i
    using boot_order_set [of i bs n s] trigger_actions_bound [OF that] 2(2,3) by auto
  with 2 show ?case by (auto simp: trigger_actions_def)
next
  case (3 b name bs n s)
  then show ?case using boot_order_set [of n bs "Suc n" s] by auto
qed simp

lemma queue_boot_order:
  assumes "queue_boot E bs s = Some s'" "set (triggers bs) \<inter> set (builtin_names bs) = {}"
  shows "action_queue s' = fold action_add_queue_tail (boot_order bs (length (actions s)) s) (action_queue s) \<and>
    actions s' = actions s @ builtin_actions bs"
  using assms
proof (induction bs arbitrary: s)
  case (Cons b bs)
  show ?case
  proof (cases b)
    case (Trigger t)
    have tr: "trigger_actions u (queue_actions is s) = trigger_actions u s" for u "is"
      by (simp add: trigger_actions_def queue_actions_def)
    have "boot_order bs n (queue_actions is s) = boot_order bs n s" for n "is"
      by (induction bs n s rule: boot_order.induct) (auto simp: trigger_actions_def queue_actions_def)
    with Cons Trigger show ?thesis
      by (auto simp: action_for_each_trigger_eq) (simp_all add: queue_actions_def)
  next
    case (Builtin f name)
    obtain s1 where s1: "queue_builtin_action E f name s = Some s1" "queue_boot E bs s1 = Some s'"
      using Cons.prems Builtin by (auto split: option.splits)
    let ?a = "\<lparr>act_name = name, commands = [\<lparr>cmd_func = Boot f, cmd_args = [name]\<rparr>]\<rparr>"
    have a1: "actions s1 = actions s @ [?a]" "action_queue s1 = action_add_queue_tail (length (actions s)) (action_queue s)"
      using s1(1) by (auto simp: queue_builtin_action_def add_queue_tail_def Let_def split: if_splits)
    have "name \<notin> set (triggers bs)" using Cons.prems(2) Builtin by auto
    with a1 boot_order_append [of ?a bs s1 s] Cons.IH [OF s1(2)] Cons.prems(2) Builtin show ?thesis by auto
  qed
qed simp



end
