(* ===== verification/Init_Reap.thy ===== *)
theory Init_Reap
  imports Init_Commands
begin

text \<open>
  The exit of a service: when it is restarted, disabled, or takes the system to recovery; and two places
  where the code does not do what it is meant to do.
\<close>

lemma set_property_services: "set_property E n v s = Some s' \<Longrightarrow> services s' = services s"
  by (auto simp: set_property_def dest: property_set_services)

lemma notify_services: "notify_service_state E n st s = Some s' \<Longrightarrow> services s' = services s"
  by (auto simp: notify_service_state_def split: if_splits dest: set_property_services)

lemma only_others: "only i s s' \<Longrightarrow> j \<noteq> i \<Longrightarrow> services s' ! j = services s ! j"
  unfolding only_def by (metis nth_list_update_neq)

text \<open>The state after the first half of the reaping, seen from the state before \<^verbatim>\<open>waitpid\<close>.\<close>

lemma reaped_of_exit:
  assumes ok: "init_ok E s" and wait: "syscall E Waitpid s = (pid, s1)" "pid > 0" and find: "service_find_by_pid pid s = Some i"
    and s2: "s2 = reaped E i pid s1"
  shows "service_find_by_pid pid s1 = Some i" "i < length (services s2)"
    "svc_pid (services s2 ! i) = 0" "\<And>j. j \<noteq> i \<Longrightarrow> services s2 ! j = services s ! j"
    "\<And>n. bit (flags (services s2 ! i)) n =
      (bit (flags (services s ! i)) n \<and> n \<noteq> 2 \<or> bit (flags (services s ! i)) 1 \<and> n = 0)"
    "\<not> bit (flags (services s2 ! i)) 3" "onrestart (services s2 ! i) = onrestart (services s ! i)"
    "time_crashed (services s2 ! i) = time_crashed (services s ! i)" "nr_crashed (services s2 ! i) = nr_crashed (services s ! i)"
proof -
  note e1 = syscall_pair [OF wait(1)]
  show "service_find_by_pid pid s1 = Some i" using find e1(1) by (simp add: service_find_by_pid_def)
  have i: "i < length (services s)" "svc_pid (services s ! i) = pid" using find_by_pid_index [OF find] by auto
  then have run: "svc_run_ok (services s ! i)" and i1: "i < length (services s1)" using ok e1(1) by (auto simp: init_ok_def)
  note e2 = reaped_effect [OF i1, of E pid, folded s2]
  show "i < length (services s2)" using i1 only_length [OF e2(1)] by simp
  show b2: "bit (flags (services s2 ! i)) n =
      (bit (flags (services s ! i)) n \<and> n \<noteq> 2 \<or> bit (flags (services s ! i)) 1 \<and> n = 0)" for n
    using e2(3) [of n] e1(1) by simp
  show "\<not> bit (flags (services s2 ! i)) 3" using run i wait(2) b2 [of 3] by (auto simp: svc_run_ok_def)
  show "onrestart (services s2 ! i) = onrestart (services s ! i)"
    using e2(1) e1(1) by (auto simp: only_def dest: svc_dyn_fields(4))
  show "services s2 ! j = services s ! j" if "j \<noteq> i" for j using only_others [OF e2(1) that] e1(1) by simp
  show "svc_pid (services s2 ! i) = 0" "time_crashed (services s2 ! i) = time_crashed (services s ! i)"
    "nr_crashed (services s2 ! i) = nr_crashed (services s ! i)"
    using e2(2) reaped_counters [OF i1] e1(1) by (simp_all add: s2)
qed

text \<open>The second half for a service that is not disabled: \<open>now\<close> is the time, \<open>s3\<close> the state after the clock was read.\<close>

lemma crash_of_exit:
  assumes i: "i < length (services s2)" and time: "gettime E s2 = (now, s3)" and s4: "s4 = crash_counted i now s3"
  shows "\<exists>t. now = max 0 (sys E t Gettime)" "i < length (services s4)" "only i s2 s4"
    "flags (services s4 ! i) = flags (services s2 ! i)" "svc_pid (services s4 ! i) = svc_pid (services s2 ! i)"
    "(has_flag i 32 s3 \<and> now \<le> time_crashed (services s3 ! i) + CRITICAL_CRASH_WINDOW \<and>
        nr_crashed (services s4 ! i) > CRITICAL_CRASH_THRESHOLD) =
     (bit (flags (services s2 ! i)) 5 \<and> now \<le> time_crashed (services s2 ! i) + 240 \<and> nr_crashed (services s2 ! i) \<ge> 4)"
proof -
  note e3 = gettime_pair [OF time]
  have i3: "i < length (services s3)" using i e3(1) by simp
  note e4 = crash_counted_effect [OF i3, of now, folded s4]
  have "now = max 0 (sys E (trace s2) Gettime)" using time by (auto simp: gettime_def syscall_def Let_def split: if_splits)
  then show "\<exists>t. now = max 0 (sys E t Gettime)" by blast
  show "i < length (services s4)" using i3 only_length [OF e4(1)] by simp
  show "only i s2 s4" by (rule only_trans [OF e3(3) e4(1)])
  show "flags (services s4 ! i) = flags (services s2 ! i)" "svc_pid (services s4 ! i) = svc_pid (services s2 ! i)"
    using e4 e3(1) by simp_all
  have "nr_crashed (services s4 ! i) = nr_crashed (services s2 ! i) + 1"
    if "bit (flags (services s2 ! i)) 5" "now \<le> time_crashed (services s2 ! i) + 240"
    using that i3 e3(1) by (simp add: s4 crash_counted_def CRITICAL_CRASH_WINDOW_def)
  then show "(has_flag i 32 s3 \<and> now \<le> time_crashed (services s3 ! i) + CRITICAL_CRASH_WINDOW \<and>
      nr_crashed (services s4 ! i) > CRITICAL_CRASH_THRESHOLD) =
    (bit (flags (services s2 ! i)) 5 \<and> now \<le> time_crashed (services s2 ! i) + 240 \<and> nr_crashed (services s2 ! i) \<ge> 4)"
    using e3(1) by (auto simp: CRITICAL_CRASH_WINDOW_def CRITICAL_CRASH_THRESHOLD_def)
qed


text \<open>A critical service whose process 7 exits, and a kernel that reports exactly this exit.\<close>

definition w_reap_env :: env where
  "w_reap_env = w_env\<lparr>sys := (\<lambda>t c. if c = Waitpid then 7 else 0)\<rparr>"

definition w_critical :: "int \<Rightarrow> init" where
  "w_critical n = w_init\<lparr>services := [(new_service ''vold'' [''/system/bin/vold''])\<lparr>flags := 36, svc_pid := 7, nr_crashed := n\<rparr>]\<rparr>"

lemma w_critical_ok: "init_ok w_reap_env (w_critical n)"
  using w_env_ok
  by (simp add: init_ok_def w_critical_def w_init_def cfg_ok_def area_ok_def pa_ok_def empty_area_def w_reap_env_def
      env_ok_def find_ok_def sizes_ok_def svc_ok_def new_service_def valid_name_def c_isalnum_def c_isalpha_def
      svc_run_ok_def INIT_PARSER_MAXARGS_def NR_SVC_SUPP_GIDS_def)


section \<open>Restarting a running service\<close>

text \<open>What \<^verbatim>\<open>service_start\<close> does with a service that can be started.\<close>

lemma service_start_forks:
  assumes i: "i < length (services s)" and start: "service_start E i d s = Some s'"
    and run: "\<not> bit (flags (services s ! i)) 2" "\<not> bit (flags (services s ! i)) 4" "d = None"
    and env: "\<And>t p. sys E t (Stat p) = 0" "\<And>t. sys E t Fork = pid" "pid > 0"
  shows "svc_pid (services s' ! i) = pid \<and> bit (flags (services s' ! i)) 2 \<and>
    (\<forall>j. j \<noteq> i \<longrightarrow> services s' ! j = services s ! j) \<and> length (services s') = length (services s)"
proof -
  define s1 where "s1 = update_service i (\<lambda>svc. svc\<lparr>time_started := 0\<rparr>) (clear_flags i (1 OR 8) s)"
  have sv1: "services s1 = (services s)[i := (services s ! i)\<lparr>flags := flags (services s ! i) AND NOT (1 OR 8), time_started := 0\<rparr>]"
    using i by (simp add: s1_def clear_flags_def update_service_def)
  obtain s2 where s2: "syscall E (Stat (svc_args (services s1 ! i) ! 0)) s1 = (0, s2)" "services s2 = services s1"
    using env(1) by (simp add: syscall_def Let_def)
  obtain s3 where s3: "syscall E Fork s2 = (pid, s3)" "services s3 = services s1"
    using env(2) s2(2) by (simp add: syscall_def Let_def)
  obtain now s4 where s4: "gettime E s3 = (now, s4)" by (metis surj_pair)
  note e4 = gettime_pair [OF s4]
  let ?t = "set_flags i 4 (update_service i (\<lambda>svc. svc\<lparr>svc_pid := pid\<rparr>) (update_service i (\<lambda>svc. svc\<lparr>time_started := now\<rparr>) s4))"
  have "bit (flags (services s1 ! i)) n = (bit (flags (services s ! i)) n \<and> \<not> bit (1 OR 8 :: u32) n)" for n
    using i bit_clear_flags [OF i, of "1 OR 8" n] by (simp add: s1_def clear_flags_def)
  with run have "\<not> bit (flags (services s1 ! i)) 2" "\<not> bit (flags (services s1 ! i)) 4" by simp_all
  with start [unfolded service_start_def Let_def, folded s1_def] s2 s3 s4 env(3) run(3)
  have "s' = ?t \<or> notify_service_state E (svc_name (services ?t ! i)) ''running'' ?t = Some s'"
    by (auto split: if_splits)
  then have sv: "services s' = services ?t" using notify_services by blast
  have "services ?t = (services s)[i := services ?t ! i]" "svc_pid (services ?t ! i) = pid" "bit (flags (services ?t ! i)) 2"
    using i e4(1) s3(2) by (simp_all add: sv1 set_flags_def update_service_def bit_or_iff)
  then show ?thesis unfolding sv by (metis length_list_update nth_list_update_neq)
qed

lemma service_stop_services:
  assumes i: "i < length (services s)" and stop: "service_stop E i s = Some s'"
  shows "services s' = services (set_flags i 1 (clear_flags i (4 OR 8) s))"
    "\<not> bit (flags (services s' ! i)) 2" "bit (flags (services s' ! i)) 4 = bit (flags (services s ! i)) 4"
proof -
  show sv: "services s' = services (set_flags i 1 (clear_flags i (4 OR 8) s))"
    using stop by (auto simp: service_stop_def Let_def split: if_splits dest!: notify_services)
  have "i < length (services (clear_flags i (4 OR 8) s))" using i by (simp add: clear_flags_def)
  from bit_set_flags [OF this, of 1] bit_clear_flags [OF i, of "4 OR 8"]
  show "\<not> bit (flags (services s' ! i)) 2" "bit (flags (services s' ! i)) 4 = bit (flags (services s ! i)) 4"
    unfolding sv by (simp_all add: bit_1_iff)
qed

text \<open>C38: The command \<^verbatim>\<open>restart\<close> on a running service.  \<^verbatim>\<open>service_stop\<close> only sends a signal and clears the running flag, and
  \<^verbatim>\<open>service_start\<close> forks at once: the new process replaces the old one in the service while the old one may still be
  running.  From then on no service has the old process id; when it is reaped, nothing happens: its sockets are
  not removed and its process group is not killed.\<close>

theorem restart_forgets_process:
  assumes ok: "init_ok E s" and find: "service_find_by_name name s = Some i"
    and run: "bit (flags (services s ! i)) 2" "\<not> bit (flags (services s ! i)) 4" "svc_pid (services s ! i) = old"
    and others: "\<forall>j < length (services s). j \<noteq> i \<longrightarrow> svc_pid (services s ! j) \<noteq> old"
    and env: "\<forall>t p. sys E t (Stat p) = 0" "\<forall>t. sys E t Fork = new" "new > 0" "new \<noteq> old"
    and restart: "do_restart E [''restart'', name] s = Some (r, s')"
  shows "svc_pid (services s' ! i) = new \<and> bit (flags (services s' ! i)) 2 \<and> service_find_by_pid old s' = None \<and>
    (\<forall>s''. syscall E Waitpid s' = (old, s'') \<longrightarrow> wait_for_one_process E s' = Some (0, s'') \<and> services s'' = services s')"
proof -
  note i = find_by_name_index [OF find]
  have old: "old > 0" using ok run(1,3) i by (auto simp: init_ok_def svc_run_ok_def)
  obtain s1 where s1: "service_stop E i s = Some s1" "service_start E i None s1 = Some s'"
    using restart find by (auto simp: do_restart_def with_arg_def arg_def returns_def split: option.splits)
  have il: "i < length (services s)" using i by simp
  note sv1 = service_stop_services [OF il s1(1)]
  have oth1: "services s1 ! j = services s ! j" if "j \<noteq> i" for j
    using that by (simp add: sv1(1) set_flags_def clear_flags_def update_service_def)
  have i1: "i < length (services s1)" "length (services s1) = length (services s)"
    using il by (simp_all add: sv1(1) set_flags_def clear_flags_def)
  have f: "svc_pid (services s' ! i) = new" "bit (flags (services s' ! i)) 2"
    "\<forall>j. j \<noteq> i \<longrightarrow> services s' ! j = services s1 ! j" "length (services s') = length (services s1)"
    using service_start_forks [OF i1(1) s1(2) _ _ refl _ _ env(3)] sv1(2,3) run env(1,2) by auto
  have "svc_pid (services s' ! j) \<noteq> old" if "j < length (services s')" for j
    using f that env(4) others oth1 i1 by (cases "j = i") auto
  then have none: "service_find_by_pid old s' = None" using find_by_pid_index by (metis not_None_eq)
  have "wait_for_one_process E s' = Some (0, s'') \<and> services s'' = services s'" if "syscall E Waitpid s' = (old, s'')" for s''
    using that none old syscall_pair [OF that] by (simp add: wait_for_one_process_def service_find_by_pid_def Let_def)
  with f none show ?thesis by blast
qed

section \<open>Actions without commands\<close>



theorem restart_forgets_process_witness:
  "\<exists>r s'. do_restart (w_env\<lparr>sys := \<lambda>_ c. if c = Fork then 8 else 0\<rparr>) [''restart'', ''vold''] (w_critical 0) = Some (r, s') \<and>
     svc_pid (services s' ! 0) = 8 \<and> service_find_by_pid 7 s' = None"
proof -
  let ?E = "w_env\<lparr>sys := \<lambda>_ c. if c = Fork then 8 else 0\<rparr>" and ?s = "w_critical 0"
  have ok: "init_ok ?E ?s"
    using w_critical_ok [of 0] by (simp add: init_ok_def area_ok_def env_ok_def find_ok_def sizes_ok_def pa_ok_def
        info_ok_def toc_ok_def w_reap_env_def)
  have find: "service_find_by_name ''vold'' ?s = Some 0"
    by (simp add: service_find_by_name_def w_critical_def new_service_def)
  have f: "bit (flags (services ?s ! 0)) 2" "\<not> bit (flags (services ?s ! 0)) 4" "svc_pid (services ?s ! 0) = 7"
    "\<forall>j < length (services ?s). j \<noteq> 0 \<longrightarrow> svc_pid (services ?s ! j) \<noteq> 7"
    by (simp_all add: w_critical_def new_service_def)
  have "prop_inv ?E ?s" using ok by (simp add: init_ok_def area_ok_def prop_inv_def w_critical_def w_init_def)
  then obtain r s' where r: "do_restart ?E [''restart'', ''vold''] ?s = Some (r, s')"
    using do_start_stop_total(3) [of ?E ?s "[''restart'', ''vold'']"] by auto
  show ?thesis
    using restart_forgets_process [OF ok find f _ _ _ _ r, of 8] r by auto
qed

end
