(* ===== verification/Sha.thy ===== *)
theory Sha
  imports Prelude
begin

text \<open>
  SHA-1 of \<^verbatim>\<open>src/core/libmincrypt/sha.c\<close>, in both versions of the source: the generic one, and the unrolled one for
  little-endian machines.  The two agree, and both compute SHA-1 of the concatenation of the data they are given,
  however it is cut into pieces.
\<close>

section \<open>Code\<close>

record SHA_CTX =
  ctx_count :: u64
  ctx_state :: "u32 list"
  ctx_buf :: "u8 list"

text \<open>Words from four bytes and back.  \<^verbatim>\<open>bswap_32\<close> of \<^verbatim>\<open>byteswap.h\<close> turns the bytes of a word around.\<close>

definition be_word :: "u8 \<Rightarrow> u8 \<Rightarrow> u8 \<Rightarrow> u8 \<Rightarrow> u32" where
  "be_word b0 b1 b2 b3 = push_bit 24 (ucast b0) OR push_bit 16 (ucast b1) OR push_bit 8 (ucast b2) OR ucast b3"

definition bswap_32 :: "u32 \<Rightarrow> u32" where
  "bswap_32 v = be_word (ucast v) (ucast (drop_bit 8 v)) (ucast (drop_bit 16 v)) (ucast (drop_bit 24 v))"

text \<open>The view \<^verbatim>\<open>buf.w\<close> of the union: little-endian words on the bytes \<^verbatim>\<open>buf.b\<close>.\<close>

definition buf_w :: "u8 list \<Rightarrow> nat \<Rightarrow> u32" where
  "buf_w b t = be_word (b ! (4 * t + 3)) (b ! (4 * t + 2)) (b ! (4 * t + 1)) (b ! (4 * t))"

definition set_buf_w :: "u8 list \<Rightarrow> nat \<Rightarrow> u32 \<Rightarrow> u8 list" where
  "set_buf_w b t v = b[4 * t := ucast v, 4 * t + 1 := ucast (drop_bit 8 v),
     4 * t + 2 := ucast (drop_bit 16 v), 4 * t + 3 := ucast (drop_bit 24 v)]"

subsection \<open>The version for little-endian machines\<close>

definition ror27 :: "u32 \<Rightarrow> u32" where
  "ror27 val = drop_bit 27 val OR push_bit 5 val"

definition ror2 :: "u32 \<Rightarrow> u32" where
  "ror2 val = drop_bit 2 val OR push_bit 30 val"

definition ror31 :: "u32 \<Rightarrow> u32" where
  "ror31 val = drop_bit 31 val OR push_bit 1 val"

text \<open>The macros \<^verbatim>\<open>SHA_F1\<close> to \<^verbatim>\<open>SHA_F4\<close> return the array \<^verbatim>\<open>W\<close> and the variables they assign: \<^verbatim>\<open>B\<close> and \<^verbatim>\<open>E\<close>.
  \<open>SHA_F1'\<close> is the second definition of \<^verbatim>\<open>SHA_F1\<close>.\<close>

type_synonym sha_macro = "u32 list \<Rightarrow> u32 \<Rightarrow> u32 \<Rightarrow> u32 \<Rightarrow> u32 \<Rightarrow> u32 \<Rightarrow> nat \<Rightarrow> u32 list \<times> u32 \<times> u32"

definition SHA_F1 :: "u8 list \<Rightarrow> sha_macro" where
  "SHA_F1 b W A B C D E t =
     (let w = bswap_32 (buf_w b t)
      in (W[t := w], ror2 B, E + (ror27 A + w + (D XOR (B AND (C XOR D))) + 0x5A827999)))"

definition next_w :: "u32 list \<Rightarrow> nat \<Rightarrow> u32" where
  "next_w W t = ror31 (W ! (t - 3) XOR W ! (t - 8) XOR W ! (t - 14) XOR W ! (t - 16))"

definition SHA_F1' :: sha_macro where
  "SHA_F1' W A B C D E t =
     (let w = next_w W t
      in (W[t := w], ror2 B, E + (ror27 A + w + (D XOR (B AND (C XOR D))) + 0x5A827999)))"

definition SHA_F2 :: sha_macro where
  "SHA_F2 W A B C D E t =
     (let w = next_w W t
      in (W[t := w], ror2 B, E + (ror27 A + w + (B XOR C XOR D) + 0x6ED9EBA1)))"

definition SHA_F3 :: sha_macro where
  "SHA_F3 W A B C D E t =
     (let w = next_w W t
      in (W[t := w], ror2 B, E + (ror27 A + w + ((B AND C) OR (D AND (B OR C))) + 0x8F1BBCDC)))"

definition SHA_F4 :: sha_macro where
  "SHA_F4 W A B C D E t =
     (let w = next_w W t
      in (W[t := w], ror2 B, E + (ror27 A + w + (B XOR C XOR D) + 0xCA62C1D6)))"

type_synonym sha_vars = "u32 list \<times> u32 \<times> u32 \<times> u32 \<times> u32 \<times> u32"

text \<open>The body of the loops: five calls of a macro with the variables moved by one place each time.\<close>

definition five :: "sha_macro \<Rightarrow> nat \<Rightarrow> sha_vars \<Rightarrow> sha_vars" where
  "five F t = (\<lambda>(W, A, B, C, D, E).
     let (W, B, E) = F W A B C D E (t + 0);
         (W, A, D) = F W E A B C D (t + 1);
         (W, E, C) = F W D E A B C (t + 2);
         (W, D, B) = F W C D E A B (t + 3);
         (W, C, A) = F W B C D E A (t + 4)
     in (W, A, B, C, D, E))"

text \<open>\<^verbatim>\<open>for (; t < limit; t += 5)\<close>\<close>

function five_loop :: "sha_macro \<Rightarrow> nat \<Rightarrow> nat \<Rightarrow> sha_vars \<Rightarrow> sha_vars" where
  "five_loop F t limit v = (if t < limit then five_loop F (t + 5) limit (five F t v) else v)"
  by pat_completeness auto
termination
  by (relation "measure (\<lambda>(F, t, limit, v). limit - t)") auto

declare five_loop.simps [simp del]

text \<open>The five calls after the first loop: one with the first \<^verbatim>\<open>SHA_F1\<close>, four with the second.\<close>

definition five_mixed :: "u8 list \<Rightarrow> nat \<Rightarrow> sha_vars \<Rightarrow> sha_vars" where
  "five_mixed b t = (\<lambda>(W, A, B, C, D, E).
     let (W, B, E) = SHA_F1 b W A B C D E (t + 0);
         (W, A, D) = SHA_F1' W E A B C D (t + 1);
         (W, E, C) = SHA_F1' W D E A B C (t + 2);
         (W, D, B) = SHA_F1' W C D E A B (t + 3);
         (W, C, A) = SHA_F1' W B C D E A (t + 4)
     in (W, A, B, C, D, E))"

text \<open>\<open>W0\<close> is what the local array holds at first; every cell is written before it is read.\<close>

definition SHA1_Transform :: "u32 list \<Rightarrow> SHA_CTX \<Rightarrow> SHA_CTX" where
  "SHA1_Transform W0 ctx =
     (let st = ctx_state ctx;
          v = (W0, st ! 0, st ! 1, st ! 2, st ! 3, st ! 4);
          v = five_loop (SHA_F1 (ctx_buf ctx)) 0 15 v;
          v = five_mixed (ctx_buf ctx) 15 v;
          v = five_loop SHA_F2 20 40 v;
          v = five_loop SHA_F3 40 60 v;
          (W, A, B, C, D, E) = five_loop SHA_F4 60 80 v
      in ctx\<lparr>ctx_state := st[0 := st ! 0 + A, 1 := st ! 1 + B, 2 := st ! 2 + C, 3 := st ! 3 + D, 4 := st ! 4 + E]\<rparr>)"

text \<open>The loops of \<open>SHA_update_le\<close>: whole blocks with \<^verbatim>\<open>memcpy\<close>, then single bytes.  \<open>p\<close> is the data that is left.\<close>

function block_loop :: "u32 list \<Rightarrow> SHA_CTX \<Rightarrow> nat \<Rightarrow> u8 list \<Rightarrow> SHA_CTX \<times> nat \<times> u8 list" where
  "block_loop W0 ctx i p =
     (if length p > 64 - i \<and> i < 64 then
        block_loop W0 (SHA1_Transform W0 (ctx\<lparr>ctx_buf := take i (ctx_buf ctx) @ take (64 - i) p @ drop 64 (ctx_buf ctx)\<rparr>))
          0 (drop (64 - i) p)
      else (ctx, i, p))"
  by pat_completeness auto
termination
  by (relation "measure (\<lambda>(W0, ctx, i, p). length p)") auto

declare block_loop.simps [simp del]

fun byte_loop_le :: "u32 list \<Rightarrow> SHA_CTX \<Rightarrow> nat \<Rightarrow> u8 list \<Rightarrow> SHA_CTX" where
  "byte_loop_le W0 ctx i [] = ctx"
| "byte_loop_le W0 ctx i (b # p) =
     (let ctx = ctx\<lparr>ctx_buf := (ctx_buf ctx)[i := b]\<rparr>; i = i + 1 in
      if i = 64 then byte_loop_le W0 (SHA1_Transform W0 ctx) 0 p else byte_loop_le W0 ctx i p)"

definition SHA_update_le :: "u32 list \<Rightarrow> SHA_CTX \<Rightarrow> u8 list \<Rightarrow> SHA_CTX" where
  "SHA_update_le W0 ctx data =
     (let i = unat (ctx_count ctx mod 64);
          ctx = ctx\<lparr>ctx_count := ctx_count ctx + of_nat (length data)\<rparr>;
          (ctx, i, p) = block_loop W0 ctx i data
      in byte_loop_le W0 ctx i p)"

lemma SHA1_Transform_count [simp]: "ctx_count (SHA1_Transform W0 ctx) = ctx_count ctx"
  by (simp add: SHA1_Transform_def Let_def split: prod.splits)

lemma byte_loop_le_count [simp]: "ctx_count (byte_loop_le W0 ctx i p) = ctx_count ctx"
  by (induction W0 ctx i p rule: byte_loop_le.induct) (simp_all add: Let_def)

lemma block_loop_count: "block_loop W0 ctx i p = (ctx', i', p') \<Longrightarrow> ctx_count ctx' = ctx_count ctx"
  by (induction W0 ctx i p rule: block_loop.induct) (subst (asm) (2) block_loop.simps, auto split: if_splits)

lemma SHA_update_le_count [simp]: "ctx_count (SHA_update_le W0 ctx p) = ctx_count ctx + of_nat (length p)"
  by (auto simp: SHA_update_le_def Let_def dest!: block_loop_count split: prod.splits)

text \<open>The number of zero bytes the padding loop still has to add.\<close>

definition pad_left :: "u64 \<Rightarrow> nat" where
  "pad_left c = (let x = unat c mod 64 in if x \<le> 56 then 56 - x else 120 - x)"

lemma mod_64_56: "c mod 64 = (56 :: u64) \<longleftrightarrow> unat c mod 64 = 56"
  by (simp add: word_unat_eq_iff unat_mod)

lemma pad_left_0: "c mod 64 = 56 \<longleftrightarrow> pad_left c = 0"
  using mod_less_divisor [of 64 "unat c"] by (auto simp: mod_64_56 pad_left_def Let_def)

lemma unat_Suc_mod_64: "unat (c + 1 :: u64) mod 64 = (if unat c mod 64 = 63 then 0 else Suc (unat c mod 64))"
proof -
  have "unat (c + 1) mod 64 = Suc (unat c) mod 64" by (simp add: unat_word_ariths mod_mod_cancel)
  then show ?thesis by (simp add: mod_Suc)
qed

lemma pad_left_Suc: "pad_left c \<noteq> 0 \<Longrightarrow> pad_left (c + 1) = pad_left c - 1"
  using mod_less_divisor [of 64 "unat c"] by (auto simp: pad_left_def unat_Suc_mod_64 Let_def split: if_splits)

function pad_loop_le :: "u32 list \<Rightarrow> SHA_CTX \<Rightarrow> SHA_CTX" where
  "pad_loop_le W0 ctx = (if ctx_count ctx mod 64 \<noteq> 56 then pad_loop_le W0 (SHA_update_le W0 ctx [0]) else ctx)"
  by pat_completeness auto
termination
  by (relation "measure (\<lambda>(W0, ctx). pad_left (ctx_count ctx))") (auto simp: pad_left_0 pad_left_Suc)

declare pad_loop_le.simps [simp del]

text \<open>The eight bytes of \<^verbatim>\<open>cnt\<close>, and the five words of the result written over the buffer.\<close>

definition count_bytes :: "u64 \<Rightarrow> u8 list" where
  "count_bytes cnt = map (\<lambda>i. ucast (drop_bit ((7 - i) * 8) cnt)) [0..<8]"

definition SHA_final_le :: "u32 list \<Rightarrow> SHA_CTX \<Rightarrow> SHA_CTX" where
  "SHA_final_le W0 ctx =
     (let cnt = ctx_count ctx * 8;
          ctx = SHA_update_le W0 ctx [0x80];
          ctx = pad_loop_le W0 ctx;
          ctx = fold (\<lambda>tmp ctx. SHA_update_le W0 ctx [tmp]) (count_bytes cnt) ctx
      in ctx\<lparr>ctx_buf := fold (\<lambda>i b. set_buf_w b i (bswap_32 (ctx_state ctx ! i))) [0..<5] (ctx_buf ctx)\<rparr>)"

subsection \<open>The generic version\<close>

definition rol :: "nat \<Rightarrow> u32 \<Rightarrow> u32" where
  "rol bits val = push_bit bits val OR drop_bit (32 - bits) val"

definition load_w :: "u8 list \<Rightarrow> nat \<Rightarrow> u32 list \<Rightarrow> u32 list" where
  "load_w b t W = W[t := be_word (b ! (4 * t)) (b ! (4 * t + 1)) (b ! (4 * t + 2)) (b ! (4 * t + 3))]"

definition extend_w :: "nat \<Rightarrow> u32 list \<Rightarrow> u32 list" where
  "extend_w t W = W[t := rol 1 (W ! (t - 3) XOR W ! (t - 8) XOR W ! (t - 14) XOR W ! (t - 16))]"

definition sha_round :: "u32 list \<Rightarrow> nat \<Rightarrow> u32 \<times> u32 \<times> u32 \<times> u32 \<times> u32 \<Rightarrow> u32 \<times> u32 \<times> u32 \<times> u32 \<times> u32" where
  "sha_round W t = (\<lambda>(A, B, C, D, E).
     let tmp = rol 5 A + E + W ! t;
         tmp = (if t < 20 then tmp + ((D XOR (B AND (C XOR D))) + 0x5A827999)
                else if t < 40 then tmp + ((B XOR C XOR D) + 0x6ED9EBA1)
                else if t < 60 then tmp + (((B AND C) OR (D AND (B OR C))) + 0x8F1BBCDC)
                else tmp + ((B XOR C XOR D) + 0xCA62C1D6))
     in (tmp, A, rol 30 B, C, D))"

definition SHA1_transform :: "u32 list \<Rightarrow> SHA_CTX \<Rightarrow> SHA_CTX" where
  "SHA1_transform W0 ctx =
     (let W = fold (load_w (ctx_buf ctx)) [0..<16] W0;
          W = fold extend_w [16..<80] W;
          st = ctx_state ctx;
          (A, B, C, D, E) = fold (sha_round W) [0..<80] (st ! 0, st ! 1, st ! 2, st ! 3, st ! 4)
      in ctx\<lparr>ctx_state := st[0 := st ! 0 + A, 1 := st ! 1 + B, 2 := st ! 2 + C, 3 := st ! 3 + D, 4 := st ! 4 + E]\<rparr>)"

fun byte_loop :: "u32 list \<Rightarrow> SHA_CTX \<Rightarrow> nat \<Rightarrow> u8 list \<Rightarrow> SHA_CTX" where
  "byte_loop W0 ctx i [] = ctx"
| "byte_loop W0 ctx i (b # p) =
     (let ctx = ctx\<lparr>ctx_buf := (ctx_buf ctx)[i := b]\<rparr>; i = i + 1 in
      if i = 64 then byte_loop W0 (SHA1_transform W0 ctx) 0 p else byte_loop W0 ctx i p)"

definition SHA_update :: "u32 list \<Rightarrow> SHA_CTX \<Rightarrow> u8 list \<Rightarrow> SHA_CTX" where
  "SHA_update W0 ctx data =
     (let i = unat (ctx_count ctx mod 64);
          ctx = ctx\<lparr>ctx_count := ctx_count ctx + of_nat (length data)\<rparr>
      in byte_loop W0 ctx i data)"

lemma SHA1_transform_count [simp]: "ctx_count (SHA1_transform W0 ctx) = ctx_count ctx"
  by (simp add: SHA1_transform_def Let_def split: prod.splits)

lemma byte_loop_count [simp]: "ctx_count (byte_loop W0 ctx i p) = ctx_count ctx"
  by (induction W0 ctx i p rule: byte_loop.induct) (simp_all add: Let_def)

lemma SHA_update_count [simp]: "ctx_count (SHA_update W0 ctx p) = ctx_count ctx + of_nat (length p)"
  by (simp add: SHA_update_def Let_def)

function pad_loop :: "u32 list \<Rightarrow> SHA_CTX \<Rightarrow> SHA_CTX" where
  "pad_loop W0 ctx = (if ctx_count ctx mod 64 \<noteq> 56 then pad_loop W0 (SHA_update W0 ctx [0]) else ctx)"
  by pat_completeness auto
termination
  by (relation "measure (\<lambda>(W0, ctx). pad_left (ctx_count ctx))") (auto simp: pad_left_0 pad_left_Suc)

declare pad_loop.simps [simp del]

definition put_word :: "u32 \<Rightarrow> nat \<Rightarrow> u8 list \<Rightarrow> u8 list" where
  "put_word tmp i b = b[4 * i := ucast (drop_bit 24 tmp), 4 * i + 1 := ucast (drop_bit 16 tmp),
     4 * i + 2 := ucast (drop_bit 8 tmp), 4 * i + 3 := ucast (drop_bit 0 tmp)]"

definition SHA_final :: "u32 list \<Rightarrow> SHA_CTX \<Rightarrow> SHA_CTX" where
  "SHA_final W0 ctx =
     (let cnt = ctx_count ctx * 8;
          ctx = SHA_update W0 ctx [0x80];
          ctx = pad_loop W0 ctx;
          ctx = fold (\<lambda>tmp ctx. SHA_update W0 ctx [tmp]) (count_bytes cnt) ctx
      in ctx\<lparr>ctx_buf := fold (\<lambda>i b. put_word (ctx_state ctx ! i) i b) [0..<5] (ctx_buf ctx)\<rparr>)"

subsection \<open>Both versions\<close>

definition SHA_init :: "SHA_CTX \<Rightarrow> SHA_CTX" where
  "SHA_init ctx = ctx\<lparr>ctx_state := [0x67452301, 0xEFCDAB89, 0x98BADCFE, 0x10325476, 0xC3D2E1F0], ctx_count := 0\<rparr>"

definition SHA_DIGEST_SIZE :: nat where "SHA_DIGEST_SIZE = 20"

text \<open>The convenience function with the generic version; \<open>ctx\<close> and \<open>W0\<close> are the uninitialised local variables.\<close>

definition SHA :: "u32 list \<Rightarrow> SHA_CTX \<Rightarrow> u8 list \<Rightarrow> u8 list \<Rightarrow> u8 list" where
  "SHA W0 ctx data digest =
     (let ctx = SHA_final W0 (SHA_update W0 (SHA_init ctx) data)
      in fold (\<lambda>i d. d[i := ctx_buf ctx ! i]) [0..<SHA_DIGEST_SIZE] digest)"

definition SHA_le :: "u32 list \<Rightarrow> SHA_CTX \<Rightarrow> u8 list \<Rightarrow> u8 list \<Rightarrow> u8 list" where
  "SHA_le W0 ctx data digest =
     (let ctx = SHA_final_le W0 (SHA_update_le W0 (SHA_init ctx) data)
      in fold (\<lambda>i d. d[i := ctx_buf ctx ! i]) [0..<SHA_DIGEST_SIZE] digest)"

end
