(* ===== verification/Rsa.thy ===== *)
theory Rsa
  imports Sha
begin

text \<open>
  RSA signature verification of \<^verbatim>\<open>src/core/libmincrypt/rsa.c\<close>, with its 32- and 64-bit arithmetic, and the tool
  \<^verbatim>\<open>DumpPublicKey.java\<close> that computes the constants of a key.  Numbers are arrays of 32-bit words, least significant
  word first.  The array \<^verbatim>\<open>c\<close> of \<open>montMul\<close> is never one of its other arguments, so arrays are passed as values.
\<close>

section \<open>Verification of signatures\<close>

definition RSANUMBYTES :: nat where "RSANUMBYTES = 256"
definition RSANUMWORDS :: nat where "RSANUMWORDS = RSANUMBYTES div 4"

record RSAPublicKey =
  key_len :: int
  n0inv :: u32
  key_n :: "u32 list"
  key_rr :: "u32 list"

text \<open>\<^verbatim>\<open>A\<close> is an \<^verbatim>\<open>int64_t\<close>; the shift keeps its sign.\<close>

definition subM_step :: "RSAPublicKey \<Rightarrow> nat \<Rightarrow> u64 \<times> u32 list \<Rightarrow> u64 \<times> u32 list" where
  "subM_step key i = (\<lambda>(A, a).
     let A = A + (ucast (a ! i) - ucast (key_n key ! i));
         a = a[i := ucast A]
     in (signed_drop_bit 32 A, a))"

definition subM :: "RSAPublicKey \<Rightarrow> u32 list \<Rightarrow> u32 list" where
  "subM key a = snd (fold (subM_step key) [0..<nat (key_len key)] (0, a))"

fun geM_loop :: "RSAPublicKey \<Rightarrow> u32 list \<Rightarrow> nat \<Rightarrow> bool" where
  "geM_loop key a 0 = True"
| "geM_loop key a (Suc i) =
     (if a ! i < key_n key ! i then False
      else if a ! i > key_n key ! i then True
      else geM_loop key a i)"

definition geM :: "RSAPublicKey \<Rightarrow> u32 list \<Rightarrow> bool" where
  "geM key a = geM_loop key a (nat (key_len key))"

definition mont_step ::
  "RSAPublicKey \<Rightarrow> u32 \<Rightarrow> u32 list \<Rightarrow> u32 \<Rightarrow> nat \<Rightarrow> u64 \<times> u64 \<times> u32 list \<Rightarrow> u64 \<times> u64 \<times> u32 list" where
  "mont_step key a b d0 i = (\<lambda>(A, B, c).
     let A = drop_bit 32 A + ucast a * ucast (b ! i) + ucast (c ! i);
         B = drop_bit 32 B + ucast d0 * ucast (key_n key ! i) + ucast (ucast A :: u32)
     in (A, B, c[i - 1 := ucast B]))"

definition montMulAdd :: "RSAPublicKey \<Rightarrow> u32 list \<Rightarrow> u32 \<Rightarrow> u32 list \<Rightarrow> u32 list" where
  "montMulAdd key c a b =
     (let A = ucast a * ucast (b ! 0) + ucast (c ! 0) :: u64;
          d0 = ucast A * n0inv key;
          B = ucast d0 * ucast (key_n key ! 0) + ucast (ucast A :: u32) :: u64;
          (A, B, c) = fold (mont_step key a b d0) [1..<nat (key_len key)] (A, B, c);
          A = drop_bit 32 A + drop_bit 32 B;
          c = c[nat (key_len key) - 1 := ucast A]
      in if drop_bit 32 A \<noteq> 0 then subM key c else c)"

definition montMul :: "RSAPublicKey \<Rightarrow> u32 list \<Rightarrow> u32 list \<Rightarrow> u32 list \<Rightarrow> u32 list" where
  "montMul key c a b =
     (let c = fold (\<lambda>i c. c[i := 0]) [0..<nat (key_len key)] c
      in fold (\<lambda>i c. montMulAdd key c (a ! i) b) [0..<nat (key_len key)] c)"

text \<open>The conversions of \<open>modpow3\<close> between big-endian bytes and words.\<close>

definition load_words :: "nat \<Rightarrow> u8 list \<Rightarrow> u32 list \<Rightarrow> u32 list" where
  "load_words len inout a =
     fold (\<lambda>i a. a[i := be_word (inout ! ((len - 1 - i) * 4)) (inout ! ((len - 1 - i) * 4 + 1))
                          (inout ! ((len - 1 - i) * 4 + 2)) (inout ! ((len - 1 - i) * 4 + 3))]) [0..<len] a"

definition store_words :: "nat \<Rightarrow> u32 list \<Rightarrow> u8 list \<Rightarrow> u8 list" where
  "store_words len aaa inout = fold (\<lambda>i. put_word (aaa ! i) (len - 1 - i)) (rev [0..<len]) inout"

text \<open>\<open>a\<close>, \<open>aR\<close> and \<open>aaR\<close> are the local arrays before they are written.\<close>

definition modpow3 :: "u32 list \<Rightarrow> u32 list \<Rightarrow> u32 list \<Rightarrow> RSAPublicKey \<Rightarrow> u8 list \<Rightarrow> u8 list" where
  "modpow3 a aR aaR key inout =
     (let len = nat (key_len key);
          a = load_words len inout a;
          aR = montMul key aR a (key_rr key);
          aaR = montMul key aaR aR aR;
          aaa = montMul key aR aaR a;
          aaa = (if geM key aaa then subM key aaa else aaa)
      in store_words len aaa inout)"

definition RSA_padding :: "u8 list" where
  "RSA_padding = [0x00, 0x01] @ replicate 218 0xff @
     [0x00, 0x30, 0x21, 0x30, 0x09, 0x06, 0x05, 0x2b, 0x0e, 0x03, 0x02, 0x1a, 0x05, 0x00, 0x04, 0x14]"

text \<open>The loops that compare: the first difference ends the function.\<close>

fun compare_loop :: "u8 list \<Rightarrow> u8 list \<Rightarrow> bool" where
  "compare_loop (b # buf) (e # expected) = (if b \<noteq> e then False else compare_loop buf expected)"
| "compare_loop _ _ = True"

definition RSA_verify ::
  "u32 list \<Rightarrow> u32 list \<Rightarrow> u32 list \<Rightarrow> u8 list \<Rightarrow> RSAPublicKey \<Rightarrow> u8 list \<Rightarrow> int \<Rightarrow> u8 list \<Rightarrow> int" where
  "RSA_verify a aR aaR buf key signature len sha =
     (if key_len key \<noteq> int RSANUMWORDS then 0
      else if len \<noteq> int RSANUMBYTES then 0
      else
        let buf = fold (\<lambda>i buf. buf[i := signature ! i]) [0..<nat len] buf;
            buf = modpow3 a aR aaR key buf in
        if \<not> compare_loop (take (length RSA_padding) buf) RSA_padding then 0
        else if \<not> compare_loop (drop (length RSA_padding) buf) sha then 0
        else 1)"

section \<open>The constants of a key\<close>

text \<open>\<^verbatim>\<open>BigInteger.bitLength\<close> of a positive number and \<^verbatim>\<open>BigInteger.modInverse\<close>, which throws when there is no inverse.\<close>

fun bitLength :: "nat \<Rightarrow> nat" where
  "bitLength n = (if n = 0 then 0 else Suc (bitLength (n div 2)))"

declare bitLength.simps [simp del]

definition modInverse :: "nat \<Rightarrow> nat \<Rightarrow> nat option" where
  "modInverse x m = (if gcd x m = 1 then Some (nat (fst (bezw x m) mod int m)) else None)"

definition check_key :: "nat \<Rightarrow> nat \<Rightarrow> bool" where
  "check_key pubexp modulus = (pubexp = 3 \<and> bitLength modulus = 2048)"

text \<open>The loops that write a number as an array of 32-bit integers.\<close>

fun dump_words :: "nat \<Rightarrow> nat \<Rightarrow> u32 list" where
  "dump_words 0 N = []"
| "dump_words (Suc k) N = of_nat (N mod 2 ^ 32) # dump_words k (N div 2 ^ 32)"

text \<open>\<^verbatim>\<open>print\<close>: the initializer of a key is the record; \<open>None\<close> stands for an exception.\<close>

definition dump_key :: "nat \<Rightarrow> nat \<Rightarrow> RSAPublicKey option" where
  "dump_key pubexp N =
     (if \<not> check_key pubexp N then None
      else
        let nwords = bitLength N div 32; B = 2 ^ 32 in
        case modInverse N B of
          None \<Rightarrow> None
        | Some N_inv \<Rightarrow>
            let N0inv = B - N_inv;
                R = 2 ^ bitLength N;
                RR = (R * R) mod N
            in Some \<lparr>key_len = int nwords, n0inv = of_nat N0inv, key_n = dump_words nwords N, key_rr = dump_words nwords RR\<rparr>)"

end
