(* ===== verification/Sha_Facts.thy ===== *)
theory Sha_Facts
  imports Sha
begin

text \<open>
  SHA-1 as the standard defines it, and the proofs that the compression functions, the buffering and the padding of
  \<^verbatim>\<open>sha.c\<close> implement it.
\<close>

section \<open>The standard\<close>

definition Ch :: "u32 \<Rightarrow> u32 \<Rightarrow> u32 \<Rightarrow> u32" where
  "Ch x y z = (x AND y) XOR (NOT x AND z)"

definition Maj :: "u32 \<Rightarrow> u32 \<Rightarrow> u32 \<Rightarrow> u32" where
  "Maj x y z = (x AND y) XOR (x AND z) XOR (y AND z)"

definition sha_f :: "nat \<Rightarrow> u32 \<Rightarrow> u32 \<Rightarrow> u32 \<Rightarrow> u32" where
  "sha_f t = (if t < 20 then Ch else if 40 \<le> t \<and> t < 60 then Maj else (\<lambda>x y z. x XOR y XOR z))"

definition sha_K :: "nat \<Rightarrow> u32" where
  "sha_K t = (if t < 20 then 0x5A827999 else if t < 40 then 0x6ED9EBA1 else if t < 60 then 0x8F1BBCDC else 0xCA62C1D6)"

text \<open>The message schedule of a block of 64 bytes.\<close>

function sched :: "u8 list \<Rightarrow> nat \<Rightarrow> u32" where
  "sched M t =
     (if t < 16 then be_word (M ! (4 * t)) (M ! (4 * t + 1)) (M ! (4 * t + 2)) (M ! (4 * t + 3))
      else rol 1 (sched M (t - 3) XOR sched M (t - 8) XOR sched M (t - 14) XOR sched M (t - 16)))"
  by pat_completeness auto
termination
  by (relation "measure snd") auto

declare sched.simps [simp del]

definition spec_round :: "u8 list \<Rightarrow> nat \<Rightarrow> u32 \<times> u32 \<times> u32 \<times> u32 \<times> u32 \<Rightarrow> u32 \<times> u32 \<times> u32 \<times> u32 \<times> u32" where
  "spec_round M t = (\<lambda>(a, b, c, d, e). (rol 5 a + sha_f t b c d + e + sha_K t + sched M t, a, rol 30 b, c, d))"

definition compress :: "u8 list \<Rightarrow> u32 list \<Rightarrow> u32 list" where
  "compress M H =
     (let (a, b, c, d, e) = fold (spec_round M) [0..<80] (H ! 0, H ! 1, H ! 2, H ! 3, H ! 4)
      in [H ! 0 + a, H ! 1 + b, H ! 2 + c, H ! 3 + d, H ! 4 + e])"

definition sha_init_hash :: "u32 list" where
  "sha_init_hash = [0x67452301, 0xEFCDAB89, 0x98BADCFE, 0x10325476, 0xC3D2E1F0]"

text \<open>The hash after the complete blocks of a message.\<close>

function hash_blocks :: "u8 list \<Rightarrow> u32 list \<Rightarrow> u32 list" where
  "hash_blocks m H = (if length m < 64 then H else hash_blocks (drop 64 m) (compress (take 64 m) H))"
  by pat_completeness auto
termination
  by (relation "measure (\<lambda>(m, H). length m)") auto

declare hash_blocks.simps [simp del]

definition padded_message :: "u8 list \<Rightarrow> u8 list" where
  "padded_message m =
     m @ [0x80] @ replicate ((119 - length m mod 64) mod 64) 0 @ count_bytes (of_nat (8 * length m))"

definition word_bytes :: "u32 \<Rightarrow> u8 list" where
  "word_bytes w = [ucast (drop_bit 24 w), ucast (drop_bit 16 w), ucast (drop_bit 8 w), ucast w]"

definition sha1 :: "u8 list \<Rightarrow> u8 list" where
  "sha1 m = concat (map word_bytes (hash_blocks (padded_message m) sha_init_hash))"

section \<open>Words\<close>

lemma Ch_alt: "D XOR (B AND (C XOR D)) = Ch B C D"
  unfolding Ch_def by (rule bit_word_eqI) (auto simp: bit_simps)

lemma Maj_alt: "(B AND C) OR (D AND (B OR C)) = Maj B C D"
  unfolding Maj_def by (rule bit_word_eqI) (auto simp: bit_simps)

lemma rotations: "ror27 v = rol 5 v" "ror2 v = rol 30 v" "ror31 v = rol 1 v"
  by (simp_all add: ror27_def ror2_def ror31_def rol_def or.commute)

lemma be_word_bytes:
  "ucast (be_word b0 b1 b2 b3) = b3" "ucast (drop_bit 8 (be_word b0 b1 b2 b3)) = b2"
  "ucast (drop_bit 16 (be_word b0 b1 b2 b3)) = b1" "ucast (drop_bit 24 (be_word b0 b1 b2 b3)) = b0"
  by (rule bit_word_eqI, auto simp: be_word_def bit_simps dest: bit_imp_le_length)+

lemma bswap_buf: "bswap_32 (buf_w b t) = be_word (b ! (4 * t)) (b ! (4 * t + 1)) (b ! (4 * t + 2)) (b ! (4 * t + 3))"
  by (simp add: bswap_32_def buf_w_def be_word_bytes)

lemma set_buf_bswap: "set_buf_w b i (bswap_32 v) = put_word v i b"
  by (simp add: set_buf_w_def put_word_def bswap_32_def be_word_bytes)

section \<open>The compression functions\<close>

text \<open>The first \<open>t\<close> cells of the array \<^verbatim>\<open>W\<close> hold the schedule.\<close>

definition W_ok :: "u8 list \<Rightarrow> nat \<Rightarrow> u32 list \<Rightarrow> bool" where
  "W_ok M t W \<longleftrightarrow> length W = 80 \<and> (\<forall>j < t. W ! j = sched M j)"

lemma W_ok_step: "W_ok M t W \<Longrightarrow> t < 80 \<Longrightarrow> w = sched M t \<Longrightarrow> W_ok M (Suc t) (W[t := w])"
  by (auto simp: W_ok_def nth_list_update less_Suc_eq)

lemma W_ok_next: "W_ok M t W \<Longrightarrow> 16 \<le> t \<Longrightarrow> next_w W t = sched M t"
  by (subst sched.simps) (simp add: next_w_def rotations W_ok_def)

text \<open>A macro at step \<open>t\<close> extends the schedule and does one round, with the variables named from one place further.\<close>

definition macro_ok :: "u8 list \<Rightarrow> sha_macro \<Rightarrow> nat \<Rightarrow> bool" where
  "macro_ok M F t \<longleftrightarrow>
     (\<forall>W A B C D E. W_ok M t W \<longrightarrow>
        (\<exists>W' B' E'. F W A B C D E t = (W', B', E') \<and> W_ok M (Suc t) W' \<and> (E', A, B', C, D) = spec_round M t (A, B, C, D, E)))"

lemma macro_okI:
  assumes "\<And>W A B C D E. W_ok M t W \<Longrightarrow>
      F W A B C D E t = (W[t := sched M t], rol 30 B, E + (rol 5 A + sched M t + sha_f t B C D + sha_K t))" "t < 80"
  shows "macro_ok M F t"
  unfolding macro_ok_def
proof (intro allI impI)
  fix W A B C D E
  assume W: "W_ok M t W"
  have "E + (rol 5 A + sched M t + sha_f t B C D + sha_K t) = rol 5 A + sha_f t B C D + E + sha_K t + sched M t"
    by (simp only: ac_simps)
  then show "\<exists>W' B' E'. F W A B C D E t = (W', B', E') \<and> W_ok M (Suc t) W' \<and> (E', A, B', C, D) = spec_round M t (A, B, C, D, E)"
    using assms(1) [OF W, of A B C D E] W_ok_step [OF W assms(2) refl] by (simp add: spec_round_def)
qed

lemma sched_first: "t < 16 \<Longrightarrow> sched M t = bswap_32 (buf_w M t)"
  by (subst sched.simps) (simp add: bswap_buf)

lemma macros_ok:
  "t < 16 \<Longrightarrow> macro_ok M (SHA_F1 M) t" "16 \<le> t \<Longrightarrow> t < 20 \<Longrightarrow> macro_ok M SHA_F1' t"
  "20 \<le> t \<Longrightarrow> t < 40 \<Longrightarrow> macro_ok M SHA_F2 t" "40 \<le> t \<Longrightarrow> t < 60 \<Longrightarrow> macro_ok M SHA_F3 t"
  "60 \<le> t \<Longrightarrow> t < 80 \<Longrightarrow> macro_ok M SHA_F4 t"
  by (rule macro_okI; simp add: SHA_F1_def SHA_F1'_def SHA_F2_def SHA_F3_def SHA_F4_def rotations Ch_alt Maj_alt sha_f_def
      sha_K_def W_ok_next sched_first Let_def)+

lemma macro_step:
  assumes "macro_ok M F t" "W_ok M t W"
  obtains W' B' E' where "F W A B C D E t = (W', B', E')" "W_ok M (Suc t) W'" "spec_round M t (A, B, C, D, E) = (E', A, B', C, D)"
  using assms unfolding macro_ok_def by metis

text \<open>Five macros, the first of which may differ from the others.\<close>

definition five2 :: "sha_macro \<Rightarrow> sha_macro \<Rightarrow> nat \<Rightarrow> sha_vars \<Rightarrow> sha_vars" where
  "five2 G F t = (\<lambda>(W, A, B, C, D, E).
     let (W, B, E) = G W A B C D E (t + 0);
         (W, A, D) = F W E A B C D (t + 1);
         (W, E, C) = F W D E A B C (t + 2);
         (W, D, B) = F W C D E A B (t + 3);
         (W, C, A) = F W B C D E A (t + 4)
     in (W, A, B, C, D, E))"

lemma five_eq: "five F t = five2 F F t" "five_mixed b t = five2 (SHA_F1 b) SHA_F1' t"
  unfolding five_def five_mixed_def five2_def by (rule refl)+

lemma upt_five: "[t..<t + 5] = [t, t + 1, t + 2, t + 3, t + 4]"
  by (simp add: upt_rec)

lemma five_ok:
  assumes G: "macro_ok M G t" and F: "\<And>k. t < k \<Longrightarrow> k < t + 5 \<Longrightarrow> macro_ok M F k" and W: "W_ok M t W"
  shows "\<exists>W'. five2 G F t (W, v) = (W', fold (spec_round M) [t..<t + 5] v) \<and> W_ok M (t + 5) W'"
proof -
  obtain A B C D E where v: "v = (A, B, C, D, E)" by (metis surj_pair)
  have F1: "macro_ok M F (Suc t)" "macro_ok M F (Suc (Suc t))" "macro_ok M F (Suc (Suc (Suc t)))" "macro_ok M F (Suc (Suc (Suc (Suc t))))"
    by (rule F; simp)+
  obtain W1 B1 E1 where 1: "G W A B C D E t = (W1, B1, E1)" "W_ok M (Suc t) W1" "spec_round M t (A, B, C, D, E) = (E1, A, B1, C, D)"
    by (rule macro_step [OF G W])
  obtain W2 A2 D2 where 2: "F W1 E1 A B1 C D (Suc t) = (W2, A2, D2)" "W_ok M (Suc (Suc t)) W2"
    "spec_round M (Suc t) (E1, A, B1, C, D) = (D2, E1, A2, B1, C)"
    by (rule macro_step [OF F1(1) 1(2)])
  obtain W3 E3 C3 where 3: "F W2 D2 E1 A2 B1 C (Suc (Suc t)) = (W3, E3, C3)" "W_ok M (Suc (Suc (Suc t))) W3"
    "spec_round M (Suc (Suc t)) (D2, E1, A2, B1, C) = (C3, D2, E3, A2, B1)"
    by (rule macro_step [OF F1(2) 2(2)])
  obtain W4 D4 B4 where 4: "F W3 C3 D2 E3 A2 B1 (Suc (Suc (Suc t))) = (W4, D4, B4)" "W_ok M (Suc (Suc (Suc (Suc t)))) W4"
    "spec_round M (Suc (Suc (Suc t))) (C3, D2, E3, A2, B1) = (B4, C3, D4, E3, A2)"
    by (rule macro_step [OF F1(3) 3(2)])
  obtain W5 C5 A5 where 5: "F W4 B4 C3 D4 E3 A2 (Suc (Suc (Suc (Suc t)))) = (W5, C5, A5)" "W_ok M (Suc (Suc (Suc (Suc (Suc t))))) W5"
    "spec_round M (Suc (Suc (Suc (Suc t)))) (B4, C3, D4, E3, A2) = (A5, B4, C5, D4, E3)"
    by (rule macro_step [OF F1(4) 4(2)])
  have n: "t + 2 = Suc (Suc t)" "t + 3 = Suc (Suc (Suc t))" "t + 4 = Suc (Suc (Suc (Suc t)))" "t + 5 = Suc (Suc (Suc (Suc (Suc t))))"
    by simp_all
  show ?thesis
    unfolding v upt_five by (simp add: n five2_def 1 2 3 4 5)
qed

lemma five_loop_ok:
  assumes "limit = t + 5 * k" "\<And>j. t \<le> j \<Longrightarrow> j < limit \<Longrightarrow> macro_ok M F j" "W_ok M t W"
  shows "\<exists>W'. five_loop F t limit (W, v) = (W', fold (spec_round M) [t..<limit] v) \<and> W_ok M limit W'"
  using assms
proof (induction k arbitrary: t W v)
  case (Suc k)
  have t: "t < limit" "t + 5 \<le> limit" using Suc.prems by simp_all
  obtain W1 where 1: "five F t (W, v) = (W1, fold (spec_round M) [t..<t + 5] v)" "W_ok M (t + 5) W1"
    using five_ok [of M F t F W v] Suc.prems t by (auto simp: five_eq)
  have "[t..<limit] = [t..<t + 5] @ [t + 5..<limit]"
    using upt_add_eq_append [of t "t + 5" "5 * k"] Suc.prems(1) by (simp add: add.assoc)
  moreover have "five_loop F t limit (W, v) = five_loop F (t + 5) limit (five F t (W, v))"
    using t(1) by (subst five_loop.simps) simp
  ultimately show ?case
    using 1 Suc.IH [of "t + 5" W1 "fold (spec_round M) [t..<t + 5] v"] Suc.prems by simp
qed (simp add: five_loop.simps)

lemma compress_eq:
  assumes "length H = 5" "fold (spec_round M) [0..<80] (H ! 0, H ! 1, H ! 2, H ! 3, H ! 4) = (A, B, C, D, E)"
  shows "H[0 := H ! 0 + A, 1 := H ! 1 + B, 2 := H ! 2 + C, 3 := H ! 3 + D, 4 := H ! 4 + E] = compress M H"
proof -
  obtain h0 h1 h2 h3 h4 where "H = [h0, h1, h2, h3, h4]"
    using assms(1) by (auto simp: length_Suc_conv eval_nat_numeral)
  with assms(2) show ?thesis by (simp add: compress_def)
qed

lemma SHA1_Transform_compress:
  assumes "length W0 = 80" "length (ctx_state ctx) = 5"
  shows "SHA1_Transform W0 ctx = ctx\<lparr>ctx_state := compress (ctx_buf ctx) (ctx_state ctx)\<rparr>"
proof -
  let ?M = "ctx_buf ctx" and ?st = "ctx_state ctx"
  let ?R = "\<lambda>a b. fold (spec_round ?M) [a..<b]"
  let ?v = "(?st ! 0, ?st ! 1, ?st ! 2, ?st ! 3, ?st ! 4)"
  have W0: "W_ok ?M 0 W0" using assms(1) by (simp add: W_ok_def)
  obtain W1 where 1: "five_loop (SHA_F1 ?M) 0 15 (W0, ?v) = (W1, ?R 0 15 ?v)" "W_ok ?M 15 W1"
    using five_loop_ok [of 15 0 3 ?M "SHA_F1 ?M" W0 ?v] W0 by (auto simp: macros_ok)
  obtain W2 where 2: "five_mixed ?M 15 (W1, ?R 0 15 ?v) = (W2, ?R 15 20 (?R 0 15 ?v))" "W_ok ?M 20 W2"
    using five_ok [of ?M "SHA_F1 ?M" 15 SHA_F1' W1 "?R 0 15 ?v"] 1(2) by (auto simp: macros_ok five_eq)
  obtain W3 where 3: "five_loop SHA_F2 20 40 (W2, ?R 15 20 (?R 0 15 ?v)) = (W3, ?R 20 40 (?R 15 20 (?R 0 15 ?v)))" "W_ok ?M 40 W3"
    using five_loop_ok [of 40 20 4 ?M SHA_F2 W2 "?R 15 20 (?R 0 15 ?v)"] 2(2) by (auto simp: macros_ok)
  obtain W4 where 4: "five_loop SHA_F3 40 60 (W3, ?R 20 40 (?R 15 20 (?R 0 15 ?v))) = (W4, ?R 40 60 (?R 20 40 (?R 15 20 (?R 0 15 ?v))))"
    "W_ok ?M 60 W4"
    using five_loop_ok [of 60 40 4 ?M SHA_F3 W3 "?R 20 40 (?R 15 20 (?R 0 15 ?v))"] 3(2) by (auto simp: macros_ok)
  obtain W5 where 5: "five_loop SHA_F4 60 80 (W4, ?R 40 60 (?R 20 40 (?R 15 20 (?R 0 15 ?v)))) =
      (W5, ?R 60 80 (?R 40 60 (?R 20 40 (?R 15 20 (?R 0 15 ?v)))))"
    using five_loop_ok [of 80 60 4 ?M SHA_F4 W4 "?R 40 60 (?R 20 40 (?R 15 20 (?R 0 15 ?v)))"] 4(2) by (auto simp: macros_ok)
  have "[0..<80] = [0..<15] @ [15..<20] @ [20..<40] @ [40..<60] @ [60..<80]"
    using upt_add_eq_append [of 0 15 65] upt_add_eq_append [of 15 20 60] upt_add_eq_append [of 20 40 40]
      upt_add_eq_append [of 40 60 20] by simp
  then have R: "?R 60 80 (?R 40 60 (?R 20 40 (?R 15 20 (?R 0 15 ?v)))) = ?R 0 80 ?v" by (simp only: fold_append comp_apply)
  obtain A B C D E where v: "?R 0 80 ?v = (A, B, C, D, E)" by (metis surj_pair)
  show ?thesis
    unfolding SHA1_Transform_def Let_def 1 2 3 4 5 R v prod.case compress_eq [OF assms(2) v] by (rule refl)
qed

lemma fold_W_ok:
  assumes "\<And>t W. a \<le> t \<Longrightarrow> t < b \<Longrightarrow> W_ok M t W \<Longrightarrow> W_ok M (Suc t) (f t W)" "a \<le> b" "W_ok M a W"
  shows "W_ok M b (fold f [a..<b] W)"
  using assms(2,3,1)
proof (induction b rule: dec_induct)
  case (step n)
  then show ?case by simp
qed simp

lemma SHA1_transform_compress:
  assumes "length W0 = 80" "length (ctx_state ctx) = 5"
  shows "SHA1_transform W0 ctx = ctx\<lparr>ctx_state := compress (ctx_buf ctx) (ctx_state ctx)\<rparr>"
proof -
  let ?M = "ctx_buf ctx" and ?st = "ctx_state ctx"
  have "W_ok ?M 0 W0" using assms(1) by (simp add: W_ok_def)
  moreover have "W_ok ?M (Suc t) (load_w ?M t W)" if "t < 16" "W_ok ?M t W" for t W
    unfolding load_w_def using that by (intro W_ok_step) (simp_all add: sched_first bswap_buf)
  ultimately have 1: "W_ok ?M 16 (fold (load_w ?M) [0..<16] W0)" by (intro fold_W_ok) simp_all
  have ext: "W_ok ?M (Suc t) (extend_w t W)" if "16 \<le> t" "t < 80" "W_ok ?M t W" for t W
    unfolding extend_w_def using that W_ok_next [OF that(3,1)] by (intro W_ok_step) (simp_all add: next_w_def rotations)
  have W: "W_ok ?M 80 (fold extend_w [16..<80] (fold (load_w ?M) [0..<16] W0))" (is "W_ok _ _ ?W")
    by (rule fold_W_ok [OF _ _ 1]) (simp_all add: ext)
  have "sha_round ?W t v = spec_round ?M t v" if "t < 80" for t v
    using W that by (cases v) (simp add: sha_round_def spec_round_def sha_f_def sha_K_def Ch_alt Maj_alt W_ok_def Let_def ac_simps)
  then have R: "fold (sha_round ?W) [0..<80] v = fold (spec_round ?M) [0..<80] v" for v
    by (intro fold_cong) auto
  obtain A B C D E where v: "fold (spec_round ?M) [0..<80] (?st ! 0, ?st ! 1, ?st ! 2, ?st ! 3, ?st ! 4) = (A, B, C, D, E)"
    by (metis surj_pair)
  show ?thesis
    unfolding SHA1_transform_def Let_def R v prod.case compress_eq [OF assms(2) v] by (rule refl)
qed

section \<open>The two versions\<close>

definition ctx_wf :: "SHA_CTX \<Rightarrow> bool" where
  "ctx_wf ctx \<longleftrightarrow> length (ctx_state ctx) = 5 \<and> length (ctx_buf ctx) = 64"

lemma compress_length [simp]: "length (compress M H) = 5"
  by (simp add: compress_def split: prod.split)

lemma ctx_wf_updates [simp]:
  "ctx_wf ctx \<Longrightarrow> ctx_wf (ctx\<lparr>ctx_buf := (ctx_buf ctx)[i := b]\<rparr>)" "ctx_wf (ctx\<lparr>ctx_count := c\<rparr>) = ctx_wf ctx"
  "length W0 = 80 \<Longrightarrow> ctx_wf ctx \<Longrightarrow> ctx_wf (SHA1_transform W0 ctx)"
  by (simp_all add: ctx_wf_def SHA1_transform_compress)

lemma transforms_agree: "length W0 = 80 \<Longrightarrow> ctx_wf ctx \<Longrightarrow> SHA1_Transform W0 ctx = SHA1_transform W0 ctx"
  by (simp add: ctx_wf_def SHA1_Transform_compress SHA1_transform_compress)

lemma byte_loops_agree: "length W0 = 80 \<Longrightarrow> ctx_wf ctx \<Longrightarrow> byte_loop_le W0 ctx i p = byte_loop W0 ctx i p"
  by (induction p arbitrary: ctx i) (simp_all add: Let_def transforms_agree)

lemma byte_loop_block:
  assumes "i < 64" "length xs = 64 - i" "ctx_wf ctx"
  shows "byte_loop W0 ctx i (xs @ ys) = byte_loop W0 (SHA1_transform W0 (ctx\<lparr>ctx_buf := take i (ctx_buf ctx) @ xs\<rparr>)) 0 ys"
  using assms
proof (induction xs arbitrary: i ctx)
  case (Cons b xs)
  let ?c = "ctx\<lparr>ctx_buf := (ctx_buf ctx)[i := b]\<rparr>"
  have buf: "take (Suc i) ((ctx_buf ctx)[i := b]) = take i (ctx_buf ctx) @ [b]"
    using Cons.prems by (simp add: take_Suc_conv_app_nth ctx_wf_def)
  show ?case
  proof (cases "xs = []")
    case True
    then have "Suc i = 64" using Cons.prems by simp
    moreover from this have "(ctx_buf ctx)[i := b] = take i (ctx_buf ctx) @ [b]"
      using buf Cons.prems by (simp add: ctx_wf_def)
    ultimately show ?thesis using True by (simp add: Let_def)
  next
    case False
    then have i: "Suc i < 64" "length xs = 64 - Suc i" using Cons.prems by (cases xs; simp)+
    from Cons.IH [OF i, of ?c] Cons.prems(3) i buf show ?thesis by (simp add: Let_def)
  qed
qed simp

lemma block_loop_agrees:
  assumes "length W0 = 80" "ctx_wf ctx" "i < 64" "block_loop W0 ctx i p = (ctx', i', p')"
  shows "byte_loop_le W0 ctx' i' p' = byte_loop W0 ctx i p"
  using assms
proof (induction W0 ctx i p rule: block_loop.induct)
  case (1 W0 ctx i p)
  show ?case
  proof (cases "length p > 64 - i")
    case True
    let ?c = "ctx\<lparr>ctx_buf := take i (ctx_buf ctx) @ take (64 - i) p @ drop 64 (ctx_buf ctx)\<rparr>"
    have buf: "?c = ctx\<lparr>ctx_buf := take i (ctx_buf ctx) @ take (64 - i) p\<rparr>" using "1.prems"(2) by (simp add: ctx_wf_def)
    have wf: "ctx_wf ?c" using "1.prems"(2,3) True by (simp add: ctx_wf_def)
    have "block_loop W0 (SHA1_Transform W0 ?c) 0 (drop (64 - i) p) = (ctx', i', p')"
      using True "1.prems" by (subst (asm) block_loop.simps) simp
    then have "byte_loop_le W0 ctx' i' p' = byte_loop W0 (SHA1_Transform W0 ?c) 0 (drop (64 - i) p)"
      using "1.IH" True "1.prems" wf by (simp add: transforms_agree)
    also have "\<dots> = byte_loop W0 ctx i (take (64 - i) p @ drop (64 - i) p)"
      using True "1.prems" wf by (subst byte_loop_block) (simp_all add: transforms_agree buf)
    finally show ?thesis by simp
  next
    case False
    then have "(ctx', i', p') = (ctx, i, p)" using "1.prems"(4) by (subst (asm) block_loop.simps) simp
    then show ?thesis using "1.prems" by (simp add: byte_loops_agree)
  qed
qed

lemma count_mod: "unat (c mod 64 :: u64) < 64"
  using mod_less_divisor [of 64 "unat c"] by (simp add: unat_mod)

lemma updates_agree:
  assumes "length W0 = 80" "ctx_wf ctx"
  shows "SHA_update_le W0 ctx p = SHA_update W0 ctx p"
  using block_loop_agrees [OF assms(1) _ count_mod] assms(2)
  by (auto simp: SHA_update_le_def SHA_update_def Let_def split: prod.split)

lemma byte_loop_wf: "length W0 = 80 \<Longrightarrow> ctx_wf ctx \<Longrightarrow> ctx_wf (byte_loop W0 ctx i p)"
  by (induction p arbitrary: ctx i) (simp_all add: Let_def)

lemma SHA_update_wf [simp]: "length W0 = 80 \<Longrightarrow> ctx_wf ctx \<Longrightarrow> ctx_wf (SHA_update W0 ctx p)"
  by (simp add: SHA_update_def byte_loop_wf Let_def)

lemma pad_loops_agree:
  assumes "length W0 = 80" "ctx_wf ctx"
  shows "pad_loop_le W0 ctx = pad_loop W0 ctx" "ctx_wf (pad_loop W0 ctx)"
proof -
  have "pad_loop_le W0 ctx = pad_loop W0 ctx \<and> ctx_wf (pad_loop W0 ctx)"
    using assms
  proof (induction W0 ctx rule: pad_loop.induct)
    case (1 W0 ctx)
    then show ?case
      by (cases "ctx_count ctx mod 64 = 56")
        (simp_all add: updates_agree pad_loop.simps [of W0 ctx] pad_loop_le.simps [of W0 ctx])
  qed
  then show "pad_loop_le W0 ctx = pad_loop W0 ctx" "ctx_wf (pad_loop W0 ctx)" by simp_all
qed

lemma count_loops_agree:
  assumes "length W0 = 80" "ctx_wf ctx"
  shows "fold (\<lambda>tmp ctx. SHA_update_le W0 ctx [tmp]) bs ctx = fold (\<lambda>tmp ctx. SHA_update W0 ctx [tmp]) bs ctx"
  using assms by (induction bs arbitrary: ctx) (simp_all add: updates_agree)

lemma count_loop_wf:
  assumes "length W0 = 80" "ctx_wf ctx"
  shows "ctx_wf (fold (\<lambda>tmp ctx. SHA_update W0 ctx [tmp]) bs ctx)"
  using assms by (induction bs arbitrary: ctx) simp_all

lemma finals_agree: "length W0 = 80 \<Longrightarrow> ctx_wf ctx \<Longrightarrow> SHA_final_le W0 ctx = SHA_final W0 ctx"
  by (simp add: SHA_final_le_def SHA_final_def updates_agree pad_loops_agree count_loops_agree set_buf_bswap Let_def)

lemma SHA_le_eq:
  assumes "length W0 = 80" "length (ctx_state ctx) = 5" "length (ctx_buf ctx) = 64"
  shows "SHA_le W0 ctx data digest = SHA W0 ctx data digest"
proof -
  have "ctx_wf (SHA_init ctx)" using assms by (simp add: ctx_wf_def SHA_init_def)
  with assms(1) show ?thesis by (simp add: SHA_le_def SHA_def updates_agree finals_agree)
qed

text \<open>C17: The optimised version.  On every well-formed context the unrolled compression function, the block-wise
  update and the final step for little-endian machines do the same as the generic ones, and the two convenience
  functions return the same digest.\<close>

theorem sha_versions_agree:
  assumes "length W0 = 80" "length (ctx_state ctx) = 5" "length (ctx_buf ctx) = 64"
  shows "SHA1_Transform W0 ctx = SHA1_transform W0 ctx \<and> SHA_update_le W0 ctx data = SHA_update W0 ctx data \<and>
    SHA_final_le W0 ctx = SHA_final W0 ctx \<and> SHA_le W0 ctx data digest = SHA W0 ctx data digest"
proof -
  have "ctx_wf ctx" using assms by (simp add: ctx_wf_def)
  with assms(1) show ?thesis by (simp add: transforms_agree updates_agree finals_agree SHA_le_eq [OF assms])
qed

definition w_ctx :: SHA_CTX where
  "w_ctx = \<lparr>ctx_count = 0, ctx_state = replicate 5 0, ctx_buf = replicate 64 0\<rparr>"

theorem sha_versions_agree_witness:
  "SHA_le (replicate 80 0) w_ctx [97, 98, 99] (replicate 20 0) = SHA (replicate 80 0) w_ctx [97, 98, 99] (replicate 20 0)"
  using sha_versions_agree [of "replicate 80 0" w_ctx "[97, 98, 99]" "replicate 20 0"] by (simp add: w_ctx_def)

section \<open>Buffering and padding\<close>

lemma hash_blocks_short: "length m < 64 \<Longrightarrow> hash_blocks m H = H"
  by (simp add: hash_blocks.simps)

lemma hash_blocks_one: "length m = 64 \<Longrightarrow> hash_blocks m H = compress m H"
  by (subst hash_blocks.simps) (simp add: hash_blocks_short)

lemma hash_blocks_append: "64 dvd length m \<Longrightarrow> hash_blocks (m @ n) H = hash_blocks n (hash_blocks m H)"
proof (induction m H rule: hash_blocks.induct)
  case (1 m H)
  show ?case
  proof (cases "length m < 64")
    case True
    with "1.prems" have "m = []" by (cases m) (auto dest: dvd_imp_le)
    then show ?thesis by (simp add: hash_blocks_short)
  next
    case False
    then have "64 dvd length (drop 64 m)" using "1.prems" by (simp add: dvd_diff_nat)
    with "1.IH" False show ?thesis
      by (subst hash_blocks.simps, subst (2) hash_blocks.simps) simp
  qed
qed

text \<open>The context after the bytes \<open>m\<close>: the hash of the complete blocks, and the rest in the buffer.\<close>

definition absorbed :: "u8 list \<Rightarrow> SHA_CTX \<Rightarrow> bool" where
  "absorbed m ctx \<longleftrightarrow>
     ctx_wf ctx \<and>
     (\<exists>full part. m = full @ part \<and> 64 dvd length full \<and> length part < 64 \<and>
        ctx_state ctx = hash_blocks full sha_init_hash \<and> take (length part) (ctx_buf ctx) = part)"

lemma absorbed_blocks:
  assumes "absorbed m ctx" "64 dvd length m"
  shows "ctx_state ctx = hash_blocks m sha_init_hash"
proof -
  obtain full part where m: "m = full @ part" "64 dvd length full" "length part < 64"
    "ctx_state ctx = hash_blocks full sha_init_hash"
    using assms(1) by (auto simp: absorbed_def)
  have "64 dvd length part" using assms(2) m(1,2) by (simp add: dvd_add_right_iff)
  with m(3) have "part = []" by (cases part) (auto dest: dvd_imp_le)
  with m show ?thesis by simp
qed

lemma absorbed_count: "absorbed (m :: u8 list) (ctx\<lparr>ctx_count := c\<rparr>) = absorbed m ctx"
  by (simp add: absorbed_def)

lemma absorb_byte:
  assumes "length W0 = 80" "absorbed m ctx" "i = length m mod 64"
  shows "absorbed (m @ [b]) (let ctx = ctx\<lparr>ctx_buf := (ctx_buf ctx)[i := b]\<rparr> in
    if Suc i = 64 then SHA1_transform W0 ctx else ctx)"
proof -
  obtain full part where m: "m = full @ part" "64 dvd length full" "length part < 64"
    "ctx_state ctx = hash_blocks full sha_init_hash" "take (length part) (ctx_buf ctx) = part" and wf: "ctx_wf ctx"
    using assms(2) by (auto simp: absorbed_def)
  obtain k where "length full = 64 * k" using m(2) by (rule dvdE)
  then have i: "i = length part" using assms(3) m(1,3) by simp
  have buf: "take (Suc i) ((ctx_buf ctx)[i := b]) = part @ [b]"
    using i m(3,5) wf by (simp add: take_Suc_conv_app_nth ctx_wf_def)
  show ?thesis
  proof (cases "Suc i = 64")
    case False
    then have "length (part @ [b]) < 64" using i m(3) by simp
    with False m buf i wf show ?thesis
      unfolding absorbed_def by (simp add: Let_def) (rule exI [of _ full], rule exI [of _ "part @ [b]"], simp)
  next
    case True
    have l: "length (part @ [b]) = 64" using True i by simp
    have all: "(ctx_buf ctx)[i := b] = part @ [b]" using buf True wf by (simp add: ctx_wf_def)
    have "hash_blocks (part @ [b]) H = compress (part @ [b]) H" for H by (rule hash_blocks_one [OF l])
    then have h: "hash_blocks (full @ part @ [b]) sha_init_hash = compress (part @ [b]) (hash_blocks full sha_init_hash)"
      using m(2) by (simp add: hash_blocks_append)
    have d: "64 dvd length (full @ part @ [b])" using m(2) l by (simp only: length_append dvd_add dvd_refl)
    let ?c = "SHA1_transform W0 (ctx\<lparr>ctx_buf := (ctx_buf ctx)[i := b]\<rparr>)"
    have "ctx_state ?c = hash_blocks (full @ part @ [b]) sha_init_hash" "ctx_wf ?c"
      using wf assms(1) l by (simp_all add: SHA1_transform_compress ctx_wf_def all m(4) h)
    then have "absorbed (m @ [b]) ?c"
      unfolding absorbed_def m(1) using d by (intro conjI exI [of _ "full @ part @ [b]"] exI [of _ "[]"]) simp_all
    with True show ?thesis by (simp only: Let_def if_True refl)
  qed
qed

lemma absorb_bytes:
  assumes "length W0 = 80" "absorbed m ctx" "i = length m mod 64"
  shows "absorbed (m @ p) (byte_loop W0 ctx i p)"
  using assms(2,3)
proof (induction p arbitrary: m ctx i)
  case (Cons b p)
  have "Suc i mod 64 = length (m @ [b]) mod 64" using Cons.prems(2) by (simp add: mod_Suc_eq)
  moreover have "Suc i \<le> 64" using Cons.prems(2) mod_less_divisor [of 64 "length m"] by simp
  ultimately show ?case
    using Cons.IH [of "m @ [b]"] absorb_byte [OF assms(1) Cons.prems, of b]
    by (cases "Suc i = 64") (simp_all add: Let_def)
qed simp

text \<open>With the count of the bytes.\<close>

definition sha_inv :: "u8 list \<Rightarrow> SHA_CTX \<Rightarrow> bool" where
  "sha_inv m ctx \<longleftrightarrow> absorbed m ctx \<and> ctx_count ctx = of_nat (length m)"

lemma unat_of_nat_mod_64: "unat (of_nat n :: u64) mod 64 = n mod 64"
  by (simp add: unat_of_nat take_bit_eq_mod mod_mod_cancel)

lemma SHA_update_inv: "length W0 = 80 \<Longrightarrow> sha_inv m ctx \<Longrightarrow> sha_inv (m @ p) (SHA_update W0 ctx p)"
  by (auto simp: sha_inv_def SHA_update_def Let_def absorbed_count unat_mod unat_of_nat_mod_64 intro!: absorb_bytes)

lemma SHA_updates_inv:
  "length W0 = 80 \<Longrightarrow> sha_inv m ctx \<Longrightarrow> sha_inv (m @ concat ps) (fold (\<lambda>p ctx. SHA_update W0 ctx p) ps ctx)"
proof (induction ps arbitrary: m ctx)
  case (Cons p ps)
  from Cons.IH [OF Cons.prems(1) SHA_update_inv [OF Cons.prems, of p]] show ?case by simp
qed simp

lemma SHA_init_inv: "ctx_wf ctx \<Longrightarrow> sha_inv [] (SHA_init ctx)"
  by (auto simp: sha_inv_def absorbed_def SHA_init_def sha_init_hash_def ctx_wf_def hash_blocks_short)

lemma pad_loop_inv:
  assumes "length W0 = 80" "sha_inv m ctx"
  shows "sha_inv (m @ replicate (pad_left (ctx_count ctx)) 0) (pad_loop W0 ctx)"
  using assms
proof (induction W0 ctx arbitrary: m rule: pad_loop.induct)
  case (1 W0 ctx)
  show ?case
  proof (cases "ctx_count ctx mod 64 = 56")
    case True
    with 1 show ?thesis by (subst pad_loop.simps) (simp add: pad_left_0)
  next
    case False
    then obtain k where k: "pad_left (ctx_count ctx) = Suc k" by (metis not0_implies_Suc pad_left_0)
    have "sha_inv (m @ [0] @ replicate (pad_left (ctx_count ctx + 1)) 0) (pad_loop W0 (SHA_update W0 ctx [0]))"
      using "1.IH" [OF False "1.prems"(1) SHA_update_inv [OF "1.prems", of "[0]"]] by simp
    with False k pad_left_Suc [of "ctx_count ctx"] show ?thesis by (subst pad_loop.simps) simp
  qed
qed

lemma pad_arith:
  assumes "y < (64 :: nat)" "x = (if y = 63 then 0 else Suc y)"
  shows "(if x \<le> 56 then 56 - x else 120 - x) = (119 - y) mod 64"
proof (cases "y \<le> 55")
  case True
  then have "119 - y = (55 - y) + 64" by simp
  then have "(119 - y) mod 64 = (55 - y) mod 64" by (simp only: mod_add_self2)
  also have "\<dots> = 55 - y" by (rule mod_less) simp
  finally show ?thesis using True assms(2) by simp
next
  case False
  then have "(119 - y) mod 64 = 119 - y" by (intro mod_less) simp
  with False assms show ?thesis by auto
qed

lemma pad_length: "pad_left (of_nat (Suc n)) = (119 - n mod 64) mod 64"
proof -
  have "Suc n mod 64 = (if n mod 64 = 63 then 0 else Suc (n mod 64))" by (simp add: mod_Suc)
  from pad_arith [OF _ this] show ?thesis
    unfolding pad_left_def unat_of_nat_mod_64 Let_def by simp
qed

lemma put_word_length [simp]: "length (put_word w i b) = length b"
  by (simp add: put_word_def)

lemma put_word_take:
  assumes "4 * i + 3 < length b"
  shows "take (4 * Suc i) (put_word w i b) = take (4 * i) b @ word_bytes w"
proof -
  have "take (4 * Suc i) (put_word w i b) = take (4 * i) (put_word w i b) @ map (\<lambda>k. put_word w i b ! (4 * i + k)) [0..<4]"
    using assms by (intro nth_equalityI) (auto simp: nth_append)
  moreover have "[0..<4] = [0, 1, 2, 3 :: nat]" by (simp add: upt_rec)
  ultimately show ?thesis using assms by (simp add: put_word_def word_bytes_def)
qed

lemma put_words_length [simp]: "length (fold (\<lambda>i b. put_word (st ! i) i b) is b) = length b"
  by (induction "is" arbitrary: b) simp_all

lemma put_words_take:
  "n \<le> length st \<Longrightarrow> 4 * n \<le> length b \<Longrightarrow>
   take (4 * n) (fold (\<lambda>i b. put_word (st ! i) i b) [0..<n] b) = concat (map word_bytes (take n st))"
proof (induction n)
  case (Suc n)
  then show ?case using put_word_take [of n "fold (\<lambda>i b. put_word (st ! i) i b) [0..<n] b" "st ! n"]
    by (simp add: take_Suc_conv_app_nth)
qed simp

lemma digest_bytes:
  assumes "length b = 64" "length st = 5"
  shows "take 20 (fold (\<lambda>i b. put_word (st ! i) i b) [0..<5] b) = concat (map word_bytes st)"
  using put_words_take [of 5 st b] assms by simp

lemma pad_total:
  assumes "y < (64 :: nat)"
  shows "(y + (9 + (119 - y) mod 64)) mod 64 = 0"
proof (cases "y \<le> 55")
  case True
  then have "119 - y = (55 - y) + 64" by simp
  then have "(119 - y) mod 64 = (55 - y) mod 64" by (simp only: mod_add_self2)
  also have "\<dots> = 55 - y" by (rule mod_less) simp
  finally show ?thesis using True by simp
next
  case False
  then have "(119 - y) mod 64 = 119 - y" by (intro mod_less) simp
  with False assms have "y + (9 + (119 - y) mod 64) = 128" by simp
  then show ?thesis by simp
qed

lemma padded_message_blocks: "64 dvd length (padded_message m)"
proof -
  have "length (padded_message m) = length m + (9 + (119 - length m mod 64) mod 64)"
    by (simp add: padded_message_def count_bytes_def)
  then have "length (padded_message m) mod 64 = (length m mod 64 + (9 + (119 - length m mod 64) mod 64)) mod 64"
    by (simp only: mod_add_left_eq)
  then show ?thesis unfolding dvd_eq_mod_eq_0 by (simp only: pad_total mod_less_divisor zero_less_numeral)
qed

lemma SHA_final_sha1:
  assumes "length W0 = 80" "sha_inv m ctx"
  shows "take 20 (ctx_buf (SHA_final W0 ctx)) = sha1 m"
proof -
  define c1 where "c1 = SHA_update W0 ctx [0x80]"
  define c2 where "c2 = pad_loop W0 c1"
  define c3 where "c3 = fold (\<lambda>tmp ctx. SHA_update W0 ctx [tmp]) (count_bytes (ctx_count ctx * 8)) c2"
  have count: "ctx_count ctx = of_nat (length m)" using assms(2) by (simp add: sha_inv_def)
  have i1: "sha_inv (m @ [0x80]) c1" unfolding c1_def by (rule SHA_update_inv [OF assms])
  have "ctx_count c1 = of_nat (Suc (length m))" using i1 by (simp add: sha_inv_def)
  then have "sha_inv ((m @ [0x80]) @ replicate ((119 - length m mod 64) mod 64) 0) c2"
    using pad_loop_inv [OF assms(1) i1] unfolding c2_def by (simp only: pad_length)
  from SHA_updates_inv [OF assms(1) this, of "map (\<lambda>b. [b]) (count_bytes (ctx_count ctx * 8))"]
  have i3: "sha_inv (padded_message m) c3"
    by (simp add: c3_def padded_message_def count fold_map comp_def mult.commute)
  have st: "ctx_state c3 = hash_blocks (padded_message m) sha_init_hash" and wf: "ctx_wf c3"
    using absorbed_blocks [OF _ padded_message_blocks] i3 by (auto simp: sha_inv_def absorbed_def)
  have "SHA_final W0 ctx = c3\<lparr>ctx_buf := fold (\<lambda>i b. put_word (ctx_state c3 ! i) i b) [0..<5] (ctx_buf c3)\<rparr>"
    unfolding SHA_final_def Let_def c3_def c2_def c1_def by (rule refl)
  then show ?thesis using digest_bytes [of "ctx_buf c3" "ctx_state c3"] wf by (simp add: ctx_wf_def sha1_def st)
qed

lemma copy_digest: "length d = n \<Longrightarrow> n \<le> length b \<Longrightarrow> fold (\<lambda>i d. d[i := b ! i]) [0..<n] d = take n b"
  by (simp add: fold_update [of n d "(!) b"] list_eq_iff_nth_eq)

text \<open>C16: SHA-1.  A context that is initialised, given any pieces of data and finished holds the SHA-1 digest of the
  concatenated pieces in the first twenty bytes of its buffer, whatever the local variables held before; the
  convenience functions of both versions return the digest of their data.\<close>

theorem sha_computes_sha1:
  assumes "length W0 = 80" "length (ctx_state ctx) = 5" "length (ctx_buf ctx) = 64" "length digest = SHA_DIGEST_SIZE"
  shows "take SHA_DIGEST_SIZE (ctx_buf (SHA_final W0 (fold (\<lambda>p ctx. SHA_update W0 ctx p) pieces (SHA_init ctx)))) = sha1 (concat pieces) \<and>
    SHA W0 ctx data digest = sha1 data \<and> SHA_le W0 ctx data digest = sha1 data"
proof -
  have inv: "sha_inv [] (SHA_init ctx)" and wf: "ctx_wf (SHA_init ctx)"
    using SHA_init_inv [of ctx] assms(2,3) by (simp_all add: ctx_wf_def SHA_init_def)
  have upd: "sha_inv data (SHA_update W0 (SHA_init ctx) data)" using SHA_update_inv [OF assms(1) inv, of data] by simp
  have len: "20 \<le> length (ctx_buf (SHA_final W0 c))" if "ctx_wf c" for c
    using pad_loops_agree(2) [OF assms(1) SHA_update_wf [OF assms(1) that]] count_loop_wf [OF assms(1)]
    by (simp add: SHA_final_def Let_def ctx_wf_def)
  have "SHA W0 ctx data digest = sha1 data"
    using SHA_final_sha1 [OF assms(1) upd] copy_digest [of digest 20] assms(4) len [OF SHA_update_wf [OF assms(1) wf]]
    by (simp add: SHA_def SHA_DIGEST_SIZE_def)
  moreover have "SHA_le W0 ctx data digest = SHA W0 ctx data digest" by (rule SHA_le_eq [OF assms(1-3)])
  ultimately show ?thesis
    using SHA_final_sha1 [OF assms(1) SHA_updates_inv [OF assms(1) inv, of pieces]] by (simp add: SHA_DIGEST_SIZE_def)
qed

theorem sha_computes_sha1_witness:
  "SHA_le (replicate 80 0) w_ctx [97, 98, 99] (replicate 20 0) = sha1 [97, 98, 99]"
  using sha_computes_sha1 [of "replicate 80 0" w_ctx "replicate 20 0" "[]" "[97, 98, 99]"]
  by (simp add: w_ctx_def SHA_DIGEST_SIZE_def)

end
