(* ===== verification/Rsa_Facts.thy ===== *)
theory Rsa_Facts
  imports Rsa Sha_Facts
begin

text \<open>
  Multi-precision arithmetic of \<^verbatim>\<open>rsa.c\<close>: subtraction, comparison, Montgomery multiplication, the third power modulo
  the key, and the meaning of an accepted signature.
\<close>

section \<open>The value of an array of words\<close>

fun val :: "u32 list \<Rightarrow> int" where
  "val [] = 0"
| "val (w # ws) = uint w + 2 ^ 32 * val ws"

lemma uint_bounds: "0 \<le> uint (w :: u32)" "uint (w :: u32) < 2 ^ 32"
  using uint_lt2p [of w] by simp_all

lemma val_append: "val (xs @ ys) = val xs + 2 ^ (32 * length xs) * val ys"
  by (induction xs) (simp_all add: algebra_simps power_add)

lemma val_snoc: "i < length xs \<Longrightarrow> val (take (Suc i) xs) = val (take i xs) + 2 ^ (32 * i) * uint (xs ! i)"
  by (simp add: take_Suc_conv_app_nth val_append)

lemma val_nonneg: "0 \<le> val xs"
  by (induction xs) (simp_all add: uint_bounds)

lemma val_bound: "val xs < 2 ^ (32 * length xs)"
proof (induction xs)
  case (Cons w ws)
  have "uint w + 2 ^ 32 * val ws < 2 ^ 32 + 2 ^ 32 * val ws" using uint_bounds(2) [of w] by simp
  also have "\<dots> = 2 ^ 32 * (val ws + 1)" by (simp add: algebra_simps)
  also have "\<dots> \<le> 2 ^ 32 * 2 ^ (32 * length ws)" using Cons by (intro mult_left_mono) simp_all
  finally show ?case by (simp add: power_add)
qed simp

lemma val_update_beyond: "val (take i (xs[i := w])) = val (take i xs)"
  by simp

section \<open>Word arithmetic\<close>

lemma uint_ucast_up: "uint (ucast (w :: u32) :: u64) = uint w"
  by (simp add: uint_up_ucast is_up)

lemma uint_ucast_down: "uint (ucast (w :: u64) :: u32) = uint w mod 2 ^ 32"
  by (simp add: unsigned_ucast_eq take_bit_eq_mod)

lemma uint_drop_32: "uint (drop_bit 32 (w :: u64)) = uint w div 2 ^ 32"
proof -
  have "take_bit 64 (uint w) = uint w" by (rule take_bit_int_eq_self) (use uint_lt2p [of w] in simp_all)
  then have "drop_bit 32 (take_bit 64 (uint w)) = uint w div 2 ^ 32" by (simp only: drop_bit_eq_div)
  then show ?thesis by (subst unsigned_drop_bit_eq) simp
qed

lemma uint_plus_small: "uint (x :: u64) + uint y < 2 ^ 64 \<Longrightarrow> uint (x + y) = uint x + uint y"
  by (simp add: uint_word_ariths)

lemma uint_mult_small: "uint (x :: u64) * uint y < 2 ^ 64 \<Longrightarrow> uint (x * y) = uint x * uint y"
  by (simp add: uint_word_ariths)

lemma power_word_Suc: "2 ^ (32 * Suc i) = (2 ^ 32 * 2 ^ (32 * i) :: int)"
  by (simp add: power_add)

lemma collect_word: "v + p * r + 2 ^ 32 * p * q = v + p * (r + 2 ^ 32 * q :: int)"
  by (simp add: algebra_simps)

section \<open>Subtraction and comparison\<close>

abbreviation (input) N_of :: "RSAPublicKey \<Rightarrow> int" where "N_of key \<equiv> val (key_n key)"

text \<open>A key whose arrays have the length it claims.\<close>

definition key_wf :: "RSAPublicKey \<Rightarrow> bool" where
  "key_wf key \<longleftrightarrow> key_len key > 0 \<and> length (key_n key) = nat (key_len key)"

text \<open>A difference of two words and a borrow, as a signed 64-bit number.\<close>

lemma borrow_step:
  assumes "sint A = 0 \<or> sint A = -1" "x = sint A + uint (a :: u32) - uint (n :: u32)" "A' = A + (ucast a - ucast n :: u64)"
  shows "uint (ucast A' :: u32) = x mod 2 ^ 32" "sint (signed_drop_bit 32 A') = x div 2 ^ 32" "x div 2 ^ 32 = 0 \<or> x div 2 ^ 32 = -1"
proof -
  have A': "A' = word_of_int x"
    using assms(2,3) by (simp add: word_of_int_minus wi_hom_add [symmetric] wi_hom_sub [symmetric] flip: unsigned_ucast_eq)
  have "-1 \<le> sint A" "sint A \<le> 0" using assms(1) by auto
  then have x: "- (2 ^ 32) \<le> x" "x < 2 ^ 32" using assms(2) uint_bounds [of a] uint_bounds [of n] by linarith+
  show "x div 2 ^ 32 = 0 \<or> x div 2 ^ 32 = -1"
  proof (cases "x < 0")
    case True
    then have "(x + 2 ^ 32) div 2 ^ 32 = 0" using x(1) by (intro div_pos_pos_trivial) simp_all
    moreover have "(x + 2 ^ 32) div 2 ^ 32 = x div 2 ^ 32 + 1" by (rule div_add_self2) simp
    ultimately show ?thesis by linarith
  qed (use x in \<open>simp add: div_pos_pos_trivial\<close>)
  show "uint (ucast A' :: u32) = x mod 2 ^ 32"
    unfolding A' uint_ucast_down by (simp add: uint_word_of_int mod_mod_cancel)
  have "sint A' = x" unfolding A' using x by (simp add: signed_of_int signed_take_bit_int_eq_self)
  then show "sint (signed_drop_bit 32 A') = x div 2 ^ 32" by (simp add: sint_signed_drop_bit_eq drop_bit_eq_div)
qed

text \<open>The invariant of the loop: the words below \<open>i\<close> are subtracted, with a borrow; the others are untouched.\<close>

lemma subM_loop:
  assumes "length a = nat (key_len key)" "key_wf key" "i \<le> nat (key_len key)"
    "fold (subM_step key) [0..<i] (0, a) = (A, a')"
  shows "length a' = length a \<and> (sint A = 0 \<or> sint A = -1) \<and> (\<forall>j. i \<le> j \<longrightarrow> a' ! j = a ! j) \<and>
    val (take i a') + 2 ^ (32 * i) * sint A = val (take i a) - val (take i (key_n key))"
  using assms(3,4)
proof (induction i arbitrary: A a')
  case (Suc i)
  obtain B b where b: "fold (subM_step key) [0..<i] (0, a) = (B, b)" by (metis surj_pair)
  have i: "i < length a" "i < length (key_n key)" using Suc.prems(1) assms(1,2) by (simp_all add: key_wf_def)
  note IH = Suc.IH [OF _ b]
  define x where "x = sint B + uint (b ! i) - uint (key_n key ! i)"
  define C where "C = B + (ucast (b ! i) - ucast (key_n key ! i) :: u64)"
  have IH': "length b = length a" "sint B = 0 \<or> sint B = -1" "\<And>j. i \<le> j \<Longrightarrow> b ! j = a ! j"
    "val (take i b) + 2 ^ (32 * i) * sint B = val (take i a) - val (take i (key_n key))"
    using IH Suc.prems(1) by auto
  note st = borrow_step [OF IH'(2) x_def C_def]
  have Aa: "A = signed_drop_bit 32 C" "a' = b[i := ucast C]"
    using Suc.prems(2) by (auto simp: b C_def) (auto simp: subM_step_def Let_def)
  have len: "i < length a'" using i IH'(1) Aa by simp
  have vt: "val (take (Suc i) a') = val (take i b) + 2 ^ (32 * i) * (x mod 2 ^ 32)"
    using val_snoc [OF len] st(1) i(1) IH'(1) by (simp only: Aa nth_list_update_eq take_update_cancel order_refl)
  have "val (take (Suc i) a') + 2 ^ (32 * Suc i) * sint A = val (take i b) + 2 ^ (32 * i) * (x mod 2 ^ 32 + 2 ^ 32 * (x div 2 ^ 32))"
    unfolding vt Aa(1) st(2) power_word_Suc by (rule collect_word)
  also have "\<dots> = val (take i b) + 2 ^ (32 * i) * sint B + 2 ^ (32 * i) * (uint (b ! i) - uint (key_n key ! i))"
    by (simp add: x_def algebra_simps)
  also have "\<dots> = val (take (Suc i) a) - val (take (Suc i) (key_n key))"
    using IH'(3,4) by (simp add: val_snoc i algebra_simps)
  finally show ?case using st(2,3) IH'(1,3) by (auto simp: Aa)
qed simp

lemma subM_val:
  assumes "length a = nat (key_len key)" "key_wf key" "N_of key \<le> val a + 2 ^ (32 * length a) * k" "val a + 2 ^ (32 * length a) * k - N_of key < 2 ^ (32 * length a)"
  shows "length (subM key a) = length a" "val (subM key a) = val a + 2 ^ (32 * length a) * k - N_of key"
proof -
  let ?R = "2 ^ (32 * length a) :: int"
  obtain A a' where f: "fold (subM_step key) [0..<nat (key_len key)] (0, a) = (A, a')" by (metis surj_pair)
  note l = subM_loop [OF assms(1,2) order_refl f]
  have s: "subM key a = a'" using f by (simp add: subM_def)
  from l show len: "length (subM key a) = length a" by (simp add: s)
  have "take (nat (key_len key)) a' = a'" "take (nat (key_len key)) a = a" "take (nat (key_len key)) (key_n key) = key_n key"
    using l assms(1,2) by (auto simp: key_wf_def)
  with l assms(1) have v: "val a' = val a - N_of key - ?R * sint A" by (metis add_diff_cancel_right')
  have "0 \<le> val a'" "val a' < ?R" using val_nonneg val_bound [of a'] l by auto
  then have "val a' = (val a - N_of key) mod ?R"
    using v by (metis mod_pos_pos_trivial mod_mult_self2 diff_add_cancel minus_mult_right mult_minus_right uminus_add_conv_diff add.commute)
  also have "\<dots> = (val a + ?R * k - N_of key) mod ?R"
    by (metis add_diff_eq diff_add_eq mod_mult_self2)
  also have "\<dots> = val a + ?R * k - N_of key" using assms(3,4) by (intro mod_pos_pos_trivial) simp_all
  finally show "val (subM key a) = val a + ?R * k - N_of key" by (simp add: s)
qed

lemma geM_loop_val:
  "i \<le> length a \<Longrightarrow> i \<le> length (key_n key) \<Longrightarrow> geM_loop key a i \<longleftrightarrow> val (take i a) \<ge> val (take i (key_n key))"
proof (induction i)
  case (Suc i)
  let ?x = "val (take i a)" and ?y = "val (take i (key_n key))" and ?P = "2 ^ (32 * i) :: int"
  have lt: "?x < ?P" "?y < ?P" using val_bound [of "take i a"] val_bound [of "take i (key_n key)"] Suc.prems by simp_all
  have nn: "0 \<le> ?x" "0 \<le> ?y" by (simp_all add: val_nonneg)
  have order: "?y + ?P * v < ?x + ?P * u" if "v < u" for u v :: int
  proof -
    have "?P * (v + 1) \<le> ?P * u" using that by (intro mult_left_mono) simp_all
    then show ?thesis using lt nn by (simp add: algebra_simps)
  qed
  have order': "?x + ?P * u < ?y + ?P * v" if "u < v" for u v :: int
  proof -
    have "?P * (u + 1) \<le> ?P * v" using that by (intro mult_left_mono) simp_all
    then show ?thesis using lt nn by (simp add: algebra_simps)
  qed
  show ?case
    using Suc order [of "uint (key_n key ! i)" "uint (a ! i)"] order' [of "uint (a ! i)" "uint (key_n key ! i)"]
    by (auto simp: val_snoc word_less_def not_less word_le_def)
qed simp

lemma geM_val: "length a = nat (key_len key) \<Longrightarrow> key_wf key \<Longrightarrow> geM key a \<longleftrightarrow> val a \<ge> N_of key"
  by (simp add: geM_def geM_loop_val key_wf_def)

section \<open>Montgomery multiplication\<close>

lemma uint_mul_add:
  assumes "uint (x :: u64) < 2 ^ 32"
  shows "uint (x + ucast (a :: u32) * ucast (b :: u32) + ucast (c :: u32)) = uint x + uint a * uint b + uint c"
proof -
  have "uint a * uint b \<le> (2 ^ 32 - 1) * (2 ^ 32 - 1)"
    using uint_bounds [of a] uint_bounds [of b] by (intro mult_mono) simp_all
  then have le: "uint x + uint a * uint b + uint c < 2 ^ 64" using assms uint_bounds [of c] by simp
  have nn: "0 \<le> uint a * uint b" "0 \<le> uint x" "0 \<le> uint c" by simp_all
  have le1: "uint a * uint b < 2 ^ 64" and le2: "uint x + uint a * uint b < 2 ^ 64" using le nn by linarith+
  have m: "uint (ucast a * ucast b :: u64) = uint a * uint b"
    using uint_mult_small [of "ucast a" "ucast b"] le1 by (simp add: uint_ucast_up)
  have p: "uint (x + ucast a * ucast b) = uint x + uint a * uint b"
    using uint_plus_small [of x "ucast a * ucast b"] le2 by (simp add: m)
  show ?thesis using uint_plus_small [of "x + ucast a * ucast b" "ucast c"] le by (simp add: uint_ucast_up p)
qed

lemma uint_drop_small: "uint (drop_bit 32 (w :: u64)) < 2 ^ 32"
proof -
  have "x div 4294967296 < 4294967296" if "x < 18446744073709551616" for x :: int using that by presburger
  then show ?thesis using uint_lt2p [of w] unfolding uint_drop_32 by simp
qed

text \<open>The invariant of the loop of \<open>montMulAdd\<close>.  The words of \<open>c + a * b + d0 * N\<close> below \<open>i\<close> are added up; the lowest is zero
  and dropped, so that the others stand one place lower; the carries are the upper halves of \<open>A\<close> and \<open>B\<close>.\<close>

definition mont_inv ::
  "RSAPublicKey \<Rightarrow> u32 list \<Rightarrow> u32 \<Rightarrow> u32 list \<Rightarrow> u32 \<Rightarrow> nat \<Rightarrow> u64 \<times> u64 \<times> u32 list \<Rightarrow> bool" where
  "mont_inv key c0 a b d0 i = (\<lambda>(A, B, c).
     length c = length c0 \<and> (\<forall>j. i \<le> j + 1 \<longrightarrow> c ! j = c0 ! j) \<and>
     2 ^ 32 * val (take (i - 1) c) + 2 ^ (32 * i) * (uint A div 2 ^ 32 + uint B div 2 ^ 32) =
       val (take i c0) + uint a * val (take i b) + uint d0 * val (take i (key_n key)))"

lemma mont_inv_step:
  assumes inv: "mont_inv key c0 a b d0 i (A, B, c)" and i: "0 < i" "i < length c0" "i < length b" "i < length (key_n key)"
  shows "mont_inv key c0 a b d0 (Suc i) (mont_step key a b d0 i (A, B, c))"
proof -
  define A' where "A' = drop_bit 32 A + ucast a * ucast (b ! i) + ucast (c ! i)"
  define B' where "B' = drop_bit 32 B + ucast d0 * ucast (key_n key ! i) + ucast (ucast A' :: u32)"
  have step: "mont_step key a b d0 i (A, B, c) = (A', B', c[i - 1 := ucast B'])"
    by (simp add: mont_step_def A'_def B'_def Let_def)
  have c: "length c = length c0" "\<And>j. i \<le> j + 1 \<Longrightarrow> c ! j = c0 ! j" and
    eq: "2 ^ 32 * val (take (i - 1) c) + 2 ^ (32 * i) * (uint A div 2 ^ 32 + uint B div 2 ^ 32) =
       val (take i c0) + uint a * val (take i b) + uint d0 * val (take i (key_n key))"
    using inv by (auto simp: mont_inv_def)
  have uA: "uint A' = uint A div 2 ^ 32 + uint a * uint (b ! i) + uint (c0 ! i)"
    unfolding A'_def uint_mul_add [OF uint_drop_small] uint_drop_32 using c(2) [of i] by simp
  have uB: "uint B' = uint B div 2 ^ 32 + uint d0 * uint (key_n key ! i) + uint A' mod 2 ^ 32"
    unfolding B'_def uint_mul_add [OF uint_drop_small] uint_drop_32 uint_ucast_down by simp
  obtain k where k: "i = Suc k" using i(1) by (cases i) auto
  let ?p = "2 ^ (32 * i) :: int"
  have kl: "k < length (c[i - 1 := ucast B'])" using i(2) c(1) k by simp
  have low: "2 ^ 32 * val (take i (c[i - 1 := ucast B'])) = 2 ^ 32 * val (take (i - 1) c) + ?p * (uint B' mod 2 ^ 32)"
    using val_snoc [OF kl] i(2) c(1) by (simp add: k uint_ucast_down power_add algebra_simps)
  have "2 ^ 32 * val (take i (c[i - 1 := ucast B'])) + 2 ^ (32 * Suc i) * (uint A' div 2 ^ 32 + uint B' div 2 ^ 32) =
      2 ^ 32 * val (take (i - 1) c) + ?p * (uint B' mod 2 ^ 32 + 2 ^ 32 * (uint B' div 2 ^ 32) + 2 ^ 32 * (uint A' div 2 ^ 32))"
    unfolding low power_word_Suc by (simp only: algebra_simps)
  also have "uint B' mod 2 ^ 32 + 2 ^ 32 * (uint B' div 2 ^ 32) = uint B'" by simp
  also have "uint B' + 2 ^ 32 * (uint A' div 2 ^ 32) = uint B div 2 ^ 32 + uint d0 * uint (key_n key ! i) + uint A'"
    unfolding uB by (simp only: add.assoc mod_mult_div_eq)
  also have "2 ^ 32 * val (take (i - 1) c) + ?p * (uint B div 2 ^ 32 + uint d0 * uint (key_n key ! i) + uint A') =
      val (take (Suc i) c0) + uint a * val (take (Suc i) b) + uint d0 * val (take (Suc i) (key_n key))"
    using eq unfolding uA val_snoc [OF i(2)] val_snoc [OF i(3)] val_snoc [OF i(4)] by (simp only: algebra_simps)
  finally have "2 ^ 32 * val (take (Suc i - 1) (c[i - 1 := ucast B'])) + 2 ^ (32 * Suc i) * (uint A' div 2 ^ 32 + uint B' div 2 ^ 32) =
      val (take (Suc i) c0) + uint a * val (take (Suc i) b) + uint d0 * val (take (Suc i) (key_n key))" by simp
  moreover have "c[i - 1 := ucast B'] ! j = c0 ! j" if "Suc i \<le> j + 1" for j using c(2) [of j] that i(1) by simp
  ultimately show ?thesis using c(1) unfolding step mont_inv_def prod.case by (intro conjI allI impI) simp_all
qed

text \<open>A key for Montgomery multiplication: \<^verbatim>\<open>n0inv\<close> is \<^verbatim>\<open>-1 / n[0] mod 2^32\<close>.\<close>

definition mont_key :: "RSAPublicKey \<Rightarrow> bool" where
  "mont_key key \<longleftrightarrow> key_wf key \<and> n0inv key * key_n key ! 0 = -1"

lemma mont_low_word:
  assumes "mont_key key" "d0 = ucast A * n0inv key" "B = (ucast d0 * ucast (key_n key ! 0) + ucast (ucast A :: u32) :: u64)"
  shows "uint B = uint d0 * uint (key_n key ! 0) + uint (A :: u64) mod 2 ^ 32" "uint B mod 2 ^ 32 = 0"
proof -
  show u: "uint B = uint d0 * uint (key_n key ! 0) + uint A mod 2 ^ 32"
    using uint_mul_add [of 0 d0 "key_n key ! 0" "ucast A"] unfolding assms(3) by (simp add: uint_ucast_down)
  have "d0 * key_n key ! 0 + ucast A = ucast A * (n0inv key * key_n key ! 0) + ucast A" by (simp add: assms(2) mult.assoc)
  also have "\<dots> = 0" using assms(1) by (simp add: mont_key_def)
  finally have "uint (d0 * key_n key ! 0 + ucast A) = 0" by simp
  then have "(uint d0 * uint (key_n key ! 0) + uint A) mod 2 ^ 32 = 0"
    by (simp add: uint_word_ariths uint_ucast_down mod_simps)
  then show "uint B mod 2 ^ 32 = 0" unfolding u by (simp add: mod_simps)
qed

lemma mont_inv_first:
  assumes "mont_key key" "A = ucast a * ucast (b ! 0) + ucast (c ! 0)" "d0 = ucast A * n0inv key"
    "B = ucast d0 * ucast (key_n key ! 0) + ucast (ucast A :: u32)" "b \<noteq> []" "c \<noteq> []"
  shows "mont_inv key c a b d0 1 (A, B, c)"
proof -
  have n: "key_n key \<noteq> []" using assms(1) by (auto simp: mont_key_def key_wf_def)
  have uA: "uint A = uint a * uint (b ! 0) + uint (c ! 0)"
    using uint_mul_add [of 0 a "b ! 0" "c ! 0"] unfolding assms(2) by simp
  note uB = mont_low_word [OF assms(1,3,4)]
  have "2 ^ 32 * (uint A div 2 ^ 32 + uint B div 2 ^ 32) = (uint A - uint A mod 2 ^ 32) + (uint B - uint B mod 2 ^ 32)"
    by (simp only: distrib_left minus_mod_eq_mult_div)
  also have "\<dots> = uint (c ! 0) + uint a * uint (b ! 0) + uint d0 * uint (key_n key ! 0)"
    unfolding uB(2) unfolding uB(1) uA by simp
  finally have "2 ^ 32 * (uint A div 2 ^ 32 + uint B div 2 ^ 32) = uint (c ! 0) + uint a * uint (b ! 0) + uint d0 * uint (key_n key ! 0)" .
  moreover have "val (take 1 xs) = uint (xs ! 0)" if "xs \<noteq> []" for xs using that by (cases xs) simp_all
  ultimately show ?thesis using assms(5,6) n unfolding mont_inv_def by simp
qed

lemma mont_inv_loop:
  assumes "mont_inv key c0 a b d0 1 s" "1 \<le> n" "n \<le> length c0" "n \<le> length b" "n \<le> length (key_n key)"
  shows "mont_inv key c0 a b d0 n (fold (mont_step key a b d0) [1..<n] s)"
  using assms(2-5)
proof (induction n rule: dec_induct)
  case base
  then show ?case using assms(1) by simp
next
  case (step n)
  obtain A B c where "fold (mont_step key a b d0) [1..<n] s = (A, B, c)" by (metis surj_pair)
  with step show ?case using mont_inv_step [of key c0 a b d0 n A B c] by simp
qed

text \<open>The top word of the sum, and its carry.\<close>

lemma mont_last:
  assumes "0 < length c'" "c1 = c'[length c' - 1 := ucast (S :: u64)]"
  shows "2 ^ 32 * (val c1 + 2 ^ (32 * length c') * (uint S div 2 ^ 32)) =
    2 ^ 32 * val (take (length c' - 1) c') + 2 ^ (32 * length c') * uint S"
proof -
  obtain k where k: "length c' = Suc k" using assms(1) by (cases "length c'") auto
  have "val c1 = val (take k c') + 2 ^ (32 * k) * (uint S mod 2 ^ 32)"
    using val_snoc [of k c1] k by (simp add: assms(2) uint_ucast_down)
  then have "2 ^ 32 * (val c1 + 2 ^ (32 * length c') * (uint S div 2 ^ 32)) =
      2 ^ 32 * val (take k c') + 2 ^ (32 * length c') * (uint S mod 2 ^ 32 + 2 ^ 32 * (uint S div 2 ^ 32))"
    unfolding k power_word_Suc by (simp only: algebra_simps)
  then show ?thesis by (simp add: k)
qed

lemma mont_bound:
  fixes T c b N R a d :: int
  assumes "2 ^ 32 * T = c + uint (u :: u32) * b + uint (v :: u32) * N" "c < R" "b < R" "0 \<le> b" "0 \<le> N" "0 < R"
  shows "T - N < R"
proof -
  have "uint u * b \<le> (2 ^ 32 - 1) * (R - 1)" using uint_bounds [of u] assms by (intro mult_mono) simp_all
  moreover have "uint v * N \<le> (2 ^ 32 - 1) * N" using uint_bounds [of v] assms(5) by (intro mult_right_mono) simp_all
  ultimately have "2 ^ 32 * T \<le> (R - 1) + (2 ^ 32 - 1) * (R - 1) + (2 ^ 32 - 1) * N" using assms(1,2) by linarith
  also have "\<dots> < 2 ^ 32 * (R + N)" using assms(5,6) by (simp add: algebra_simps)
  finally show ?thesis by simp
qed

text \<open>One step: the result times \<open>2 ^ 32\<close> is \<open>c + a * b\<close> up to a multiple of the modulus.\<close>

lemma montMulAdd_val:
  assumes key: "mont_key key" and len: "length c = nat (key_len key)" "length b = nat (key_len key)"
  shows "length (montMulAdd key c a b) = length c \<and> (\<exists>k. 2 ^ 32 * val (montMulAdd key c a b) = val c + uint a * val b + k * N_of key)"
proof -
  define n where "n = nat (key_len key)"
  define A0 where "A0 = (ucast a * ucast (b ! 0) + ucast (c ! 0) :: u64)"
  define d0 where "d0 = ucast A0 * n0inv key"
  define B0 where "B0 = (ucast d0 * ucast (key_n key ! 0) + ucast (ucast A0 :: u32) :: u64)"
  obtain A B c' where f: "fold (mont_step key a b d0) [1..<n] (A0, B0, c) = (A, B, c')" by (metis surj_pair)
  have n: "0 < n" "length (key_n key) = n" "length c = n" "length b = n"
    using key len by (simp_all add: mont_key_def key_wf_def n_def)
  have "mont_inv key c a b d0 1 (A0, B0, c)"
    by (rule mont_inv_first [OF key A0_def d0_def B0_def]) (use n in auto)
  from mont_inv_loop [OF this, of n, unfolded f] have c': "length c' = n" and
    eq: "2 ^ 32 * val (take (n - 1) c') + 2 ^ (32 * n) * (uint A div 2 ^ 32 + uint B div 2 ^ 32) = val c + uint a * val b + uint d0 * N_of key"
    using n by (simp_all add: mont_inv_def)
  define S where "S = drop_bit 32 A + drop_bit 32 B"
  define c1 where "c1 = c'[n - 1 := ucast S]"
  have res: "montMulAdd key c a b = (if drop_bit 32 S \<noteq> 0 then subM key c1 else c1)"
    unfolding montMulAdd_def Let_def n_def [symmetric] A0_def [symmetric] d0_def [symmetric] B0_def [symmetric] f prod.case
      S_def [symmetric] c1_def [symmetric] by (rule refl)
  have "uint (drop_bit 32 A) + uint (drop_bit 32 B) < 2 ^ 64" using uint_drop_small [of A] uint_drop_small [of B] by simp
  then have uS: "uint S = uint A div 2 ^ 32 + uint B div 2 ^ 32" unfolding S_def by (simp only: uint_plus_small uint_drop_32)
  have len1: "length c1 = n" by (simp add: c1_def c')
  have T: "2 ^ 32 * (val c1 + 2 ^ (32 * n) * (uint S div 2 ^ 32)) = val c + uint a * val b + uint d0 * N_of key"
    using mont_last [of c' c1 S] c1_def c' n(1) eq uS by simp
  have bound: "val c1 + 2 ^ (32 * n) * (uint S div 2 ^ 32) - N_of key < 2 ^ (32 * n)"
    using mont_bound [OF T, of "2 ^ (32 * n)"] val_bound [of c] val_bound [of b] val_nonneg [of b] val_nonneg [of "key_n key"] n by simp
  show ?thesis
  proof (cases "drop_bit 32 S = 0")
    case True
    then have "uint S div 2 ^ 32 = 0" using uint_drop_32 [of S] by simp
    with T True res len1 n show ?thesis by (intro conjI exI [of _ "uint d0"]) simp_all
  next
    case False
    then have "uint S div 2 ^ 32 \<noteq> 0" using uint_drop_32 [of S] by (metis unsigned_eq_0_iff)
    moreover have "0 \<le> uint S div 2 ^ 32" by (simp add: pos_imp_zdiv_nonneg_iff)
    ultimately have "2 ^ (32 * n) * 1 \<le> 2 ^ (32 * n) * (uint S div 2 ^ 32)" by (intro mult_left_mono) simp_all
    then have ge: "N_of key \<le> val c1 + 2 ^ (32 * n) * (uint S div 2 ^ 32)"
      using val_bound [of "key_n key", unfolded n(2)] val_nonneg [of c1] by linarith
    have wf: "key_wf key" using key by (simp add: mont_key_def)
    have l: "length c1 = nat (key_len key)" by (simp add: len1 n_def)
    note sub = subM_val [OF l wf, of "uint S div 2 ^ 32", unfolded len1, OF ge bound]
    have "2 ^ 32 * val (subM key c1) = val c + uint a * val b + (uint d0 - 2 ^ 32) * N_of key"
      unfolding sub(2) using T by (simp add: algebra_simps)
    then show ?thesis using False res sub(1) n(3) len1 by auto
  qed
qed

lemma val_zero [simp]: "val (replicate n 0) = 0"
  by (induction n) simp_all

text \<open>The product: the result times \<open>R\<close> is \<open>a * b\<close> up to a multiple of the modulus.\<close>

lemma montMul_val:
  assumes key: "mont_key key" and len: "length c = nat (key_len key)" "length a = nat (key_len key)" "length b = nat (key_len key)"
  shows "length (montMul key c a b) = nat (key_len key)"
    "\<exists>k. 2 ^ (32 * nat (key_len key)) * val (montMul key c a b) = val a * val b + k * N_of key"
proof -
  define n where "n = nat (key_len key)"
  let ?c = "\<lambda>i. fold (\<lambda>i c. montMulAdd key c (a ! i) b) [0..<i] (replicate n 0)"
  have "length (?c i) = n \<and> (\<exists>k. 2 ^ (32 * i) * val (?c i) = val (take i a) * val b + k * N_of key)" if "i \<le> n" for i
    using that
  proof (induction i)
    case (Suc i)
    then obtain k where k: "length (?c i) = n" "2 ^ (32 * i) * val (?c i) = val (take i a) * val b + k * N_of key" by auto
    obtain l where l: "length (?c (Suc i)) = n" "2 ^ 32 * val (?c (Suc i)) = val (?c i) + uint (a ! i) * val b + l * N_of key"
      using montMulAdd_val [OF key, of "?c i" b "a ! i"] k(1) len by (auto simp: n_def)
    have i: "i < length a" using Suc.prems len by (simp add: n_def)
    have "2 ^ (32 * Suc i) * val (?c (Suc i)) = 2 ^ (32 * i) * (2 ^ 32 * val (?c (Suc i)))"
      unfolding power_word_Suc by (simp only: ac_simps)
    also have "\<dots> = 2 ^ (32 * i) * val (?c i) + 2 ^ (32 * i) * uint (a ! i) * val b + 2 ^ (32 * i) * l * N_of key"
      unfolding l(2) by (simp only: algebra_simps)
    also have "\<dots> = val (take (Suc i) a) * val b + (k + 2 ^ (32 * i) * l) * N_of key"
      unfolding k(2) val_snoc [OF i] by (simp only: algebra_simps)
    finally show ?case using l(1) by blast
  qed simp
  from this [OF order_refl] have "length (?c n) = n" "\<exists>k. 2 ^ (32 * n) * val (?c n) = val a * val b + k * N_of key"
    using len by (simp_all add: n_def)
  moreover have "montMul key c a b = ?c n"
    using fold_update [of n c "\<lambda>_. 0"] len by (simp add: montMul_def n_def Let_def map_replicate_const)
  ultimately show "length (montMul key c a b) = nat (key_len key)"
    "\<exists>k. 2 ^ (32 * nat (key_len key)) * val (montMul key c a b) = val a * val b + k * N_of key"
    by (simp_all add: n_def)
qed

section \<open>The third power\<close>

lemma mont_key_odd: "mont_key key \<Longrightarrow> odd (N_of key)"
proof -
  assume k: "mont_key key"
  then have "odd (uint (key_n key ! 0))"
  proof -
    have "uint (n0inv key * key_n key ! 0) = uint (-1 :: u32)" using k by (simp add: mont_key_def)
    then have "(uint (n0inv key) * uint (key_n key ! 0)) mod 2 ^ 32 = 2 ^ 32 - 1" by (simp add: uint_word_ariths)
    then have "odd ((uint (n0inv key) * uint (key_n key ! 0)) mod 2 ^ 32)" by simp
    then show ?thesis by (simp add: even_mod_4_div_2 dvd_mod_iff)
  qed
  moreover have "key_n key \<noteq> []" using k by (auto simp: mont_key_def key_wf_def)
  ultimately show ?thesis by (cases "key_n key") simp_all
qed

lemma cancel_R:
  assumes "odd (N :: int)" "N dvd 2 ^ m * x - 2 ^ m * y"
  shows "N dvd x - y"
proof -
  have "coprime N (2 ^ m)" using assms(1) by (simp add: coprime_commute)
  moreover have "N dvd 2 ^ m * (x - y)" using assms(2) by (simp add: right_diff_distrib)
  ultimately show ?thesis by (simp add: coprime_dvd_mult_right_iff)
qed

lemma modpow3_congruence:
  assumes key: "mont_key key" and n: "n = nat (key_len key)"
    and len: "length a = n" "length (key_rr key) = n" "length c1 = n" "length c2 = n" "length c3 = n"
    and rr: "N_of key dvd val (key_rr key) - (2 ^ (32 * n)) ^ 2"
  defines "aR \<equiv> montMul key c1 a (key_rr key)"
  defines "aaR \<equiv> montMul key c2 aR aR"
  shows "N_of key dvd val (montMul key c3 aaR a) - val a ^ 3" "length (montMul key c3 aaR a) = n" "length aR = n"
proof -
  let ?N = "N_of key" and ?R = "2 ^ (32 * n) :: int"
  have odd: "odd ?N" by (rule mont_key_odd [OF key])
  have aR: "length aR = n" "\<exists>k. ?R * val aR = val a * val (key_rr key) + k * ?N"
    unfolding aR_def n using montMul_val [OF key] len n by simp_all
  then have aaR: "length aaR = n" "\<exists>k. ?R * val aaR = val aR * val aR + k * ?N"
    unfolding aaR_def n using montMul_val [OF key] len n by simp_all
  have aaa: "\<exists>k. ?R * val (montMul key c3 aaR a) = val aaR * val a + k * ?N"
    unfolding n using montMul_val [OF key] len n aaR(1) by simp
  show "length (montMul key c3 aaR a) = n" using montMul_val(1) [OF key] len n aaR(1) by simp
  show "length aR = n" by (rule aR(1))
  obtain r where r: "val (key_rr key) = ?R ^ 2 + ?N * r" using rr by (metis dvdE diff_add_cancel add.commute)
  obtain k where k: "?R * val aR = val a * val (key_rr key) + k * ?N" using aR(2) by blast
  have "?R * val aR - ?R * (?R * val a) = ?N * (k + val a * r)"
    unfolding k r by (simp add: algebra_simps power2_eq_square)
  then have "?N dvd ?R * val aR - ?R * (?R * val a)" by simp
  then have 1: "?N dvd val aR - ?R * val a" by (rule cancel_R [OF odd])
  then obtain s where s: "val aR = ?R * val a + ?N * s" by (metis dvdE diff_add_cancel add.commute)
  have "?N dvd ?R * val aaR - ?R * (?R * val a ^ 2)"
    using aaR(2) s by (elim exE) (simp add: algebra_simps power2_eq_square)
  then have "?N dvd val aaR - ?R * val a ^ 2" by (rule cancel_R [OF odd])
  then obtain t where t: "val aaR = ?R * val a ^ 2 + ?N * t" by (metis dvdE diff_add_cancel add.commute)
  have "?N dvd ?R * val (montMul key c3 aaR a) - ?R * val a ^ 3"
    using aaa t by (elim exE) (simp add: algebra_simps power3_eq_cube power2_eq_square)
  then show "?N dvd val (montMul key c3 aaR a) - val a ^ 3" by (rule cancel_R [OF odd])
qed

text \<open>The value of a string of bytes, most significant byte first.\<close>

definition be_val :: "u8 list \<Rightarrow> int" where
  "be_val bs = foldl (\<lambda>v b. v * 256 + uint b) 0 bs"

lemma be_val_snoc [simp]: "be_val (bs @ [b]) = be_val bs * 256 + uint b" "be_val [] = 0"
  by (simp_all add: be_val_def)

lemma split_bytes:
  assumes "0 \<le> x" "x < 2 ^ 32"
  shows "(((x div 2 ^ 24) mod 256 * 256 + (x div 2 ^ 16) mod 256) * 256 + (x div 2 ^ 8) mod 256) * 256 + x mod 256 = (x :: int)"
proof -
  define q1 q2 q3 where "q1 = x div 256" and "q2 = q1 div 256" and "q3 = q2 div 256"
  have p: "(2 :: int) ^ 8 = 256" "(2 :: int) ^ 16 = 256 * 256" "(2 :: int) ^ 24 = 256 * 256 * 256" by simp_all
  have d: "x div 2 ^ 8 = q1" "x div 2 ^ 16 = q2" "x div 2 ^ 24 = q3"
    unfolding p q3_def q2_def q1_def by (rule refl, rule zdiv_zmult2_eq, simp, subst zdiv_zmult2_eq, simp, subst zdiv_zmult2_eq, simp, rule refl)
  have "q3 < 256" unfolding d(3) [symmetric] using assms(2) by (simp add: div_less_iff_less_mult)
  moreover have "0 \<le> q3" unfolding d(3) [symmetric] using assms(1) by (simp add: pos_imp_zdiv_nonneg_iff)
  ultimately have q3: "q3 mod 256 = q3" by simp
  show ?thesis
    unfolding d q3 unfolding q3_def div_mult_mod_eq unfolding q2_def div_mult_mod_eq unfolding q1_def div_mult_mod_eq by (rule refl)
qed

lemma uint_byte: "uint (ucast (drop_bit k w :: u32) :: u8) = (uint w div 2 ^ k) mod 256" if "k < 32"
proof -
  have "uint (drop_bit k w) = uint w div 2 ^ k"
  proof -
    have "take_bit 32 (uint w) = uint w" by (rule take_bit_int_eq_self) (use uint_lt2p [of w] in simp_all)
    then have "drop_bit k (take_bit 32 (uint w)) = uint w div 2 ^ k" by (simp only: drop_bit_eq_div)
    then show ?thesis by (subst unsigned_drop_bit_eq) simp
  qed
  then show ?thesis by (simp add: unsigned_ucast_eq take_bit_eq_mod)
qed

lemma be_val_word: "foldl (\<lambda>v b. v * 256 + uint b) v (word_bytes w) = v * 2 ^ 32 + uint w"
proof -
  have "uint (ucast w :: u8) = uint w mod 256" using uint_byte [of 0 w] by simp
  then have "foldl (\<lambda>v b. v * 256 + uint b) v (word_bytes w) = v * 2 ^ 32 +
      ((((uint w div 2 ^ 24) mod 256 * 256 + (uint w div 2 ^ 16) mod 256) * 256 + (uint w div 2 ^ 8) mod 256) * 256 + uint w mod 256)"
    by (simp add: word_bytes_def uint_byte del: drop_bit_eq_div)
  then show ?thesis by (simp only: split_bytes [OF uint_bounds])
qed

lemma be_val_words: "be_val (concat (map word_bytes (rev ws))) = val ws"
proof -
  have "foldl (\<lambda>v b. v * 256 + uint b) v (concat (map word_bytes (rev ws))) = v * 2 ^ (32 * length ws) + val ws" for v
  proof (induction ws)
    case (Cons w ws)
    then have "foldl (\<lambda>v b. v * 256 + uint b) v (concat (map word_bytes (rev (w # ws)))) =
        foldl (\<lambda>v b. v * 256 + uint b) (v * 2 ^ (32 * length ws) + val ws) (word_bytes w)" by simp
    also have "\<dots> = (v * 2 ^ (32 * length ws) + val ws) * 2 ^ 32 + uint w" by (rule be_val_word)
    finally show ?case by (simp add: power_add algebra_simps)
  qed simp
  from this [of 0] show ?thesis by (simp add: be_val_def)
qed

definition word_at :: "u8 list \<Rightarrow> nat \<Rightarrow> u32" where
  "word_at bs j = be_word (bs ! (j * 4)) (bs ! (j * 4 + 1)) (bs ! (j * 4 + 2)) (bs ! (j * 4 + 3))"

lemma take_four: "i + 3 < length bs \<Longrightarrow> take (i + 4) bs = take i bs @ [bs ! i, bs ! (i + 1), bs ! (i + 2), bs ! (i + 3)]"
proof -
  assume i: "i + 3 < length bs"
  have "drop i bs = bs ! i # bs ! (i + 1) # bs ! (i + 2) # bs ! (i + 3) # drop (i + 4) bs"
    using i Cons_nth_drop_Suc [of i bs] Cons_nth_drop_Suc [of "i + 1" bs] Cons_nth_drop_Suc [of "i + 2" bs] Cons_nth_drop_Suc [of "i + 3" bs]
    by (simp add: eval_nat_numeral)
  then show ?thesis by (simp add: take_add)
qed

lemma bytes_of_words: "4 * n \<le> length bs \<Longrightarrow> concat (map word_bytes (map (word_at bs) [0..<n])) = take (4 * n) bs"
proof (induction n)
  case (Suc n)
  then show ?case using take_four [of "n * 4" bs]
    by (simp add: word_at_def word_bytes_def be_word_bytes mult.commute add.commute)
qed simp

lemma load_words_val:
  assumes "length a = n" "4 * n \<le> length bs"
  shows "length (load_words n bs a) = n" "val (load_words n bs a) = be_val (take (4 * n) bs)"
proof -
  have "load_words n bs a = map (\<lambda>i. word_at bs (n - 1 - i)) [0..<n]"
    unfolding load_words_def word_at_def using assms(1) by (subst fold_update) simp_all
  also have "\<dots> = rev (map (word_at bs) [0..<n])" by (rule nth_equalityI) (simp_all add: rev_nth)
  finally have l: "load_words n bs a = rev (map (word_at bs) [0..<n])" .
  show "length (load_words n bs a) = n" by (simp add: l)
  show "val (load_words n bs a) = be_val (take (4 * n) bs)"
    unfolding l bytes_of_words [OF assms(2), symmetric] by (subst be_val_words [symmetric]) simp
qed

lemma store_words_val:
  assumes "length aaa = n" "4 * n = length bs"
  shows "store_words n aaa bs = concat (map word_bytes (rev aaa))" "length (store_words n aaa bs) = length bs"
    "be_val (store_words n aaa bs) = val aaa"
proof -
  have "store_words n aaa bs = fold (\<lambda>j b. put_word (rev aaa ! j) j b) [0..<n] bs"
  proof -
    have "rev [0..<n] = map (\<lambda>j. n - 1 - j) [0..<n]" by (rule nth_equalityI) (simp_all add: rev_nth)
    then have "store_words n aaa bs = fold (\<lambda>j. put_word (aaa ! (n - 1 - j)) (n - 1 - (n - 1 - j))) [0..<n] bs"
      unfolding store_words_def by (simp only: fold_map comp_def)
    also have "\<dots> = fold (\<lambda>j b. put_word (rev aaa ! j) j b) [0..<n] bs"
      using assms(1) by (intro fold_cong) (simp_all add: rev_nth)
    finally show ?thesis .
  qed
  moreover from this have len: "length (store_words n aaa bs) = length bs" by simp
  ultimately show eq: "store_words n aaa bs = concat (map word_bytes (rev aaa))"
    using put_words_take [of n "rev aaa" bs] assms by simp
  show "length (store_words n aaa bs) = length bs" by (rule len)
  show "be_val (store_words n aaa bs) = val aaa" unfolding eq by (rule be_val_words)
qed

text \<open>What \<^verbatim>\<open>modpow3\<close> needs of a key: the two constants, and a modulus that uses all bits of its words.\<close>

definition rsa_key :: "RSAPublicKey \<Rightarrow> bool" where
  "rsa_key key \<longleftrightarrow> mont_key key \<and> length (key_rr key) = nat (key_len key) \<and>
     N_of key dvd val (key_rr key) - (2 ^ (32 * nat (key_len key))) ^ 2 \<and> 2 ^ (32 * nat (key_len key)) \<le> 2 * N_of key"

lemma modpow3_val:
  assumes key: "rsa_key key" and n: "n = nat (key_len key)"
    and len: "length a = n" "length aR = n" "length aaR = n" "length inout = 4 * n"
  shows "be_val (modpow3 a aR aaR key inout) = be_val inout ^ 3 mod N_of key" "length (modpow3 a aR aaR key inout) = 4 * n"
proof -
  have k: "mont_key key" "key_wf key" "length (key_rr key) = n" "N_of key dvd val (key_rr key) - (2 ^ (32 * n)) ^ 2" "2 ^ (32 * n) \<le> 2 * N_of key"
    using key n by (simp_all add: rsa_key_def mont_key_def)
  define x where "x = load_words n inout a"
  have x: "length x = n" "val x = be_val inout" unfolding x_def using load_words_val [of a n inout] len by simp_all
  let ?aR = "montMul key aR x (key_rr key)"
  define z where "z = montMul key ?aR (montMul key aaR ?aR ?aR) x"
  have lR: "length ?aR = n" using montMul_val(1) [OF k(1)] len x k(3) n by simp
  have z: "N_of key dvd val z - be_val inout ^ 3" "length z = n"
    using modpow3_congruence [OF k(1) n x(1) k(3) len(2) len(3) lR k(4)] by (simp_all add: z_def x(2))
  define w where "w = (if geM key z then subM key z else z)"
  have zb: "0 \<le> val z" "val z < 2 ^ (32 * n)" using val_nonneg val_bound [of z] z(2) by auto
  have w: "length w = n \<and> val w = val z mod N_of key"
  proof (cases "val z \<ge> N_of key")
    case True
    then have g: "geM key z" using geM_val [of z key] k(2) z(2) n by simp
    have "length (subM key z) = n \<and> val (subM key z) = val z - N_of key"
      using subM_val [of z key 0] k(2) z(2) n True zb k(5) val_nonneg [of "key_n key"] by auto
    moreover have "val z mod N_of key = val z - N_of key"
      using True zb k(5) by (metis diff_ge_0_iff_ge minus_mod_self2 mod_pos_pos_trivial less_le_trans diff_less_eq mult_2)
    ultimately show ?thesis using g by (simp add: w_def)
  next
    case False
    then have "\<not> geM key z" using geM_val [of z key] k(2) z(2) n by simp
    then show ?thesis using False zb z(2) by (simp add: w_def)
  qed
  have m: "modpow3 a aR aaR key inout = store_words n w inout"
    unfolding modpow3_def Let_def n [symmetric] x_def [symmetric] z_def [symmetric] w_def [symmetric] by (rule refl)
  have "val z mod N_of key = be_val inout ^ 3 mod N_of key" using z(1) by (simp add: mod_eq_dvd_iff)
  then show "be_val (modpow3 a aR aaR key inout) = be_val inout ^ 3 mod N_of key" "length (modpow3 a aR aaR key inout) = 4 * n"
    using store_words_val [of w n inout] w len(4) by (simp_all add: m)
qed

section \<open>Signatures\<close>

lemma rsa_keyI:
  assumes "key_len key = 64" "length (key_n key) = 64" "length (key_rr key) = 64" "n0inv key * key_n key ! 0 = -1"
    and "N_of key dvd val (key_rr key) - (2 ^ 2048) ^ 2" "2 ^ 2047 \<le> N_of key"
  shows "rsa_key key"
proof -
  have e: "32 * nat (key_len key) = 2048" using assms(1) by simp
  have "(2 :: int) ^ 2048 = 2 * 2 ^ 2047" using power_Suc [of "2 :: int" 2047] by (simp only: Suc_numeral semiring_norm)
  also have "\<dots> \<le> 2 * N_of key" by (rule mult_left_mono [OF assms(6)]) simp
  finally show ?thesis
    unfolding rsa_key_def mont_key_def key_wf_def e using assms(1-5) by (intro conjI) (assumption | simp only: assms)+
qed

lemma be_val_bounds: "0 \<le> be_val bs" "be_val bs < 256 ^ length bs"
proof -
  have "0 \<le> be_val bs \<and> be_val bs < 256 ^ length bs"
  proof (induction bs rule: rev_induct)
    case (snoc b bs)
    then have "be_val bs * 256 + 256 \<le> 256 ^ length bs * 256" by simp
    moreover have "uint b < 256" "0 \<le> uint b" using uint_lt2p [of b] by simp_all
    ultimately show ?case using snoc by simp
  qed simp
  then show "0 \<le> be_val bs" "be_val bs < 256 ^ length bs" by simp_all
qed

lemma base_256_eq:
  assumes "0 \<le> x" "x < 256" "0 \<le> y" "y < (256 :: int)"
  shows "p * 256 + x = q * 256 + y \<longleftrightarrow> p = q \<and> x = y"
proof
  assume e: "p * 256 + x = q * 256 + y"
  then have "(p * 256 + x) mod 256 = (q * 256 + y) mod 256" by (simp only:)
  then have "x = y" using assms by simp
  with e show "p = q \<and> x = y" by simp
qed simp

lemma be_val_inject: "length xs = length ys \<Longrightarrow> be_val xs = be_val ys \<longleftrightarrow> xs = ys"
proof (induction xs arbitrary: ys rule: rev_induct)
  case (snoc x xs)
  from snoc.prems obtain y zs where ys: "ys = zs @ [y]" "length zs = length xs" by (cases ys rule: rev_cases) auto
  have b: "uint x < 256" "0 \<le> uint x" "uint y < 256" "0 \<le> uint y" using uint_lt2p [of x] uint_lt2p [of y] by simp_all
  have "be_val xs * 256 + uint x = be_val zs * 256 + uint y \<longleftrightarrow> be_val xs = be_val zs \<and> uint x = uint y"
    by (rule base_256_eq) (use b in simp_all)
  with snoc.IH [of zs] ys show ?case using word_uint_eq_iff [of x y] by auto
qed simp

lemma compare_loop_iff: "length xs = length ys \<Longrightarrow> compare_loop xs ys \<longleftrightarrow> xs = ys"
  by (induction xs ys rule: compare_loop.induct) auto

lemma padding_length: "length RSA_padding = 236"
  by (simp add: RSA_padding_def)

lemma RSA_verify_iff:
  assumes "key_len key = 64 \<Longrightarrow> rsa_key key"
    and "length a = 64" "length aR = 64" "length aaR = 64" "length buf = 256" "length signature = nat len" "length sha = 20"
  shows "RSA_verify a aR aaR buf key signature len sha =
    (if key_len key = 64 \<and> len = 256 \<and> be_val signature ^ 3 mod val (key_n key) = be_val (RSA_padding @ sha) then 1 else 0)"
proof (cases "key_len key = 64 \<and> len = 256")
  case False
  then show ?thesis by (auto simp: RSA_verify_def RSANUMWORDS_def RSANUMBYTES_def)
next
  case True
  then have key: "rsa_key key" using assms(1) by simp
  have cp: "fold (\<lambda>i buf. buf[i := signature ! i]) [0..<256] buf = signature"
    using copy_digest [of buf 256 signature] assms(5,6) True by simp
  let ?r = "modpow3 a aR aaR key signature"
  have r: "be_val ?r = be_val signature ^ 3 mod val (key_n key)" "length ?r = 256"
    using modpow3_val [OF key, of 64 a aR aaR signature] True assms(2-6) by simp_all
  have "compare_loop (take 236 ?r) RSA_padding \<and> compare_loop (drop 236 ?r) sha \<longleftrightarrow> ?r = RSA_padding @ sha"
    using r(2) assms(7) padding_length by (simp add: compare_loop_iff) (metis append_eq_conv_conj append_take_drop_id)
  also have "\<dots> \<longleftrightarrow> be_val ?r = be_val (RSA_padding @ sha)"
    using r(2) assms(7) padding_length by (simp add: be_val_inject)
  finally show ?thesis
    using True r(1) cp by (auto simp: RSA_verify_def RSANUMWORDS_def RSANUMBYTES_def padding_length Let_def)
qed

text \<open>C13: Signatures.  For a key with a modulus \<open>N\<close> of 2048 bits and the two constants that belong to it, and whatever the
  uninitialised local arrays hold, \<^verbatim>\<open>RSA_verify\<close> accepts a signature of 256 bytes exactly if its third power modulo \<open>N\<close> is the
  padded hash, read as a number.  A key or a signature of another length is rejected.\<close>

theorem RSA_verify_accepts:
  assumes "length (key_n key) = 64" "length (key_rr key) = 64" "n0inv key * key_n key ! 0 = -1"
    and "val (key_n key) dvd val (key_rr key) - (2 ^ 2048) ^ 2" "2 ^ 2047 \<le> val (key_n key)"
    and "length a = 64" "length aR = 64" "length aaR = 64" "length buf = 256" "length signature = nat len" "length sha = 20"
  shows "RSA_verify a aR aaR buf key signature len sha =
    (if key_len key = 64 \<and> len = 256 \<and> be_val signature ^ 3 mod val (key_n key) = be_val (RSA_padding @ sha) then 1 else 0)"
  by (rule RSA_verify_iff [OF rsa_keyI]) (assumption | rule assms)+

section \<open>The constants of a key\<close>


lemma bitLength_bounds: "n < 2 ^ bitLength n \<and> (0 < n \<longrightarrow> 2 ^ bitLength n \<le> 2 * n)"
proof (induction n rule: bitLength.induct)
  case (1 n)
  show ?case
  proof (cases "n = 0")
    case False
    then have b: "bitLength n = Suc (bitLength (n div 2))" by (subst bitLength.simps) simp
    have IH: "n div 2 < 2 ^ bitLength (n div 2)" "0 < n div 2 \<longrightarrow> 2 ^ bitLength (n div 2) \<le> 2 * (n div 2)" using 1 False by auto
    have "n < 2 * 2 ^ bitLength (n div 2)" using IH(1) by linarith
    moreover have "2 * 2 ^ bitLength (n div 2) \<le> 2 * n"
    proof (cases "n div 2 = 0")
      case True
      then show ?thesis using False by (simp add: bitLength.simps)
    next
      case False
      then have "2 ^ bitLength (n div 2) \<le> 2 * (n div 2)" using IH(2) by simp
      also have "\<dots> \<le> n" by simp
      finally show ?thesis by simp
    qed
    ultimately show ?thesis by (simp add: b)
  qed (simp add: bitLength.simps)
qed

lemma bitLength_eq:
  assumes "2 ^ k \<le> n" "n < 2 ^ Suc k"
  shows "bitLength n = Suc k"
proof -
  have "0 < n" using assms(1) by (metis less_le_trans zero_less_numeral zero_less_power)
  then have b: "n < 2 ^ bitLength n" "2 ^ bitLength n \<le> 2 * n" using bitLength_bounds [of n] by auto
  have "(2 :: nat) ^ k < 2 ^ bitLength n" using assms(1) b(1) by (rule le_less_trans)
  moreover have "(2 :: nat) ^ bitLength n < 2 ^ Suc (Suc k)" using b(2) assms(2) by simp
  ultimately show ?thesis by (simp add: power_strict_increasing_iff del: power_Suc)
qed

lemma dump_words_length [simp]: "length (dump_words k N) = k"
  by (induction k arbitrary: N) simp_all

lemma dump_words_val: "val (dump_words k N) = int (N mod 2 ^ (32 * k))"
proof (induction k arbitrary: N)
  case (Suc k)
  have "uint (of_nat (N mod 2 ^ 32) :: u32) = int (N mod 2 ^ 32)"
    by (simp add: unsigned_of_nat take_bit_nat_eq_self zmod_int)
  then have "val (dump_words (Suc k) N) = int (N mod 2 ^ 32 + 2 ^ 32 * (N div 2 ^ 32 mod 2 ^ (32 * k)))" using Suc by simp
  also have "N mod 2 ^ 32 + 2 ^ 32 * (N div 2 ^ 32 mod 2 ^ (32 * k)) = N mod (2 ^ 32 * 2 ^ (32 * k))"
    by (simp only: mod_mult2_eq add.commute)
  finally show ?case by (simp add: power_add)
qed simp

lemma modInverse_SomeD:
  assumes "modInverse x m = Some y" "1 < m"
  shows "(y * x) mod m = 1" "y < m"
proof -
  have g: "gcd x m = 1" and y: "y = nat (fst (bezw x m) mod int m)" using assms(1) by (auto simp: modInverse_def split: if_splits)
  have iy: "int y = fst (bezw x m) mod int m" using y assms(2) by simp
  then show "y < m" using assms(2) by (metis of_nat_less_iff pos_mod_bound of_nat_0_less_iff less_trans zero_less_one)
  have "int (y * x) mod int m = (fst (bezw x m) * int x) mod int m" by (simp add: iy mod_mult_left_eq)
  also have "fst (bezw x m) * int x = 1 - snd (bezw x m) * int m" using bezw_aux [of x m] g by simp
  also have "\<dots> mod int m = 1" using assms(2) by (simp add: mod_diff_right_eq [symmetric])
  finally have "int (y * x mod m) = int 1" by (simp add: zmod_int)
  then show "(y * x) mod m = 1" by (simp only: of_nat_eq_iff)
qed

lemma dump_key_cases:
  assumes "dump_key e N = Some key"
  obtains x where "e = 3" "bitLength N = 2048" "modInverse N (2 ^ 32) = Some x"
    "key = \<lparr>key_len = int (bitLength N div 32), n0inv = of_nat (2 ^ 32 - x), key_n = dump_words (bitLength N div 32) N,
      key_rr = dump_words (bitLength N div 32) ((2 ^ bitLength N * 2 ^ bitLength N) mod N)\<rparr>"
proof -
  have chk: "check_key e N" using assms unfolding dump_key_def by (metis option.distinct(1))
  obtain x where x: "modInverse N (2 ^ 32) = Some x"
    using assms chk unfolding dump_key_def Let_def by (cases "modInverse N (2 ^ 32)") (simp_all only: option.case if_False not_True_eq_False option.distinct)
  have "key = \<lparr>key_len = int (bitLength N div 32), n0inv = of_nat (2 ^ 32 - x), key_n = dump_words (bitLength N div 32) N,
      key_rr = dump_words (bitLength N div 32) ((2 ^ bitLength N * 2 ^ bitLength N) mod N)\<rparr>"
    using assms chk unfolding dump_key_def Let_def x by (simp only: option.case if_False not_True_eq_False option.inject)
  with chk x that show thesis unfolding check_key_def by blast
qed

lemma mont_constant:
  assumes "modInverse N (2 ^ 32) = Some x"
  shows "of_nat (2 ^ 32 - x) * of_nat (N mod 2 ^ 32) = (-1 :: u32)"
proof -
  have x: "(x * N) mod 2 ^ 32 = 1" "x < 2 ^ 32" using modInverse_SomeD [OF assms] by simp_all
  have "of_nat (2 ^ 32 - x) = (of_nat (2 ^ 32) - of_nat x :: u32)" using x(2) by (intro of_nat_diff) simp
  also have "\<dots> = - of_nat x" by simp
  finally have "of_nat (2 ^ 32 - x) * of_nat (N mod 2 ^ 32) = (- of_nat (x * (N mod 2 ^ 32)) :: u32)" by simp
  moreover have "(of_nat k :: u32) = of_nat (k mod 2 ^ 32)" for k by (simp add: word_of_nat_eq_iff take_bit_eq_mod)
  then have "(of_nat (x * (N mod 2 ^ 32)) :: u32) = of_nat (x * (N mod 2 ^ 32) mod 2 ^ 32)" .
  moreover have "x * (N mod 2 ^ 32) mod 2 ^ 32 = 1" using x(1) by (simp only: mod_mult_right_eq)
  ultimately show ?thesis by (simp only: of_nat_1)
qed

lemma word_count: "(64 :: nat) = Suc 63"
  by simp

lemma dump_key_SomeD:
  assumes "dump_key e N = Some key"
  shows "key_len key = 64" "length (key_n key) = 64" "length (key_rr key) = 64" "val (key_n key) = int N" "rsa_key key"
proof -
  obtain x where c: "bitLength N = 2048" "modInverse N (2 ^ 32) = Some x"
    "key = \<lparr>key_len = int (bitLength N div 32), n0inv = of_nat (2 ^ 32 - x), key_n = dump_words (bitLength N div 32) N,
      key_rr = dump_words (bitLength N div 32) ((2 ^ bitLength N * 2 ^ bitLength N) mod N)\<rparr>"
    using dump_key_cases [OF assms] by blast
  let ?b = "bitLength N" and ?RR = "(2 ^ bitLength N * 2 ^ bitLength N) mod N"
  have w: "bitLength N div 32 = 64" "32 * (bitLength N div 32) = bitLength N" using c(1) by simp_all
  have pos: "0 < N" using c(1) by (cases N) (simp_all add: bitLength.simps)
  then have N: "N < 2 ^ ?b" "2 ^ ?b \<le> 2 * N" using bitLength_bounds [of N] by simp_all
  show len: "key_len key = 64" "length (key_n key) = 64" "length (key_rr key) = 64" by (simp_all add: c(3) w(1))
  show n: "val (key_n key) = int N" using N(1) unfolding c(3) by (simp only: RSAPublicKey.simps dump_words_val w(2) mod_less)
  have "?RR < 2 ^ ?b" using mod_less_divisor [OF pos] N(1) by (rule less_trans)
  then have rr: "val (key_rr key) = int ?RR" unfolding c(3) by (simp only: RSAPublicKey.simps dump_words_val w(2) mod_less)
  have "key_n key ! 0 = of_nat (N mod 2 ^ 32)"
    unfolding c(3) w(1) word_count by (simp only: RSAPublicKey.simps dump_words.simps nth_Cons_0)
  moreover have "n0inv key = of_nat (2 ^ 32 - x)" unfolding c(3) by (simp only: RSAPublicKey.simps)
  ultimately have inv: "n0inv key * key_n key ! 0 = -1" using mont_constant [OF c(2)] by (simp only:)
  have b: "32 * nat (key_len key) = ?b" using len(1) c(1) by simp
  have "int N dvd int (2 ^ ?b * 2 ^ ?b) mod int N - int (2 ^ ?b * 2 ^ ?b)"
    using dvd_minus_mod [of "int N" "int (2 ^ ?b * 2 ^ ?b)"] by (simp only: dvd_diff_commute)
  then have "int N dvd val (key_rr key) - (2 ^ ?b) ^ 2" unfolding rr by (simp only: zmod_int power2_eq_square of_nat_mult of_nat_power of_nat_numeral)
  moreover have "2 ^ ?b \<le> 2 * int N" using N(2) by (simp only: flip: of_nat_le_iff [where 'a = int]) (simp only: of_nat_mult of_nat_power of_nat_numeral)
  ultimately show "rsa_key key"
    unfolding rsa_key_def mont_key_def key_wf_def b n using inv len by (intro conjI) (assumption | simp only: | simp)+
qed

lemma dump_key_None: "dump_key e N = None \<longleftrightarrow> e \<noteq> 3 \<or> even N \<or> bitLength N \<noteq> 2048"
proof -
  have "coprime N (2 ^ 32) = odd N" using coprime_power_right_iff [of N 2 32] coprime_right_2_iff_odd [of N] by simp
  then have inv: "modInverse N (2 ^ 32) = None \<longleftrightarrow> even N"
    unfolding modInverse_def coprime_iff_gcd_eq_1 by (cases "odd N") (simp_all only: if_True if_False option.simps simp_thms)
  have guard: "(if \<not> P then None else case m of None \<Rightarrow> None | Some x \<Rightarrow> Some (f x)) = None \<longleftrightarrow> \<not> P \<or> m = None"
    for P and m :: "nat option" and f :: "nat \<Rightarrow> RSAPublicKey" by (simp split: option.split)
  show ?thesis unfolding dump_key_def Let_def guard inv check_key_def by blast
qed

text \<open>C14: Keys of the tool.  The key that \<^verbatim>\<open>DumpPublicKey\<close> prints for an exponent and a modulus \<open>N\<close>, if it prints one, makes
  \<^verbatim>\<open>RSA_verify\<close> accept exactly the signatures of 256 bytes whose third power modulo \<open>N\<close> is the padded hash.  The tool prints
  a key exactly for the exponent 3 and an odd modulus of 2048 bits.\<close>

theorem dumped_key_verifies:
  assumes "length a = 64" "length aR = 64" "length aaR = 64" "length buf = 256" "length signature = nat len" "length sha = 20"
  shows "case dump_key e N of
      Some key \<Rightarrow> e = 3 \<and> odd N \<and> bitLength N = 2048 \<and> RSA_verify a aR aaR buf key signature len sha =
        (if len = 256 \<and> be_val signature ^ 3 mod int N = be_val (RSA_padding @ sha) then 1 else 0)
    | None \<Rightarrow> e \<noteq> 3 \<or> even N \<or> bitLength N \<noteq> 2048"
proof (cases "dump_key e N")
  case None
  with dump_key_None [of e N] show ?thesis by (simp only: option.case simp_thms)
next
  case (Some key)
  note k = dump_key_SomeD [OF Some]
  have "e = 3" "bitLength N = 2048" using dump_key_cases [OF Some] by blast+
  moreover have "odd N" using mont_key_odd [of key] k(4,5) by (simp add: rsa_key_def)
  moreover note RSA_verify_iff [OF _ assms, of key]
  ultimately show ?thesis using Some k by simp
qed

definition w_modulus :: nat where
  "w_modulus = 2 ^ 2047 + 1"

lemma w_modulus_key: "\<exists>key. dump_key 3 w_modulus = Some key"
proof -
  have "(1 :: nat) < 2 ^ 2047" by (rule one_less_power) simp_all
  then have "(2 :: nat) ^ 2047 + 1 < 2 ^ 2047 + 2 ^ 2047" by (rule add_strict_left_mono)
  then have "w_modulus < 2 ^ Suc 2047" unfolding w_modulus_def power_Suc mult_2 .
  then have "bitLength w_modulus = Suc 2047" unfolding w_modulus_def by (intro bitLength_eq le_add1)
  moreover have "odd w_modulus" unfolding w_modulus_def using even_power [of "2 :: nat" 2047] by simp
  ultimately show ?thesis using dump_key_None [of 3 w_modulus] by (cases "dump_key 3 w_modulus") simp_all
qed

lemma zero_signature: "be_val (replicate n 0) = 0"
proof (induction n)
  case (Suc n)
  have "replicate (Suc n) 0 = replicate n 0 @ [0 :: u8]" by (simp add: replicate_append_same)
  with Suc show ?case by (simp only: be_val_snoc) simp
qed simp

lemma padding_positive: "be_val (RSA_padding @ sha) \<noteq> 0"
proof
  assume z: "be_val (RSA_padding @ sha) = 0"
  have "RSA_padding @ sha = replicate (length (RSA_padding @ sha)) 0"
    by (rule be_val_inject [THEN iffD1]) (simp_all add: z zero_signature)
  then have "(RSA_padding @ sha) ! 1 = 0" by (metis length_append less_add_same_cancel1 nth_replicate padding_length add_gr_0 zero_less_numeral one_less_numeral_iff semiring_norm(76) trans_less_add1)
  then show False by (simp add: RSA_padding_def)
qed

theorem dumped_key_verifies_witness:
  "\<exists>key. dump_key 3 w_modulus = Some key \<and>
     RSA_verify (replicate 64 0) (replicate 64 0) (replicate 64 0) (replicate 256 0) key (replicate 256 0) 256 (replicate 20 0) = 0"
proof -
  obtain key where k: "dump_key 3 w_modulus = Some key" using w_modulus_key by blast
  moreover have "RSA_verify (replicate 64 0) (replicate 64 0) (replicate 64 0) (replicate 256 0) key (replicate 256 0) 256 (replicate 20 0) = 0"
    using dumped_key_verifies [of "replicate 64 0" "replicate 64 0" "replicate 64 0" "replicate 256 0" "replicate 256 0" 256 "replicate 20 0" 3 w_modulus]
      padding_positive [of "replicate 20 0"] by (simp add: k zero_signature)
  ultimately show ?thesis by blast
qed

theorem RSA_verify_accepts_witness:
  "\<exists>key. key_len key = 64 \<and>
     RSA_verify (replicate 64 0) (replicate 64 0) (replicate 64 0) (replicate 256 0) key (replicate 256 0) 256 (replicate 20 0) = 0"
proof -
  obtain key where k: "dump_key 3 w_modulus = Some key" using w_modulus_key by blast
  note d = dump_key_SomeD [OF k]
  have "32 * nat (key_len key) = 2048" using d(1) by simp
  then have rr: "val (key_n key) dvd val (key_rr key) - (2 ^ 2048) ^ 2" and inv: "n0inv key * key_n key ! 0 = -1"
    using d(5) by (simp_all only: rsa_key_def mont_key_def)
  have "val (key_n key) = 2 ^ 2047 + 1" unfolding d(4) w_modulus_def of_nat_add of_nat_power of_nat_numeral of_nat_1 by (rule refl)
  then have top: "2 ^ 2047 \<le> val (key_n key)" by (simp only: le_add_same_cancel1 zero_le_one)
  have "RSA_verify (replicate 64 0) (replicate 64 0) (replicate 64 0) (replicate 256 0) key (replicate 256 0) 256 (replicate 20 0) = 0"
    using RSA_verify_accepts [OF d(2,3) inv rr top, of "replicate 64 0" "replicate 64 0" "replicate 64 0" "replicate 256 0" "replicate 256 0" 256 "replicate 20 0"]
      padding_positive [of "replicate 20 0"] by (simp add: zero_signature)
  with d(1) show ?thesis by blast
qed

end
