(* ===== verification/Jstring.thy ===== *)
theory Jstring
  imports Prelude
begin

text \<open>
  Conversion between UTF-16 and the modified UTF-8 of Java: \<^verbatim>\<open>src/core/libcutils/strdup8to16.c\<close> and
  \<^verbatim>\<open>strdup16to8.c\<close>.  A pointer into a string of bytes is the list of the bytes from it on, with the terminating zero; a
  destination is what has been written so far, with a capacity.  \<open>None\<close> is a read or write outside of the memory;
  \<open>Some None\<close> is a returned null pointer.  \<^verbatim>\<open>size_t\<close> has 32 bits and \<^verbatim>\<open>char\<close> is unsigned, as on ARM.
\<close>

type_synonym char16 = "16 word"

definition UTF16_REPLACEMENT_CHAR :: u32 where "UTF16_REPLACEMENT_CHAR = 0xfffd"
definition UNICODE_UPPER_LIMIT :: u32 where "UNICODE_UPPER_LIMIT = 0x10fffd"
definition SIZE_MAX :: u32 where "SIZE_MAX = -1"

section \<open>From UTF-8\<close>

definition UTF8_SEQ_LENGTH :: "u8 \<Rightarrow> int" where
  "UTF8_SEQ_LENGTH ch = uint (drop_bit (unat (drop_bit 3 ch AND 0x1e)) 0xe5000000 AND 3 :: u32) + 1"

fun strlen8to16_loop :: "u8 list \<Rightarrow> u32 \<Rightarrow> int \<Rightarrow> u32 option" where
  "strlen8to16_loop [] len expected = None"
| "strlen8to16_loop (ic # s) len expected =
     (if ic = 0 then Some len
      else if ic AND 0xc0 = 0x80 then
        let expected = expected - 1 in
        if expected < 0 then strlen8to16_loop s (len + 1) expected else strlen8to16_loop s len expected
      else
        let len = len + 1;
            expected = UTF8_SEQ_LENGTH ic - 1;
            len = (if expected = 3 then len + 1 else len)
        in strlen8to16_loop s len expected)"

definition strlen8to16 :: "u8 list \<Rightarrow> u32 option" where
  "strlen8to16 utf8Str = strlen8to16_loop utf8Str 0 0"

definition leaderMask :: "u8 list" where
  "leaderMask = [0xff, 0x1f, 0x0f, 0x07]"

text \<open>The loop over the bytes after the first; the first argument is the number of bytes that are still expected.\<close>

fun seq_loop :: "nat \<Rightarrow> u32 \<Rightarrow> u8 list \<Rightarrow> (u32 \<times> u8 list) option" where
  "seq_loop 0 ret p = Some (ret, p)"
| "seq_loop (Suc k) ret [] = None"
| "seq_loop (Suc k) ret (b # p) =
     (if b = 0 then Some (UTF16_REPLACEMENT_CHAR, b # p)
      else if b AND 0xc0 \<noteq> 0x80 then Some (UTF16_REPLACEMENT_CHAR, b # p)
      else seq_loop k (push_bit 6 ret OR (0x3f AND ucast b)) p)"

definition getUtf32FromUtf8 :: "u8 list \<Rightarrow> (u32 \<times> u8 list) option" where
  "getUtf32FromUtf8 p =
     (case p of
        [] \<Rightarrow> None
      | b # r \<Rightarrow>
          if b AND 0xc0 = 0x80 then Some (UTF16_REPLACEMENT_CHAR, r)
          else
            let seq_len = nat (UTF8_SEQ_LENGTH b);
                ret = ucast (b AND leaderMask ! (seq_len - 1)) in
            if b = 0 then Some (ret, p) else seq_loop (seq_len - 1) ret r)"

text \<open>\<^verbatim>\<open>*dest++ = c\<close>\<close>

definition emit :: "nat \<Rightarrow> 'a \<Rightarrow> 'a list \<Rightarrow> 'a list option" where
  "emit cap c dest = (if length dest < cap then Some (dest @ [c]) else None)"

text \<open>The body of the loops of \<^verbatim>\<open>strcpy8to16\<close> and \<^verbatim>\<open>strcpylen8to16\<close>.\<close>

definition put_utf16 :: "nat \<Rightarrow> u32 \<Rightarrow> char16 list \<Rightarrow> char16 list option" where
  "put_utf16 cap ret dest =
     (if ret \<le> 0xffff then emit cap (ucast ret) dest
      else if ret \<le> UNICODE_UPPER_LIMIT then
        Option.bind (emit cap (ucast (0xd800 OR drop_bit 10 (ret - 0x10000))) dest)
          (emit cap (ucast (0xdc00 OR ((ret - 0x10000) AND 0x3ff))))
      else emit cap (ucast UTF16_REPLACEMENT_CHAR) dest)"

lemma emit_Some: "emit cap c dest = Some d \<longleftrightarrow> length dest < cap \<and> d = dest @ [c]"
  by (auto simp: emit_def)

lemma put_utf16_grows: "put_utf16 cap ret dest = Some d \<Longrightarrow> length dest < length d \<and> length d \<le> cap"
  by (auto simp: put_utf16_def emit_Some split: if_splits bind_splits)

function strcpy8to16_loop :: "nat \<Rightarrow> char16 list \<Rightarrow> u8 list \<Rightarrow> char16 list option" where
  "strcpy8to16_loop cap dest utf8Str =
     (case utf8Str of
        [] \<Rightarrow> None
      | b # _ \<Rightarrow>
          if b = 0 then Some dest
          else (case getUtf32FromUtf8 utf8Str of
                  None \<Rightarrow> None
                | Some (ret, utf8Str) \<Rightarrow>
                    (case put_utf16 cap ret dest of
                       None \<Rightarrow> None
                     | Some dest \<Rightarrow> strcpy8to16_loop cap dest utf8Str)))"
  by pat_completeness auto
termination
  by (relation "measure (\<lambda>(cap, dest, s). cap - length dest)") (auto dest!: put_utf16_grows)

declare strcpy8to16_loop.simps [simp del]

text \<open>The destination holds \<open>cap\<close> characters; the result is the written string, whose length is \<^verbatim>\<open>*out_len\<close>.\<close>

definition strcpy8to16 :: "nat \<Rightarrow> u8 list \<Rightarrow> char16 list option" where
  "strcpy8to16 cap utf8Str = strcpy8to16_loop cap [] utf8Str"

text \<open>\<open>malloc_ok\<close> says whether \<^verbatim>\<open>malloc\<close> succeeds; its result is not tested, so that a failure is a destination without any
  room, which is also what is returned.\<close>

definition strdup8to16 :: "bool \<Rightarrow> u8 list option \<Rightarrow> char16 list option option" where
  "strdup8to16 malloc_ok s =
     (case s of
        None \<Rightarrow> Some None
      | Some s \<Rightarrow>
          (case strlen8to16 s of
             None \<Rightarrow> None
           | Some len \<Rightarrow>
               if len \<noteq> 0 \<and> SIZE_MAX div len < 2 then Some None
               else if malloc_ok then map_option Some (strcpy8to16 (unat len) s)
               else map_option (\<lambda>_. None) (strcpy8to16 0 s)))"

text \<open>\<^verbatim>\<open>utf8Str < end\<close> compares the bytes that are left with those behind \<^verbatim>\<open>end\<close>.\<close>

function strcpylen8to16_loop :: "nat \<Rightarrow> nat \<Rightarrow> char16 list \<Rightarrow> u8 list \<Rightarrow> char16 list option" where
  "strcpylen8to16_loop cap behind dest utf8Str =
     (if length utf8Str > behind then
        (case getUtf32FromUtf8 utf8Str of
           None \<Rightarrow> None
         | Some (ret, utf8Str) \<Rightarrow>
             (case put_utf16 cap ret dest of
                None \<Rightarrow> None
              | Some dest \<Rightarrow> strcpylen8to16_loop cap behind dest utf8Str))
      else Some dest)"
  by pat_completeness auto
termination
  by (relation "measure (\<lambda>(cap, behind, dest, s). cap - length dest)") (auto dest!: put_utf16_grows)

declare strcpylen8to16_loop.simps [simp del]

definition strcpylen8to16 :: "nat \<Rightarrow> u8 list \<Rightarrow> nat \<Rightarrow> char16 list option" where
  "strcpylen8to16 cap utf8Str len = strcpylen8to16_loop cap (length utf8Str - len) [] utf8Str"

section \<open>To UTF-8\<close>

text \<open>The bytes a character needs.\<close>

definition add_length :: "char16 \<Rightarrow> u32 \<Rightarrow> u32" where
  "add_length c utf8Len =
     (let uic = ucast c :: u32 in
      if uic > 0x07ff then utf8Len + 3
      else if uic > 0x7f \<or> uic = 0 then utf8Len + 2
      else utf8Len + 1)"

fun strnlen_fast :: "char16 list \<Rightarrow> u32 \<Rightarrow> u32" where
  "strnlen_fast [] utf8Len = utf8Len"
| "strnlen_fast (c # s) utf8Len = strnlen_fast s (add_length c utf8Len)"

fun strnlen_paranoid :: "char16 list \<Rightarrow> u32 \<Rightarrow> u32" where
  "strnlen_paranoid [] utf8Len = (if utf8Len = SIZE_MAX then SIZE_MAX - 1 else utf8Len)"
| "strnlen_paranoid (c # s) utf8Cur =
     (let utf8Len = add_length c utf8Cur in
      if utf8Len < utf8Cur then SIZE_MAX - 1 else strnlen_paranoid s utf8Len)"

definition strnlen16to8 :: "char16 list \<Rightarrow> u32" where
  "strnlen16to8 s =
     (if of_nat (length s) < (SIZE_MAX - 1) div 3 then strnlen_fast s 0 else strnlen_paranoid s 0)"

definition put_utf8 :: "nat \<Rightarrow> char16 \<Rightarrow> u8 list \<Rightarrow> u8 list option" where
  "put_utf8 cap c dest =
     (let uic = ucast c :: u32 in
      if uic > 0x07ff then
        Option.bind (emit cap (ucast (drop_bit 12 uic OR 0xe0)) dest) (\<lambda>dest.
        Option.bind (emit cap (ucast ((drop_bit 6 uic AND 0x3f) OR 0x80)) dest) (\<lambda>dest.
        emit cap (ucast ((uic AND 0x3f) OR 0x80)) dest))
      else if uic > 0x7f \<or> uic = 0 then
        Option.bind (emit cap (ucast (drop_bit 6 uic OR 0xc0)) dest) (\<lambda>dest.
        emit cap (ucast ((uic AND 0x3f) OR 0x80)) dest)
      else emit cap (ucast uic) dest)"

text \<open>The \<^verbatim>\<open>break\<close> of the last branch needs a zero that cannot reach it.\<close>

fun strncpy16to8_loop :: "nat \<Rightarrow> char16 list \<Rightarrow> u8 list \<Rightarrow> u8 list option" where
  "strncpy16to8_loop cap [] dest = emit cap 0 dest"
| "strncpy16to8_loop cap (c # s) dest =
     (case put_utf8 cap c dest of None \<Rightarrow> None | Some dest \<Rightarrow> strncpy16to8_loop cap s dest)"

definition strncpy16to8 :: "nat \<Rightarrow> char16 list \<Rightarrow> u8 list option" where
  "strncpy16to8 cap s = strncpy16to8_loop cap s []"

definition strndup16to8 :: "bool \<Rightarrow> char16 list option \<Rightarrow> u8 list option option" where
  "strndup16to8 malloc_ok s =
     (case s of
        None \<Rightarrow> Some None
      | Some s \<Rightarrow>
          let len = strnlen16to8 s in
          if len \<ge> SIZE_MAX - 1 then Some None
          else if \<not> malloc_ok then Some None
          else map_option Some (strncpy16to8 (unat (len + 1)) s))"

end
