(* ===== verification/Jstring_Facts.thy ===== *)
theory Jstring_Facts
  imports Jstring
begin

text \<open>
  Facts on the conversions: the bytes of a character, the length computed before a copy against what the copy writes, and
  the round trip.
\<close>

section \<open>Bytes\<close>

lemma less_8_cases: "n < (8::nat) \<Longrightarrow> n = 0 \<or> n = 1 \<or> n = 2 \<or> n = 3 \<or> n = 4 \<or> n = 5 \<or> n = 6 \<or> n = 7"
  by auto

lemma high_bits: "\<not> bit (b :: 'a::len word) n" if "LENGTH('a) \<le> n"
  using that by (simp add: not_less [symmetric]) (meson bit_imp_le_length not_less)

lemma cont_bits: "(b :: u8) AND 0xc0 = 0x80 \<longleftrightarrow> bit b 7 \<and> \<not> bit b 6"
proof
  assume "b AND 0xc0 = 0x80"
  then have "bit (b AND 0xc0) n = bit (0x80 :: u8) n" for n by simp
  from this [of 7] this [of 6] show "bit b 7 \<and> \<not> bit b 6" by (simp add: bit_and_iff)
next
  assume b: "bit b 7 \<and> \<not> bit b 6"
  show "b AND 0xc0 = 0x80"
  proof (rule bit_word_eqI)
    fix n assume "n < LENGTH(8)"
    then show "bit (b AND 0xc0) n = bit (0x80 :: u8) n"
      unfolding bit_and_iff using less_8_cases [of n] b by auto
  qed
qed

lemma shift_amount: "unat (drop_bit 3 b AND 0x1e :: u8) = 2 * (unat b div 16)"
proof -
  have "drop_bit 3 b AND 0x1e = push_bit 1 (drop_bit 4 b)"
  proof (rule bit_word_eqI)
    fix n assume "n < LENGTH(8)"
    then show "bit (drop_bit 3 b AND 0x1e) n = bit (push_bit 1 (drop_bit 4 b)) n"
      unfolding bit_and_iff bit_drop_bit_eq bit_push_bit_iff using less_8_cases [of n] by (auto simp: high_bits)
  qed
  moreover have d: "unat (drop_bit 4 b) = unat b div 16"
    by (subst unat_drop_bit_eq) (simp only: drop_bit_eq_div, simp)
  have "unat b < 256" using unsigned_less [of b, where 'a = nat] by simp
  then have "unat (push_bit 1 (drop_bit 4 b)) = 2 * unat (drop_bit 4 b)"
    unfolding push_bit_eq_mult using d by (simp add: unat_word_ariths)
  ultimately show ?thesis using d by simp
qed

lemma seq_length_byte:
  "UTF8_SEQ_LENGTH b = (if unat b < 192 then 1 else if unat b < 224 then 2 else if unat b < 240 then 3 else 4)"
proof -
  have b: "unat b < 256" using unsigned_less [of b, where 'a = nat] by simp
  define h where "h = unat b div 16"
  have h: "h < 16" "unat b < 192 \<longleftrightarrow> h < 12" "unat b < 224 \<longleftrightarrow> h < 14" "unat b < 240 \<longleftrightarrow> h < 15"
    using b by (simp_all add: h_def div_less_iff_less_mult)
  have "\<forall>h \<in> set [0..<16]. uint (drop_bit (2 * h) 0xe5000000 AND 3 :: u32) + 1 =
      (if h < 12 then 1 else if h < 14 then 2 else if h < 15 then 3 else 4)" by code_simp
  then show ?thesis unfolding UTF8_SEQ_LENGTH_def shift_amount h(2-4) h_def [symmetric] using h(1) by simp
qed

section \<open>The bytes of a character\<close>

text \<open>What \<^verbatim>\<open>strncpy16to8\<close> writes for a character.\<close>

definition enc :: "char16 \<Rightarrow> u8 list" where
  "enc c = (let uic = ucast c :: u32 in
     if uic > 0x07ff then
       [ucast (drop_bit 12 uic OR 0xe0), ucast ((drop_bit 6 uic AND 0x3f) OR 0x80), ucast ((uic AND 0x3f) OR 0x80)]
     else if uic > 0x7f \<or> uic = 0 then [ucast (drop_bit 6 uic OR 0xc0), ucast ((uic AND 0x3f) OR 0x80)]
     else [ucast uic])"

lemma cont_byte: "ucast ((x AND 0x3f) OR 0x80 :: u32) AND 0xc0 = (0x80 :: u8)"
  unfolding cont_bits by (simp add: bit_simps)

lemma bit_63: "bit (63 :: 'a::len word) n \<longleftrightarrow> n < 6 \<and> n < LENGTH('a)"
proof -
  have "(63 :: 'a word) = mask 6" by (simp add: mask_eq_exp_minus_1)
  then show ?thesis by (simp only: bit_mask_iff) auto
qed

lemma cont_value: "0x3f AND ucast (ucast ((x AND 0x3f) OR 0x80 :: u32) :: u8) = take_bit 6 (x :: u32)"
proof (rule bit_word_eqI)
  fix n assume "n < LENGTH(32)"
  show "bit (0x3f AND ucast (ucast ((x AND 0x3f) OR 0x80 :: u32) :: u8) :: u32) n = bit (take_bit 6 x) n"
  proof (cases "n < 6")
    case True
    then show ?thesis using less_8_cases [of n] by (auto simp: bit_simps)
  next
    case False
    then show ?thesis by (simp only: bit_63 bit_and_iff bit_take_bit_iff simp_thms)
  qed
qed

text \<open>The first bytes, by evaluation.\<close>

definition first_ok :: "nat \<Rightarrow> u8 \<Rightarrow> u8 \<Rightarrow> nat \<Rightarrow> bool" where
  "first_ok k m b j \<longleftrightarrow> b AND 0xc0 \<noteq> 0x80 \<and> b \<noteq> 0 \<and> UTF8_SEQ_LENGTH b = int k \<and> ucast (b AND m) = (of_nat j :: u32)"

lemma first_bytes:
  "\<forall>j \<in> set [1..<128]. first_ok 1 0xff (ucast (of_nat j :: u32)) j"
  "\<forall>j \<in> set [0..<32]. first_ok 2 0x1f (ucast (of_nat j OR 0xc0 :: u32)) j"
  "\<forall>j \<in> set [0..<16]. first_ok 3 0x0f (ucast (of_nat j OR 0xe0 :: u32)) j"
  by code_simp+

lemma split_bits: "push_bit n (drop_bit n x) OR take_bit n x = (x :: 'a::len word)"
  by (rule bit_word_eqI) (auto simp: bit_simps)

lemma drop_small: "unat x < j * 2 ^ n \<Longrightarrow> \<exists>i < j. drop_bit n x = of_nat i" for x :: "'a::len word"
proof -
  assume "unat x < j * 2 ^ n"
  then have "unat (drop_bit n x) < j" 
    by (subst unat_drop_bit_eq) (simp only: drop_bit_eq_div div_less_iff_less_mult zero_less_power zero_less_numeral)
  moreover have "drop_bit n x = of_nat (unat (drop_bit n x))" by simp
  ultimately show ?thesis by blast
qed

lemma unat_char16: "unat (ucast (c :: char16) :: u32) < 65536"
  using unsigned_less [of c, where 'a = nat] by (simp add: unsigned_ucast_eq take_bit_nat_eq_self)

lemma enc_cases [consumes 0, case_names one two three]:
  obtains b j where "enc c = [b]" "first_ok 1 0xff b j" "(ucast c :: u32) = of_nat j"
  | b j d where "enc c = [b, d]" "first_ok 2 0x1f b j" "d AND 0xc0 = 0x80" "push_bit 6 (of_nat j) OR (0x3f AND ucast d) = (ucast c :: u32)"
  | b j d e where "enc c = [b, d, e]" "first_ok 3 0x0f b j" "d AND 0xc0 = 0x80" "e AND 0xc0 = 0x80"
      "push_bit 6 (push_bit 6 (of_nat j) OR (0x3f AND ucast d)) OR (0x3f AND ucast e) = (ucast c :: u32)"
proof -
  define x where "x = (ucast c :: u32)"
  have x: "unat x < 16 * 2 ^ 12" using unat_char16 [of c] by (simp add: x_def)
  consider "x > 0x07ff" | "\<not> x > 0x07ff" "x > 0x7f \<or> x = 0" | "\<not> x > 0x07ff" "\<not> (x > 0x7f \<or> x = 0)" by blast
  then show thesis
  proof cases
    case 1
    obtain j where j: "j < 16" "drop_bit 12 x = of_nat j" using drop_small [OF x] by blast
    have "drop_bit 6 (drop_bit 6 x) = of_nat j" using j(2) by (simp only: drop_bit_drop_bit) simp
    then have "push_bit 6 (push_bit 6 (of_nat j) OR take_bit 6 (drop_bit 6 x)) OR take_bit 6 x = x"
      using split_bits [of 6 "drop_bit 6 x"] split_bits [of 6 x] by simp
    moreover have "first_ok 3 0x0f (ucast (drop_bit 12 x OR 0xe0)) j" using first_bytes(3) j by simp
    moreover have "enc c = [ucast (drop_bit 12 x OR 0xe0), ucast ((drop_bit 6 x AND 0x3f) OR 0x80), ucast ((x AND 0x3f) OR 0x80)]"
      using 1 by (simp only: enc_def Let_def x_def [symmetric] if_True)
    ultimately show thesis using that(3) by (simp only: cont_byte cont_value x_def [symmetric])
  next
    case 2
    then have "unat x < 32 * 2 ^ 6" by (simp add: word_less_nat_alt)
    then obtain j where j: "j < 32" "drop_bit 6 x = of_nat j" using drop_small by blast
    then have "push_bit 6 (of_nat j) OR take_bit 6 x = x" using split_bits [of 6 x] by simp
    moreover have "first_ok 2 0x1f (ucast (drop_bit 6 x OR 0xc0)) j" using first_bytes(2) j by simp
    moreover have "enc c = [ucast (drop_bit 6 x OR 0xc0), ucast ((x AND 0x3f) OR 0x80)]"
      using 2 by (simp only: enc_def Let_def x_def [symmetric] if_True if_False)
    ultimately show thesis using that(2) by (simp only: cont_byte cont_value x_def [symmetric])
  next
    case 3
    then have "unat x \<in> set [1..<128]" by (auto simp: word_less_nat_alt unat_eq_0 Suc_le_eq unat_gt_0)
    then have "first_ok 1 0xff (ucast x) (unat x)" using bspec [OF first_bytes(1), of "unat x"] by simp
    with that(1) [folded x_def, of "ucast x" "unat x"] 3 show thesis
      by (simp only: enc_def Let_def x_def [symmetric] if_False of_nat_unat ucast_id)
  qed
qed

lemma first_ok_get:
  assumes "first_ok k m b j" "leaderMask ! (k - 1) = m"
  shows "getUtf32FromUtf8 (b # s) = seq_loop (k - 1) (of_nat j) s"
  using assms by (simp add: first_ok_def getUtf32FromUtf8_def)

lemma cont_nonzero: "(d :: u8) AND 0xc0 = 0x80 \<Longrightarrow> d \<noteq> 0"
  by auto

lemma get_enc: "getUtf32FromUtf8 (enc c @ s) = Some (ucast c, s)"
  by (cases c rule: enc_cases)
    (simp_all add: first_ok_get [where k = 1] first_ok_get [where k = 2] first_ok_get [where k = 3] leaderMask_def cont_nonzero numeral_2_eq_2)

lemma enc_first: "\<exists>b r. enc c = b # r \<and> b \<noteq> 0"
  by (cases c rule: enc_cases) (auto simp: first_ok_def)

lemma strlen_enc: "strlen8to16_loop (enc c @ s) len 0 = strlen8to16_loop s (len + 1) 0"
  by (cases c rule: enc_cases) (simp_all add: first_ok_def cont_nonzero)

abbreviation encs :: "char16 list \<Rightarrow> u8 list" where
  "encs u \<equiv> concat (map enc u)"

lemma strlen_encs: "strlen8to16_loop (encs u @ s) len 0 = strlen8to16_loop s (len + of_nat (length u)) 0"
  by (induction u arbitrary: len) (simp_all add: strlen_enc add.assoc)

lemma put_utf16_char: "length dest < cap \<Longrightarrow> put_utf16 cap (ucast (c :: char16)) dest = Some (dest @ [c])"
proof -
  assume "length dest < cap"
  moreover have "(ucast c :: u32) \<le> 0xffff" using unat_char16 [of c] by (simp add: word_le_nat_alt)
  moreover have "ucast (ucast c :: u32) = c" by (rule bit_word_eqI) (simp add: bit_simps)
  ultimately show ?thesis by (simp add: put_utf16_def emit_def)
qed

lemma strcpy_encs:
  "length dest + length u \<le> cap \<Longrightarrow> strcpy8to16_loop cap dest (encs u @ 0 # s) = Some (dest @ u)"
proof (induction u arbitrary: dest)
  case Nil
  then show ?case by (simp add: strcpy8to16_loop.simps)
next
  case (Cons c u)
  obtain b r where "enc c = b # r" "b \<noteq> 0" using enc_first by blast
  with Cons show ?case using get_enc [of c "encs u @ 0 # s"]
    by (subst strcpy8to16_loop.simps) (simp add: put_utf16_char)
qed

section \<open>Writing UTF-8\<close>

lemma put_utf8_enc:
  "put_utf8 cap c dest = (if length dest + length (enc c) \<le> cap then Some (dest @ enc c) else None)"
  by (auto simp: put_utf8_def enc_def emit_def Let_def Option.bind_def)

lemma strncpy_encs:
  "strncpy16to8_loop cap u dest =
     (if length dest + length (encs u) + 1 \<le> cap then Some (dest @ encs u @ [0]) else None)"
  by (induction u arbitrary: dest) (auto simp: emit_def put_utf8_enc)

lemma add_length_enc: "add_length c n = n + of_nat (length (enc c))"
  by (simp add: add_length_def enc_def Let_def)

lemma enc_length: "length (enc c) \<in> {1, 2, 3}"
  by (simp add: enc_def Let_def)

lemma encs_length: "length (encs u) \<le> 3 * length u"
proof (induction u)
  case (Cons c u)
  with enc_length [of c] show ?case by auto
qed simp

lemma strnlen_fast_encs: "strnlen_fast u n = n + of_nat (length (encs u))"
  by (induction u arbitrary: n) (simp_all add: add_length_enc add.assoc)

lemma SIZE_MAX_eq: "SIZE_MAX = 0xffffffff"
  unfolding SIZE_MAX_def eq_commute [of "-1"] eq_neg_iff_add_eq_0 by simp

lemma unat_SIZE_MAX: "unat SIZE_MAX = 4294967295" "unat (SIZE_MAX - 1) = 4294967294" "unat ((SIZE_MAX - 1) div 3) = 1431655764"
  unfolding SIZE_MAX_eq by (simp_all add: unat_div)

lemma unat_less_u32: "unat (n :: u32) < 4294967296"
  using unsigned_less [of n, where 'a = nat] by simp

lemma unat_add_small: "unat n + k < 4294967296 \<Longrightarrow> unat (n + of_nat k :: u32) = unat n + k"
  by (simp add: unat_word_ariths unat_of_nat)

lemma unat_add_wrap:
  "4294967296 \<le> unat n + k \<Longrightarrow> k \<le> 3 \<Longrightarrow> unat (n + of_nat k :: u32) = unat n + k - 4294967296"
  using unat_less_u32 [of n] by (simp add: unat_word_ariths unat_of_nat mod_if)

lemma strnlen_paranoid_encs:
  "unat (strnlen_paranoid u n) = min (unat n + length (encs u)) (4294967294)"
proof (induction u arbitrary: n)
  case Nil
  have "n = SIZE_MAX \<longleftrightarrow> unat n = 4294967295" by (simp only: word_unat_eq_iff unat_SIZE_MAX)
  then show ?case using unat_less_u32 [of n] by (auto simp: unat_SIZE_MAX)
next
  case (Cons c u)
  define k where "k = length (enc c)"
  have k: "1 \<le> k" "k \<le> 3" using enc_length [of c] by (auto simp: k_def)
  have step: "strnlen_paranoid (c # u) n = (if n + of_nat k < n then SIZE_MAX - 1 else strnlen_paranoid u (n + of_nat k))"
    by (simp add: add_length_enc k_def [symmetric])
  have len: "unat n + length (encs (c # u)) = unat n + k + length (encs u)" by (simp add: k_def)
  show ?case unfolding step len
  proof (cases "unat n + k < 4294967296")
    case True
    then have s: "unat (n + of_nat k) = unat n + k" by (rule unat_add_small)
    then have "\<not> n + of_nat k < n" by (simp add: word_less_nat_alt)
    then show "unat (if n + of_nat k < n then SIZE_MAX - 1 else strnlen_paranoid u (n + of_nat k)) =
        min (unat n + k + length (encs u)) 4294967294" by (simp add: Cons.IH s)
  next
    case False
    then have "unat (n + of_nat k) = unat n + k - 4294967296" using k by (intro unat_add_wrap) auto
    then have "n + of_nat k < n" using k unat_less_u32 [of n] False by (simp add: word_less_nat_alt)
    then show "unat (if n + of_nat k < n then SIZE_MAX - 1 else strnlen_paranoid u (n + of_nat k)) =
        min (unat n + k + length (encs u)) 4294967294" using False by (simp add: unat_SIZE_MAX)
  qed
qed

lemma strnlen16to8_encs:
  assumes "length u < 4294967296"
  shows "unat (strnlen16to8 u) = min (length (encs u)) (4294967294)"
proof (cases "(of_nat (length u) :: u32) < (SIZE_MAX - 1) div 3")
  case True
  then have "length u < 1431655764" using assms by (simp only: word_less_nat_alt unat_SIZE_MAX) (simp add: unat_of_nat_lt)
  with encs_length [of u] have "length (encs u) < 4294967294" by simp
  then show ?thesis using True by (simp add: strnlen16to8_def strnlen_fast_encs unat_of_nat_lt)
next
  case False
  then show ?thesis by (simp add: strnlen16to8_def strnlen_paranoid_encs)
qed

lemma strndup16to8_encs:
  assumes "length u < 4294967296"
  shows "strndup16to8 ok (Some u) = Some (if ok \<and> length (encs u) < 4294967294 then Some (encs u @ [0]) else None)"
proof -
  define n where "n = strnlen16to8 u"
  have n: "unat n = min (length (encs u)) (4294967294)" using strnlen16to8_encs [OF assms] by (simp add: n_def)
  have "n \<ge> SIZE_MAX - 1 \<longleftrightarrow> \<not> length (encs u) < 4294967294" using n by (simp only: word_le_nat_alt unat_SIZE_MAX) auto
  moreover have "unat (n + 1) = length (encs u) + 1" if "length (encs u) < 4294967294"
    using n that by (simp add: unat_word_ariths)
  ultimately show ?thesis
    unfolding strndup16to8_def option.case Let_def n_def [symmetric] strncpy16to8_def strncpy_encs by simp
qed

section \<open>The length before a copy\<close>

text \<open>What \<^verbatim>\<open>strlen8to16\<close> counts, as a natural number.\<close>

fun cnt8 :: "u8 list \<Rightarrow> int \<Rightarrow> nat" where
  "cnt8 [] e = 0"
| "cnt8 (b # s) e =
     (if b = 0 then 0
      else if b AND 0xc0 = 0x80 then (if e - 1 < 0 then 1 else 0) + cnt8 s (e - 1)
      else (if UTF8_SEQ_LENGTH b = 4 then 2 else 1) + cnt8 s (UTF8_SEQ_LENGTH b - 1))"

lemma strlen_cnt8: "0 \<in> set s \<Longrightarrow> strlen8to16_loop s len e = Some (len + of_nat (cnt8 s e))"
  by (induction s arbitrary: len e) (auto simp: Let_def add.assoc)

lemma cnt8_le: "cnt8 s e \<le> 2 * length s"
proof (induction s e rule: cnt8.induct)
  case (2 b s e)
  then show ?case by (cases "b = 0"; cases "b AND 0xc0 = 0x80") auto
qed simp

text \<open>Where a character starts, the bytes that belong to the one before it are used up.\<close>

definition boundary :: "u8 list \<Rightarrow> int \<Rightarrow> bool" where
  "boundary s e \<longleftrightarrow> e \<le> 0 \<or> (\<forall>b r. s = b # r \<longrightarrow> b AND 0xc0 \<noteq> 0x80)"

lemma seq_loop_cnt8:
  "0 \<in> set p \<Longrightarrow> \<exists>ret' p' e'. seq_loop k ret p = Some (ret', p') \<and> 0 \<in> set p' \<and> length p' \<le> length p \<and>
     boundary p' e' \<and> cnt8 p (int k) = cnt8 p' e'"
proof (induction k arbitrary: ret p)
  case 0
  then show ?case by (auto simp: boundary_def)
next
  case (Suc k)
  then obtain b r where p: "p = b # r" by (cases p) auto
  show ?case
  proof (cases "b AND 0xc0 = 0x80")
    case True
    then have "b \<noteq> 0" "0 \<in> set r" using Suc.prems p by auto
    with Suc.IH [of r "push_bit 6 ret OR (0x3f AND ucast b)"] True show ?thesis
      unfolding p by fastforce
  next
    case False
    then have "boundary p (int (Suc k))" by (auto simp: boundary_def p)
    with False Suc.prems show ?thesis unfolding p
      by (intro exI [of _ UTF16_REPLACEMENT_CHAR] exI [of _ "b # r"] exI [of _ "int (Suc k)"]) auto
  qed
qed

lemma shift_small:
  fixes ret :: u32
  assumes "take_bit m ret = ret"
  shows "take_bit (m + 6) (push_bit 6 ret OR (0x3f AND ucast (b :: u8))) = push_bit 6 ret OR (0x3f AND ucast b)"
proof (rule bit_word_eqI)
  fix n assume "n < LENGTH(32)"
  have "\<not> bit ret (n - 6)" if "\<not> n < m + 6"
  proof -
    have "bit ret (n - 6) \<longleftrightarrow> n - 6 < m \<and> bit ret (n - 6)" using assms by (metis bit_take_bit_iff)
    moreover have "\<not> n - 6 < m" using that by linarith
    ultimately show ?thesis by blast
  qed
  then show "bit (take_bit (m + 6) (push_bit 6 ret OR (0x3f AND ucast b))) n = bit (push_bit 6 ret OR (0x3f AND ucast b)) n"
    unfolding bit_take_bit_iff bit_or_iff bit_and_iff bit_63 bit_push_bit_iff by auto
qed

lemma take_bit_more: "take_bit m x = x \<Longrightarrow> m \<le> n \<Longrightarrow> take_bit n x = (x :: 'a::len word)"
  by (metis min.absorb2 take_bit_take_bit)

lemma seq_loop_small:
  "seq_loop k ret p = Some (ret', p') \<Longrightarrow> take_bit m ret = ret \<Longrightarrow> m + 6 * k \<le> 16 \<Longrightarrow> take_bit 16 ret' = ret'"
proof (induction k ret p arbitrary: m rule: seq_loop.induct)
  case (1 ret p)
  then show ?case using take_bit_more by auto
next
  case (3 k ret b p)
  then show ?case using shift_small [of m ret b] "3.IH" [of "m + 6"]
    by (auto simp: UTF16_REPLACEMENT_CHAR_def split: if_splits)
qed simp

lemma small_le: "take_bit 16 ret = ret \<Longrightarrow> (ret :: u32) \<le> 0xffff"
proof -
  assume "take_bit 16 ret = ret"
  then have "unat ret = unat (take_bit 16 ret)" by simp
  also have "\<dots> = unat ret mod 65536" by (subst unsigned_take_bit_eq) (simp only: take_bit_eq_mod, simp)
  also have "\<dots> < 65536" by simp
  finally show ?thesis by (simp add: word_le_nat_alt)
qed

lemma take_ucast: "take_bit n (ucast (b AND mask n :: u8) :: u32) = ucast (b AND mask n)"
  by (rule bit_word_eqI) (auto simp: bit_take_bit_iff bit_unsigned_iff bit_and_iff bit_mask_iff)

lemma leaderMask_masks: "leaderMask ! 0 = mask 8" "leaderMask ! 1 = mask 5" "leaderMask ! 2 = mask 4"
  by (simp_all add: leaderMask_def mask_eq_exp_minus_1)

lemma lead_small:
  "take_bit 8 (ucast (b AND leaderMask ! 0) :: u32) = ucast (b AND leaderMask ! 0)"
  "take_bit 5 (ucast (b AND leaderMask ! 1) :: u32) = ucast (b AND leaderMask ! 1)"
  "take_bit 4 (ucast (b AND leaderMask ! 2) :: u32) = ucast (b AND leaderMask ! 2)"
  unfolding leaderMask_masks by (rule take_ucast)+

lemma seq_length_cases: "UTF8_SEQ_LENGTH b \<in> {1, 2, 3, 4}"
  by (simp add: seq_length_byte)

lemma lead_bound:
  assumes "seq_loop (nat (UTF8_SEQ_LENGTH b) - 1) (ucast (b AND leaderMask ! (nat (UTF8_SEQ_LENGTH b) - 1))) r = Some (ret, p)"
    and "UTF8_SEQ_LENGTH b \<noteq> 4"
  shows "ret \<le> 0xffff"
proof -
  have "UTF8_SEQ_LENGTH b = 1 \<or> UTF8_SEQ_LENGTH b = 2 \<or> UTF8_SEQ_LENGTH b = 3"
    using seq_length_cases [of b] assms(2) by simp
  then have "take_bit 16 ret = ret"
  proof (elim disjE)
    assume "UTF8_SEQ_LENGTH b = 1"
    then have "seq_loop 0 (ucast (b AND leaderMask ! 0)) r = Some (ret, p)" using assms(1) by simp
    then show ?thesis by (rule seq_loop_small [OF _ lead_small(1)]) simp
  next
    assume "UTF8_SEQ_LENGTH b = 2"
    then have "seq_loop 1 (ucast (b AND leaderMask ! 1)) r = Some (ret, p)" using assms(1) by simp
    then show ?thesis by (rule seq_loop_small [OF _ lead_small(2)]) simp
  next
    assume "UTF8_SEQ_LENGTH b = 3"
    then have "seq_loop 2 (ucast (b AND leaderMask ! 2)) r = Some (ret, p)" using assms(1) by simp
    then show ?thesis by (rule seq_loop_small [OF _ lead_small(3)]) simp
  qed
  then show ?thesis by (rule small_le)
qed

lemma get_step:
  assumes "b \<noteq> 0" "0 \<in> set r" "boundary (b # r) e"
  obtains ret s' e' k where "getUtf32FromUtf8 (b # r) = Some (ret, s')" "0 \<in> set s'" "length s' \<le> length r" "boundary s' e'"
    "cnt8 (b # r) e = k + cnt8 s' e'" "k = 1 \<and> ret \<le> 0xffff \<or> k = 2"
proof (cases "b AND 0xc0 = 0x80")
  case True
  with assms(3) have "e \<le> 0" by (auto simp: boundary_def)
  with True assms show thesis
    by (intro that [of UTF16_REPLACEMENT_CHAR r "e - 1" 1])
      (simp_all add: getUtf32FromUtf8_def boundary_def UTF16_REPLACEMENT_CHAR_def)
next
  case False
  define L where "L = nat (UTF8_SEQ_LENGTH b)"
  have L: "int (L - 1) = UTF8_SEQ_LENGTH b - 1" using seq_length_cases [of b] by (auto simp: L_def)
  obtain ret p e' where s: "seq_loop (L - 1) (ucast (b AND leaderMask ! (L - 1))) r = Some (ret, p)" "0 \<in> set p"
      "length p \<le> length r" "boundary p e'" "cnt8 r (int (L - 1)) = cnt8 p e'"
    using seq_loop_cnt8 [OF assms(2)] by meson
  have "getUtf32FromUtf8 (b # r) = Some (ret, p)"
    using False assms(1) s(1) by (simp add: getUtf32FromUtf8_def L_def [symmetric])
  moreover have "cnt8 (b # r) e = (if UTF8_SEQ_LENGTH b = 4 then 2 else 1) + cnt8 p e'"
    using False assms(1) s(5) unfolding L by simp
  moreover have "UTF8_SEQ_LENGTH b \<noteq> 4 \<Longrightarrow> ret \<le> 0xffff" using lead_bound s(1) unfolding L_def by blast
  ultimately show thesis using s(2-4) that [of ret p e' "if UTF8_SEQ_LENGTH b = 4 then 2 else 1"] by presburger
qed

lemma put_utf16_fits:
  "length dest + k \<le> cap \<Longrightarrow> k = 1 \<and> ret \<le> 0xffff \<or> k = 2 \<Longrightarrow>
     \<exists>d. put_utf16 cap ret dest = Some d \<and> length d \<le> length dest + k"
  by (auto simp: put_utf16_def emit_def)

lemma strcpy_fits:
  "0 \<in> set s \<Longrightarrow> boundary s e \<Longrightarrow> length dest + cnt8 s e \<le> cap \<Longrightarrow> \<exists>d. strcpy8to16_loop cap dest s = Some d"
proof (induction "length s" arbitrary: s e dest rule: less_induct)
  case less
  then obtain b r where s: "s = b # r" by (cases s) auto
  show ?case
  proof (cases "b = 0")
    case True
    then show ?thesis by (simp add: s strcpy8to16_loop.simps)
  next
    case False
    then have "0 \<in> set r" using less.prems(1) s by auto
    from False this less.prems(2) obtain ret s' e' k where g: "getUtf32FromUtf8 s = Some (ret, s')" "0 \<in> set s'" "length s' \<le> length r"
      "boundary s' e'" "cnt8 s e = k + cnt8 s' e'" "k = 1 \<and> ret \<le> 0xffff \<or> k = 2" unfolding s by (rule get_step)
    obtain d where d: "put_utf16 cap ret dest = Some d" "length d \<le> length dest + k"
      using put_utf16_fits [OF _ g(6), of dest cap] less.prems(3) g(5) by auto
    have "\<exists>d'. strcpy8to16_loop cap d s' = Some d'"
      using less.hyps [of s' e' d] g d less.prems(3) by (simp add: s)
    then show ?thesis using False g(1) d(1) by (subst strcpy8to16_loop.simps) (simp add: s)
  qed
qed

section \<open>Properties\<close>

lemma enc_no_zero: "0 \<notin> set (enc c)"
  by (cases c rule: enc_cases) (auto simp: first_ok_def)

lemma size_check: "n < 2 ^ 31 \<Longrightarrow> (of_nat n :: u32) \<noteq> 0 \<and> SIZE_MAX div of_nat n < 2 \<longleftrightarrow> False"
proof -
  assume n: "n < 2 ^ 31"
  then have "unat (of_nat n :: u32) = n" by (intro unat_of_nat_lt) simp
  moreover have "2 \<le> 4294967295 div n" if "n \<noteq> 0" using n that by (simp add: less_eq_div_iff_mult_less_eq)
  ultimately show ?thesis by (cases "n = 0") (auto simp: word_less_nat_alt unat_div unat_SIZE_MAX)
qed

lemma strdup_encs:
  assumes "length u < 2 ^ 31"
  shows "strdup8to16 True (Some (encs u @ [0])) = Some (Some u)"
proof -
  have "strlen8to16 (encs u @ [0]) = Some (of_nat (length u))" by (simp add: strlen8to16_def strlen_encs)
  moreover have "unat (of_nat (length u) :: u32) = length u" using assms by (intro unat_of_nat_lt) simp
  ultimately show ?thesis
    using strcpy_encs [of "[]" u "length u" "[]"] size_check [OF assms]
    by (simp only: strdup8to16_def option.case strcpy8to16_def if_False if_True) simp
qed

lemma strcpylen_encs:
  "length dest + length u \<le> cap \<Longrightarrow> strcpylen8to16_loop cap (length more) dest (encs u @ more) = Some (dest @ u)"
proof (induction u arbitrary: dest)
  case Nil
  then show ?case by (simp add: strcpylen8to16_loop.simps)
next
  case (Cons c u)
  obtain b r where "enc c = b # r" "b \<noteq> 0" using enc_first by blast
  with Cons show ?case using get_enc [of c "encs u @ more"]
    by (subst strcpylen8to16_loop.simps) (simp add: put_utf16_char)
qed

lemma zero_stuck: "behind < length (0 # s) \<Longrightarrow> strcpylen8to16_loop cap behind dest (0 # s) = None"
proof (induction "cap - length dest" arbitrary: dest rule: less_induct)
  case less
  have g: "getUtf32FromUtf8 (0 # s) = Some (0, 0 # s)" by (simp add: getUtf32FromUtf8_def)
  show ?case
  proof (cases "put_utf16 cap 0 dest")
    case None
    with less.prems g show ?thesis by (subst strcpylen8to16_loop.simps) simp
  next
    case (Some d)
    then have "strcpylen8to16_loop cap behind d (0 # s) = None"
      using put_utf16_grows [OF Some] less by (intro less.hyps) auto
    with Some less.prems g show ?thesis by (subst strcpylen8to16_loop.simps) simp
  qed
qed

lemma strcpylen_zero: "behind < length (0 # s) \<Longrightarrow> strcpylen8to16_loop cap behind dest (encs u @ 0 # s) = None"
proof (induction u arbitrary: dest)
  case Nil
  then show ?case by (simp add: zero_stuck)
next
  case (Cons c u)
  then show ?case using get_enc [of c "encs u @ 0 # s"]
    by (subst strcpylen8to16_loop.simps) (auto split: option.split)
qed

lemma strcpy_no_room: "b \<noteq> 0 \<Longrightarrow> strcpy8to16 0 (b # r) = None"
  by (simp add: strcpy8to16_def strcpy8to16_loop.simps [of 0 "[]"] put_utf16_def emit_def split: option.split)

lemma strdup8to16_fits:
  assumes "0 \<in> set s" "length s < 2 ^ 31"
  shows "\<exists>r. strdup8to16 True (Some s) = Some r"
proof -
  have "strlen8to16 s = Some (of_nat (cnt8 s 0))" using strlen_cnt8 [OF assms(1), of 0 0] by (simp add: strlen8to16_def)
  moreover have "unat (of_nat (cnt8 s 0) :: u32) = cnt8 s 0"
    using cnt8_le [of s 0] assms(2) by (intro unat_of_nat_lt) simp
  moreover obtain d where "strcpy8to16_loop (cnt8 s 0) [] s = Some d"
    using strcpy_fits [OF assms(1), of 0 "[]" "cnt8 s 0"] by (auto simp: boundary_def)
  ultimately show ?thesis by (simp add: strdup8to16_def strcpy8to16_def)
qed

text \<open>C20: Sizes.  For every terminated string the two passes of \<^verbatim>\<open>strdup8to16\<close> agree well enough: the copy writes only inside the
  block that the length computed before asks for, however malformed the bytes are.  \<^verbatim>\<open>strnlen16to8\<close> returns the number of
  bytes the copy will write, cut off below the largest number, so that \<^verbatim>\<open>strndup16to8\<close> never writes outside of its
  block either and returns a null pointer when the length does not fit.\<close>

theorem conversions_stay_in_memory:
  assumes "0 \<in> set s" "length s < 2 ^ 31" "length u < 2 ^ 32"
  shows "strdup8to16 True (Some s) \<noteq> None \<and> unat (strnlen16to8 u) = min (length (encs u)) (2 ^ 32 - 2) \<and>
    strndup16to8 ok (Some u) = Some (if ok \<and> length (encs u) < 2 ^ 32 - 2 then Some (encs u @ [0]) else None)"
  using strdup8to16_fits [OF assms(1,2)] strnlen16to8_encs [of u] strndup16to8_encs [of u ok] assms(3) by auto

theorem conversions_stay_in_memory_witness:
  "strdup8to16 True (Some [0xc3, 0xf0, 0x80, 0x80, 0]) \<noteq> None \<and> strndup16to8 True (Some [0, 0x20ac]) = Some (Some [0xc0, 0x80, 0xe2, 0x82, 0xac, 0])"
  using conversions_stay_in_memory [of "[0xc3, 0xf0, 0x80, 0x80, 0]" "[0, 0x20ac]" True] by (simp add: enc_def)

text \<open>C19: Round trip.  The modified UTF-8 that \<^verbatim>\<open>strndup16to8\<close> returns for a string of UTF-16 characters, zeros and unpaired
  surrogates included, holds no zero before its end, and \<^verbatim>\<open>strdup8to16\<close> gives the string back;
  \<^verbatim>\<open>strcpylen8to16\<close> does so from the bytes without their end.\<close>

theorem utf_roundtrip:
  assumes "3 * length u < 2 ^ 32 - 2"
  shows "\<exists>out. strndup16to8 True (Some u) = Some (Some (out @ [0])) \<and> 0 \<notin> set out \<and>
    strdup8to16 True (Some (out @ [0])) = Some (Some u) \<and> strcpylen8to16 (length u) (out @ more) (length out) = Some u"
proof (intro exI conjI)
  have "length (encs u) < 2 ^ 32 - 2" using encs_length [of u] assms by simp
  then show "strndup16to8 True (Some u) = Some (Some (encs u @ [0]))" using strndup16to8_encs [of u True] assms by simp
  show "0 \<notin> set (encs u)" using enc_no_zero by auto
  show "strdup8to16 True (Some (encs u @ [0])) = Some (Some u)" by (rule strdup_encs) (use assms in simp)
  show "strcpylen8to16 (length u) (encs u @ more) (length (encs u)) = Some u"
    using strcpylen_encs [of "[]" u "length u" more] by (simp add: strcpylen8to16_def)
qed

theorem utf_roundtrip_witness:
  "\<exists>out. strndup16to8 True (Some [0, 0x41, 0xd800]) = Some (Some (out @ [0])) \<and> 0 \<notin> set out \<and>
     strdup8to16 True (Some (out @ [0])) = Some (Some [0, 0x41, 0xd800])"
  using utf_roundtrip [of "[0, 0x41, 0xd800]" "[]"] by (simp, blast)

text \<open>C40: A zero byte.  When the bytes given to \<^verbatim>\<open>strcpylen8to16\<close> hold a zero where a character starts, the function never
  gets past it and keeps on writing: it leaves every destination, however large.  A failed allocation in \<^verbatim>\<open>strdup8to16\<close>
  makes it write through the null pointer unless the string is empty.\<close>

theorem zero_byte_overruns:
  assumes "length (encs u) < n" "n \<le> length (encs u) + length s + 1" "b \<noteq> 0" "0 \<in> set r" "length r < 2 ^ 30 - 1"
  shows "strcpylen8to16 cap (encs u @ 0 # s) n = None \<and> strdup8to16 False (Some (b # r)) = None \<and>
    strdup8to16 False (Some [0]) = Some None"
proof (intro conjI)
  show "strcpylen8to16 cap (encs u @ 0 # s) n = None"
    using assms(1,2) by (simp add: strcpylen8to16_def strcpylen_zero)
  have "strlen8to16 (b # r) = Some (of_nat (cnt8 (b # r) 0))"
    using strlen_cnt8 [of "b # r" 0 0] assms(4) by (simp add: strlen8to16_def)
  moreover have "cnt8 (b # r) 0 < 2 ^ 31" using cnt8_le [of "b # r" 0] assms(5) by simp
  ultimately show "strdup8to16 False (Some (b # r)) = None"
    using size_check [of "cnt8 (b # r) 0"] by (simp only: strdup8to16_def option.case strcpy_no_room [OF assms(3)] if_False option.map)
  show "strdup8to16 False (Some [0]) = Some None"
    by (simp add: strdup8to16_def strlen8to16_def strcpy8to16_def strcpy8to16_loop.simps)
qed

theorem zero_byte_overruns_witness:
  "strcpylen8to16 1000 [0x41, 0, 0x42] 3 = None \<and> strdup8to16 False (Some [0x41, 0]) = None"
  using zero_byte_overruns [of "[0x41]" 3 "[0x42]" "0x41" "[0]" 1000] by (simp add: enc_def)

end
