(* ===== verification/Record_Stream.thy ===== *)
theory Record_Stream
  imports Sha_Facts
begin

text \<open>
  Streams of length-prefixed records: \<^verbatim>\<open>src/core/libcutils/record_stream.c\<close>.  Pointers are addresses of 32 bits that wrap
  around; the block behind \<^verbatim>\<open>buffer\<close> is a list of bytes.  \<open>None\<close> is an access outside of the block or a failed assertion.
  The file descriptor is the sequence of what successive calls of \<^verbatim>\<open>read\<close> find: a piece of the stream, or an error.
\<close>

section \<open>The model\<close>

definition HEADER_SIZE :: u32 where "HEADER_SIZE = 4"

record RecordStream =
  maxRecordLen :: u32
  rs_buffer :: u32
  unconsumed :: u32
  read_end :: u32
  buffer_end :: u32
  rs_mem :: "u8 list"

text \<open>\<open>addr\<close> and \<open>block\<close> are the block that \<^verbatim>\<open>malloc\<close> returns and what it holds.\<close>

definition record_stream_new :: "u32 \<Rightarrow> u8 list \<Rightarrow> u32 \<Rightarrow> RecordStream option" where
  "record_stream_new addr block maxLen =
     (if \<not> maxLen \<le> 0xffff then None
      else Some \<lparr>maxRecordLen = maxLen, rs_buffer = addr, unconsumed = addr, read_end = addr,
             buffer_end = addr + maxLen + HEADER_SIZE, rs_mem = take (unat (maxLen + HEADER_SIZE)) block\<rparr>)"

text \<open>\<^verbatim>\<open>ntohl(*(uint32_t *) p)\<close>\<close>

definition load32 :: "RecordStream \<Rightarrow> u32 \<Rightarrow> u32 option" where
  "load32 rs p =
     (let i = unat (p - rs_buffer rs); m = rs_mem rs in
      if i + 4 \<le> length m then Some (be_word (m ! i) (m ! (i + 1)) (m ! (i + 2)) (m ! (i + 3))) else None)"

definition getEndOfRecord :: "RecordStream \<Rightarrow> u32 \<Rightarrow> u32 \<Rightarrow> u32 option" where
  "getEndOfRecord rs p_begin p_end =
     (if p_end < p_begin + HEADER_SIZE then Some 0
      else case load32 rs p_begin of
        None \<Rightarrow> None
      | Some len \<Rightarrow>
          let p_ret = p_begin + HEADER_SIZE + len in
          if p_end < p_ret then Some 0 else Some p_ret)"

text \<open>The start and the length of a record, or the null pointer.\<close>

definition getNextRecord :: "RecordStream \<Rightarrow> ((u32 \<times> u32) option \<times> RecordStream) option" where
  "getNextRecord rs =
     (case getEndOfRecord rs (unconsumed rs) (read_end rs) of
        None \<Rightarrow> None
      | Some record_end \<Rightarrow>
          if record_end \<noteq> 0 then
            let record_start = unconsumed rs + HEADER_SIZE in
            Some (Some (record_start, record_end - record_start), rs\<lparr>unconsumed := record_end\<rparr>)
          else Some (None, rs))"

text \<open>\<^verbatim>\<open>read\<close> with room for \<open>n\<close> bytes: the bytes, none at the end of the stream, or an error.\<close>

fun sys_read :: "nat \<Rightarrow> u8 list option list \<Rightarrow> u8 list option \<times> u8 list option list" where
  "sys_read n [] = (Some [], [])"
| "sys_read n (None # src) = (None, src)"
| "sys_read n (Some c # src) = (if length c \<le> n then (Some c, src) else (Some (take n c), Some (drop n c) # src))"

text \<open>The results: 0 with a record, 0 with the null pointer, the -1 of \<^verbatim>\<open>read\<close>, and -1 with \<^verbatim>\<open>EAGAIN\<close>.\<close>

datatype outcome = Record u32 u32 | End_Of_Stream | Read_Error | Again

text \<open>The remainder is moved to the beginning of the buffer.\<close>

definition move_remainder :: "RecordStream \<Rightarrow> RecordStream option" where
  "move_remainder rs =
     (if unconsumed rs \<noteq> rs_buffer rs then
        let toMove = read_end rs - unconsumed rs; i = unat (unconsumed rs - rs_buffer rs); m = rs_mem rs in
        if toMove \<noteq> 0 \<and> length m < i + unat toMove then None
        else Some (rs\<lparr>rs_mem := take (unat toMove) (drop i m) @ drop (unat toMove) m,
               read_end := rs_buffer rs + toMove, unconsumed := rs_buffer rs\<rparr>)
      else Some rs)"

definition record_stream_get_next ::
  "RecordStream \<Rightarrow> u8 list option list \<Rightarrow> (outcome \<times> RecordStream \<times> u8 list option list) option" where
  "record_stream_get_next rs src =
     (case getNextRecord rs of
        None \<Rightarrow> None
      | Some (Some (start, len), rs) \<Rightarrow> Some (Record start len, rs, src)
      | Some (None, rs) \<Rightarrow>
          if unconsumed rs = rs_buffer rs \<and> read_end rs = buffer_end rs then None
          else case move_remainder rs of
            None \<Rightarrow> None
          | Some rs \<Rightarrow>
              (case sys_read (unat (buffer_end rs - read_end rs)) src of
                 (None, src) \<Rightarrow> Some (Read_Error, rs, src)
               | (Some data, src) \<Rightarrow>
                   if data = [] then Some (End_Of_Stream, rs, src)
                   else
                     let j = unat (read_end rs - rs_buffer rs); m = rs_mem rs in
                     if length m < j + length data then None
                     else case getNextRecord (rs\<lparr>rs_mem := take j m @ data @ drop (j + length data) m,
                                 read_end := read_end rs + of_nat (length data)\<rparr>) of
                       None \<Rightarrow> None
                     | Some (None, rs) \<Rightarrow> Some (Again, rs, src)
                     | Some (Some (start, len), rs) \<Rightarrow> Some (Record start len, rs, src)))"

text \<open>The bytes of a record that was handed out.\<close>

definition record_bytes :: "RecordStream \<Rightarrow> u32 \<Rightarrow> u32 \<Rightarrow> u8 list" where
  "record_bytes rs start len = take (unat len) (drop (unat (start - rs_buffer rs)) (rs_mem rs))"

section \<open>Addresses\<close>

definition at :: "RecordStream \<Rightarrow> nat \<Rightarrow> u32" where
  "at rs k = rs_buffer rs + of_nat k"

text \<open>The block lies so far below the end of the address space that a record of the largest size behind it does not wrap
  around.\<close>

definition placed_low :: "u32 \<Rightarrow> u32 \<Rightarrow> bool" where
  "placed_low addr maxLen \<longleftrightarrow> addr \<noteq> 0 \<and> maxLen \<le> 0xffff \<and> unat addr + 2 * unat maxLen + 8 < 2 ^ 32"

definition rs_ok :: "RecordStream \<Rightarrow> nat \<Rightarrow> nat \<Rightarrow> bool" where
  "rs_ok rs i j \<longleftrightarrow>
     placed_low (rs_buffer rs) (maxRecordLen rs) \<and> length (rs_mem rs) = unat (maxRecordLen rs) + 4 \<and>
     unconsumed rs = at rs i \<and> read_end rs = at rs j \<and> buffer_end rs = at rs (unat (maxRecordLen rs) + 4) \<and>
     i \<le> j \<and> j \<le> unat (maxRecordLen rs) + 4"

lemma unat_at:
  assumes "placed_low (rs_buffer rs) (maxRecordLen rs)" "k \<le> 2 * unat (maxRecordLen rs) + 8"
  shows "unat (at rs k) = unat (rs_buffer rs) + k"
proof -
  have "unat (rs_buffer rs) + k < 2 ^ 32" using assms by (simp add: placed_low_def)
  then show ?thesis unfolding at_def by (simp add: unat_word_ariths unat_of_nat)
qed

lemma at_simps:
  "at rs k + of_nat m = at rs (k + m)" "at rs k - rs_buffer rs = of_nat k" "at rs 0 = rs_buffer rs"
  "m \<le> k \<Longrightarrow> at rs k - at rs m = of_nat (k - m)"
  by (simp_all add: at_def of_nat_diff)

section \<open>Records in the buffer\<close>

text \<open>What a sender writes for a record.\<close>

definition frame :: "u8 list \<Rightarrow> u8 list" where
  "frame r = word_bytes (of_nat (length r)) @ r"

lemma be_word_of_bytes: "be_word (ucast (drop_bit 24 w)) (ucast (drop_bit 16 w)) (ucast (drop_bit 8 w)) (ucast w) = w"
proof (rule bit_word_eqI)
  fix n assume "n < LENGTH(32)"
  consider "n < 8" | "8 \<le> n" "n < 16" | "16 \<le> n" "n < 24" | "24 \<le> n" by linarith
  then show "bit (be_word (ucast (drop_bit 24 w)) (ucast (drop_bit 16 w)) (ucast (drop_bit 8 w)) (ucast w)) n = bit w n"
    using \<open>n < LENGTH(32)\<close> by cases (auto simp: be_word_def bit_simps)
qed

text \<open>The bytes between \<^verbatim>\<open>unconsumed\<close> and \<^verbatim>\<open>read_end\<close>.\<close>

definition held :: "RecordStream \<Rightarrow> nat \<Rightarrow> nat \<Rightarrow> u8 list" where
  "held rs i j = take (j - i) (drop i (rs_mem rs))"

lemma held_length: "rs_ok rs i j \<Longrightarrow> length (held rs i j) = j - i"
  by (auto simp: held_def rs_ok_def)

lemma frame_length: "length (frame r) = 4 + length r"
  by (simp add: frame_def word_bytes_def)

lemma load32_held:
  assumes "rs_ok rs i j" "4 \<le> j - i" "take 4 (held rs i j) = word_bytes len"
  shows "load32 rs (unconsumed rs) = Some len"
proof -
  let ?m = "rs_mem rs"
  have i: "i + 4 \<le> length ?m" using assms(1,2) by (auto simp: rs_ok_def)
  moreover have "unat (unconsumed rs - rs_buffer rs) = i"
    using assms(1) by (auto simp: rs_ok_def at_simps placed_low_def word_le_nat_alt intro!: unat_of_nat_lt)
  moreover have "take 4 (drop i ?m) = word_bytes len" using assms(2,3) by (simp add: held_def min_def)
  moreover have "take 4 (drop i ?m) = [?m ! i, ?m ! (i + 1), ?m ! (i + 2), ?m ! (i + 3)]"
    using i by (simp add: numeral_eq_Suc take_Suc_conv_app_nth)
  ultimately show ?thesis by (simp add: load32_def Let_def word_bytes_def be_word_of_bytes)
qed

lemma load32_frame:
  assumes "rs_ok rs i j" "held rs i j @ xs = frame r @ ys" "4 \<le> j - i"
  shows "load32 rs (unconsumed rs) = Some (of_nat (length r))"
proof (rule load32_held [OF assms(1,3)])
  have "take 4 (held rs i j) = take 4 (held rs i j @ xs)" using assms(3) held_length [OF assms(1)] by simp
  then show "take 4 (held rs i j) = word_bytes (of_nat (length r))" by (simp add: assms(2) frame_def word_bytes_def)
qed

lemma getNextRecord_frame:
  assumes ok: "rs_ok rs i j" and b: "held rs i j @ xs = frame r @ ys" and r: "length r \<le> unat (maxRecordLen rs)"
  shows "getNextRecord rs =
    (if 4 + length r \<le> j - i then Some (Some (at rs (i + 4), of_nat (length r)), rs\<lparr>unconsumed := at rs (i + 4 + length r)\<rparr>)
     else Some (None, rs))"
proof -
  note o = ok [unfolded rs_ok_def]
  have lt: "at rs j < at rs (i + k) \<longleftrightarrow> j < i + k" if "k \<le> unat (maxRecordLen rs) + 4" for k
    using o that by (simp add: word_less_nat_alt unat_at)
  have nz: "at rs k \<noteq> 0" if "k \<le> 2 * unat (maxRecordLen rs) + 8" for k
    using unat_at [OF _ that] o by (auto simp: placed_low_def unat_eq_0 [symmetric])
  have h: "at rs i + HEADER_SIZE = at rs (i + 4)" using at_simps(1) [of rs i 4] by (simp add: HEADER_SIZE_def)
  show ?thesis
  proof (cases "4 \<le> j - i")
    case False
    then have "j < i + 4" by linarith
    then show ?thesis using o lt [of 4] False by (simp add: getNextRecord_def getEndOfRecord_def h)
  next
    case True
    have "at rs (i + 4 + length r) - at rs (i + 4) = of_nat (length r)" by (simp add: at_simps)
    moreover have "at rs j < at rs (i + 4 + length r) \<longleftrightarrow> j < i + 4 + length r"
      using lt [of "4 + length r"] r by (simp add: add.assoc)
    ultimately show ?thesis
      using True o r lt [of 4] nz [of "i + 4 + length r"] load32_frame [OF ok b True]
      by (auto simp: getNextRecord_def getEndOfRecord_def h at_simps(1) Let_def)
  qed
qed

lemma getNextRecord_empty:
  assumes "rs_ok rs i i"
  shows "getNextRecord rs = Some (None, rs)"
  using getNextRecord_frame [OF assms, of "frame []" "[]" "[]"] held_length [OF assms] by simp

lemma rs_ok_consumed:
  assumes "rs_ok rs i j" "k \<le> j - i"
  shows "rs_ok (rs\<lparr>unconsumed := at rs (i + k)\<rparr>) (i + k) j" "held (rs\<lparr>unconsumed := at rs (i + k)\<rparr>) (i + k) j = drop k (held rs i j)"
  using assms by (auto simp: rs_ok_def at_def held_def drop_take add.commute)

lemma record_bytes_frame:
  assumes ok: "rs_ok rs i j" and b: "held rs i j @ xs = frame r @ ys" and r: "4 + length r \<le> j - i" "length r \<le> unat (maxRecordLen rs)"
  shows "record_bytes rs (at rs (i + 4)) (of_nat (length r)) = r"
proof -
  note o = ok [unfolded rs_ok_def placed_low_def]
  have "unat (of_nat (length r) :: u32) = length r" "unat (of_nat (i + 4) :: u32) = i + 4"
    using o r unat_of_nat_lt [of "length r", where 'a = 32] unat_of_nat_lt [of "i + 4", where 'a = 32] by (auto simp: word_le_nat_alt)
  moreover have "take (4 + length r) (drop i (rs_mem rs)) = frame r"
  proof -
    have "take (4 + length r) (drop i (rs_mem rs)) = take (4 + length r) (held rs i j @ xs)"
      using r(1) held_length [OF ok] by (simp add: held_def min_def)
    then show ?thesis by (simp add: b frame_length)
  qed
  then have "drop 4 (take (4 + length r) (drop i (rs_mem rs))) = r" by (simp add: frame_def word_bytes_def)
  ultimately show ?thesis by (simp add: record_bytes_def at_simps drop_take add.commute)
qed

section \<open>Reading\<close>

lemma move_remainder_ok:
  assumes "rs_ok rs i j"
  shows "\<exists>rs'. move_remainder rs = Some rs' \<and> rs_ok rs' 0 (j - i) \<and> held rs' 0 (j - i) = held rs i j \<and>
    maxRecordLen rs' = maxRecordLen rs \<and> rs_buffer rs' = rs_buffer rs"
proof -
  note o = assms [unfolded rs_ok_def placed_low_def]
  have u: "unat (of_nat k :: u32) = k" if "k \<le> unat (maxRecordLen rs) + 4" for k
    using o that by (auto simp: word_le_nat_alt intro!: unat_of_nat_lt)
  show ?thesis
  proof (cases "i = 0")
    case True
    then show ?thesis using assms by (auto simp: move_remainder_def rs_ok_def at_simps)
  next
    case False
    then have "unconsumed rs \<noteq> rs_buffer rs" using o u [of i] by (auto simp: at_def)
    moreover have "read_end rs - unconsumed rs = of_nat (j - i)" "unat (unconsumed rs - rs_buffer rs) = i" "unat (of_nat (j - i) :: u32) = j - i"
      using o u [of i] u [of "j - i"] by (auto simp: at_simps)
    moreover have "\<not> length (rs_mem rs) < i + (j - i)" using o by auto
    ultimately show ?thesis using o
      by (auto simp: move_remainder_def rs_ok_def placed_low_def Let_def at_def held_def)
  qed
qed

text \<open>The reads and their bytes that are still to come.\<close>

definition src_ok :: "u8 list option list \<Rightarrow> bool" where
  "src_ok src \<longleftrightarrow> Some [] \<notin> set src"

definition src_bytes :: "u8 list option list \<Rightarrow> u8 list" where
  "src_bytes src = concat (map (\<lambda>c. case c of None \<Rightarrow> [] | Some d \<Rightarrow> d) src)"

lemma sys_read_cases:
  assumes "src_ok src" "0 < n"
  shows "case sys_read n src of
      (None, src') \<Rightarrow> src_ok src' \<and> src_bytes src' = src_bytes src \<and> length src' < length src
    | (Some d, src') \<Rightarrow> src_ok src' \<and> d @ src_bytes src' = src_bytes src \<and> length d \<le> n \<and> length src' \<le> length src \<and>
        (d = [] \<longrightarrow> src_bytes src = [] \<and> src = [])"
  using assms by (cases "(n, src)" rule: sys_read.cases) (auto simp: src_ok_def src_bytes_def)

lemma filled_ok:
  assumes ok: "rs_ok rs 0 j" and d: "j + length d \<le> unat (maxRecordLen rs) + 4"
  defines "rs' \<equiv> rs\<lparr>rs_mem := take j (rs_mem rs) @ d @ drop (j + length d) (rs_mem rs), read_end := read_end rs + of_nat (length d)\<rparr>"
  shows "rs_ok rs' 0 (j + length d)" "held rs' 0 (j + length d) = held rs 0 j @ d"
    "maxRecordLen rs' = maxRecordLen rs" "rs_buffer rs' = rs_buffer rs"
proof -
  have l: "length (rs_mem rs) = unat (maxRecordLen rs) + 4" using ok by (simp add: rs_ok_def)
  show "rs_ok rs' 0 (j + length d)" using ok d by (auto simp: rs_ok_def rs'_def at_def)
  show "held rs' 0 (j + length d) = held rs 0 j @ d" using l d by (simp add: held_def rs'_def)
qed (simp_all add: rs'_def)

text \<open>What a call does when it has to read.\<close>

definition read_result :: "RecordStream \<Rightarrow> nat \<Rightarrow> u8 list \<Rightarrow> u8 list option list \<Rightarrow> (outcome \<times> RecordStream \<times> u8 list option list) option" where
  "read_result rs j d src =
     (if d = [] then Some (End_Of_Stream, rs, src)
      else if length (rs_mem rs) < j + length d then None
      else case getNextRecord (rs\<lparr>rs_mem := take j (rs_mem rs) @ d @ drop (j + length d) (rs_mem rs),
                  read_end := read_end rs + of_nat (length d)\<rparr>) of
        None \<Rightarrow> None
      | Some (None, rs) \<Rightarrow> Some (Again, rs, src)
      | Some (Some (start, len), rs) \<Rightarrow> Some (Record start len, rs, src))"

lemma get_next_reads:
  assumes ok: "rs_ok rs i j" and none: "getNextRecord rs = Some (None, rs)" and room: "j - i < unat (maxRecordLen rs) + 4"
  obtains rs' where "rs_ok rs' 0 (j - i)" "held rs' 0 (j - i) = held rs i j" "maxRecordLen rs' = maxRecordLen rs"
    "record_stream_get_next rs src =
      (case sys_read (unat (maxRecordLen rs) + 4 - (j - i)) src of
         (None, src) \<Rightarrow> Some (Read_Error, rs', src)
       | (Some d, src) \<Rightarrow> read_result rs' (j - i) d src)"
proof -
  obtain rs' where rs': "move_remainder rs = Some rs'" "rs_ok rs' 0 (j - i)" "held rs' 0 (j - i) = held rs i j"
      "maxRecordLen rs' = maxRecordLen rs" "rs_buffer rs' = rs_buffer rs"
    using move_remainder_ok [OF ok] by blast
  have a: "at rs k = at rs l \<longleftrightarrow> k = l" if "k \<le> unat (maxRecordLen rs) + 4" "l \<le> unat (maxRecordLen rs) + 4" for k l
    using ok that by (auto simp: rs_ok_def word_unat_eq_iff unat_at)
  have full: "\<not> (unconsumed rs = rs_buffer rs \<and> read_end rs = buffer_end rs)"
    using ok room a [of i 0] a [of j "unat (maxRecordLen rs) + 4"] by (auto simp: rs_ok_def at_simps)
  note o = rs'(2) [unfolded rs_ok_def placed_low_def]
  have u: "unat (of_nat k :: u32) = k" if "k \<le> unat (maxRecordLen rs) + 4" for k
    using o that rs'(4) by (auto simp: word_le_nat_alt intro!: unat_of_nat_lt)
  have n: "unat (buffer_end rs' - read_end rs') = unat (maxRecordLen rs) + 4 - (j - i)"
    using o rs'(4) u [of "unat (maxRecordLen rs) + 4 - (j - i)"] by (simp add: at_simps)
  have m: "unat (read_end rs' - rs_buffer rs') = j - i" using o u [of "j - i"] rs'(4) by (simp add: at_simps)
  show thesis
    by (rule that [OF rs'(2,3,4)])
      (simp only: record_stream_get_next_def none option.case prod.case full if_False rs'(1) Let_def n m read_result_def)
qed

text \<open>One call with a record ahead.\<close>

definition next_step :: "RecordStream \<Rightarrow> u8 list option list \<Rightarrow> u8 list \<Rightarrow> u8 list \<Rightarrow> outcome \<Rightarrow> RecordStream \<Rightarrow> u8 list option list \<Rightarrow> bool" where
  "next_step rs src r ys out rs' src' \<longleftrightarrow>
     src_ok src' \<and> maxRecordLen rs' = maxRecordLen rs \<and>
     ((\<exists>i j start len. out = Record start len \<and> record_bytes rs' start len = r \<and> rs_ok rs' i j \<and> held rs' i j @ src_bytes src' = ys \<and>
         length (src_bytes src') + length src' \<le> length (src_bytes src) + length src) \<or>
      (\<exists>i j. (out = Again \<or> out = Read_Error) \<and> rs_ok rs' i j \<and> held rs' i j @ src_bytes src' = frame r @ ys \<and>
         length (src_bytes src') + length src' < length (src_bytes src) + length src))"

lemma next_step_record:
  assumes "rs_ok rs i j" "held rs i j @ src_bytes src' = frame r @ ys" "length r \<le> unat (maxRecordLen rs)" "4 + length r \<le> j - i"
    and "src_ok src'" "length (src_bytes src') + length src' \<le> length (src_bytes src) + length src" "maxRecordLen rs0 = maxRecordLen rs"
  shows "next_step rs0 src r ys (Record (at rs (i + 4)) (of_nat (length r))) (rs\<lparr>unconsumed := at rs (i + 4 + length r)\<rparr>) src'"
proof -
  have k: "rs_ok (rs\<lparr>unconsumed := at rs (i + (4 + length r))\<rparr>) (i + (4 + length r)) j"
    "held (rs\<lparr>unconsumed := at rs (i + (4 + length r))\<rparr>) (i + (4 + length r)) j = drop (4 + length r) (held rs i j)"
    using rs_ok_consumed [OF assms(1,4)] by simp_all
  have "drop (4 + length r) (held rs i j) @ src_bytes src' = drop (4 + length r) (frame r @ ys)"
    unfolding assms(2) [symmetric] using assms(4) held_length [OF assms(1)] by simp
  also have "\<dots> = ys" by (simp add: frame_length)
  finally have "held (rs\<lparr>unconsumed := at rs (i + (4 + length r))\<rparr>) (i + (4 + length r)) j @ src_bytes src' = ys" using k(2) by simp
  with k(1) record_bytes_frame [OF assms(1,2,4,3)] assms(5-7) show ?thesis
    by (auto simp: next_step_def record_bytes_def add.assoc)
qed

lemma read_result_step:
  assumes ok: "rs_ok rs' 0 k" and b: "held rs' 0 k @ d @ src_bytes src' = frame r @ ys" and r: "length r \<le> unat (maxRecordLen rs')"
    and d: "k + length d \<le> unat (maxRecordLen rs') + 4" "d \<noteq> []"
    and src: "src_ok src'" "d @ src_bytes src' = src_bytes src" "length src' \<le> length src" and m: "maxRecordLen rs' = maxRecordLen rs"
  shows "\<exists>out rs'' src''. read_result rs' k d src' = Some (out, rs'', src'') \<and> next_step rs src r ys out rs'' src''"
proof -
  let ?rs = "rs'\<lparr>rs_mem := take k (rs_mem rs') @ d @ drop (k + length d) (rs_mem rs'), read_end := read_end rs' + of_nat (length d)\<rparr>"
  note f = filled_ok [OF ok d(1)]
  have b': "held ?rs 0 (k + length d) @ src_bytes src' = frame r @ ys" using f(2) b by simp
  have r': "length r \<le> unat (maxRecordLen ?rs)" using r by simp
  have l: "\<not> length (rs_mem rs') < k + length d" using ok d(1) by (simp add: rs_ok_def)
  have less: "length (src_bytes src') + length src' < length (src_bytes src) + length src"
    unfolding src(2) [symmetric] using src(3) d(2) by (auto simp: neq_Nil_conv)
  show ?thesis
  proof (cases "4 + length r \<le> k + length d - 0")
    case True
    with getNextRecord_frame [OF f(1) b' r'] next_step_record [OF f(1) b' r' True src(1), of src rs] show ?thesis
      using less l d(2) m by (simp add: read_result_def)
  next
    case False
    with getNextRecord_frame [OF f(1) b' r'] have "read_result rs' k d src' = Some (Again, ?rs, src')"
      using l d(2) by (simp add: read_result_def)
    moreover have "next_step rs src r ys Again ?rs src'"
      unfolding next_step_def using f(1) b' less src(1) m by auto
    ultimately show ?thesis by blast
  qed
qed

lemma get_next_step:
  assumes ok: "rs_ok rs i j" and src: "src_ok src" and b: "held rs i j @ src_bytes src = frame r @ ys" and r: "length r \<le> unat (maxRecordLen rs)"
  shows "\<exists>out rs' src'. record_stream_get_next rs src = Some (out, rs', src') \<and> next_step rs src r ys out rs' src'"
proof (cases "4 + length r \<le> j - i")
  case True
  then show ?thesis using getNextRecord_frame [OF ok b r] next_step_record [OF ok b r True src, of src rs]
    by (simp add: record_stream_get_next_def)
next
  case False
  with getNextRecord_frame [OF ok b r] have none: "getNextRecord rs = Some (None, rs)" by simp
  have room: "j - i < unat (maxRecordLen rs) + 4" using False r by linarith
  have more: "src_bytes src \<noteq> []"
    using arg_cong [OF b, of length] held_length [OF ok] False by (auto simp: frame_length)
  obtain rs' where rs': "rs_ok rs' 0 (j - i)" "held rs' 0 (j - i) = held rs i j" "maxRecordLen rs' = maxRecordLen rs"
    and get: "record_stream_get_next rs src =
      (case sys_read (unat (maxRecordLen rs) + 4 - (j - i)) src of
         (None, src) \<Rightarrow> Some (Read_Error, rs', src) | (Some d, src) \<Rightarrow> read_result rs' (j - i) d src)"
    using get_next_reads [OF ok none room, of src] by blast
  obtain res src' where p: "sys_read (unat (maxRecordLen rs) + 4 - (j - i)) src = (res, src')" by fastforce
  note rd = sys_read_cases [OF src, of "unat (maxRecordLen rs) + 4 - (j - i)", unfolded p prod.case]
  show ?thesis
  proof (cases res)
    case None
    then have "next_step rs src r ys Read_Error rs' src'"
      unfolding next_step_def using rd rs' b room by (intro conjI disjI2 exI [of _ 0] exI [of _ "j - i"]) auto
    then show ?thesis using get None p by simp
  next
    case (Some d)
    then have d: "src_ok src'" "d @ src_bytes src' = src_bytes src" "j - i + length d \<le> unat (maxRecordLen rs') + 4" "length src' \<le> length src" "d \<noteq> []"
      using rd room more rs'(3) by auto
    have "\<exists>out rs'' src''. read_result rs' (j - i) d src' = Some (out, rs'', src'') \<and> next_step rs src r ys out rs'' src''"
      by (rule read_result_step [OF rs'(1) _ _ d(3,5,1,2,4) rs'(3)]) (use rs' d(2) b r in simp_all)
    then show ?thesis using get Some p by simp
  qed
qed

text \<open>One call when all records have been handed out.\<close>

lemma get_next_end:
  assumes ok: "rs_ok rs i i" and src: "src_ok src" "src_bytes src = []"
  shows "\<exists>rs'. rs_ok rs' 0 0 \<and> maxRecordLen rs' = maxRecordLen rs \<and>
    record_stream_get_next rs src = Some (if src = [] then (End_Of_Stream, rs', []) else (Read_Error, rs', tl src))"
proof -
  obtain rs' where "rs_ok rs' 0 (i - i)" "maxRecordLen rs' = maxRecordLen rs"
    and "record_stream_get_next rs src =
      (case sys_read (unat (maxRecordLen rs) + 4 - (i - i)) src of
         (None, src) \<Rightarrow> Some (Read_Error, rs', src) | (Some d, src) \<Rightarrow> read_result rs' (i - i) d src)"
    using get_next_reads [OF ok getNextRecord_empty [OF ok], of src] by auto
  then show ?thesis using src
    by (cases "(0::nat, src)" rule: sys_read.cases) (auto simp: read_result_def src_ok_def src_bytes_def)
qed

section \<open>A stream of records\<close>

text \<open>The records a client sees that calls \<^verbatim>\<open>record_stream_get_next\<close> until the end of the stream and ignores errors; \<open>n\<close> bounds the
  number of calls.\<close>

fun drain :: "nat \<Rightarrow> RecordStream \<Rightarrow> u8 list option list \<Rightarrow> u8 list list option" where
  "drain 0 rs src = None"
| "drain (Suc n) rs src =
     (case record_stream_get_next rs src of
        None \<Rightarrow> None
      | Some (Record start len, rs, src) \<Rightarrow> map_option ((#) (record_bytes rs start len)) (drain n rs src)
      | Some (End_Of_Stream, rs, src) \<Rightarrow> Some []
      | Some (_, rs, src) \<Rightarrow> drain n rs src)"

lemma drain_end: "rs_ok rs i i \<Longrightarrow> src_ok src \<Longrightarrow> src_bytes src = [] \<Longrightarrow> length src < n \<Longrightarrow> drain n rs src = Some []"
proof (induction n arbitrary: rs src i)
  case (Suc n)
  obtain rs' where rs': "rs_ok rs' 0 0"
      "record_stream_get_next rs src = Some (if src = [] then (End_Of_Stream, rs', []) else (Read_Error, rs', tl src))"
    using get_next_end [OF Suc.prems(1-3)] by blast
  show ?case
  proof (cases src)
    case (Cons c src')
    then have "src_ok src'" "src_bytes src' = []" using Suc.prems(2,3) by (auto simp: src_ok_def src_bytes_def)
    with Cons rs' Suc.IH [OF rs'(1), of src'] Suc.prems(4) show ?thesis by simp
  qed (use rs' in simp)
qed simp

lemma drain_records:
  assumes "rs_ok rs i j" "src_ok src" "held rs i j @ src_bytes src = concat (map frame recs)"
    and "\<forall>r \<in> set recs. length r \<le> unat (maxRecordLen rs)"
    and "length recs + length (src_bytes src) + length src < n"
  shows "drain n rs src = Some recs"
  using assms
proof (induction n arbitrary: rs src i j recs)
  case (Suc n)
  show ?case
  proof (cases recs)
    case Nil
    then have "i = j" "src_bytes src = []" using Suc.prems(1,3) held_length [OF Suc.prems(1)] by (auto simp: rs_ok_def)
    with Suc.prems show ?thesis using drain_end [of rs i src "Suc n"] Nil by simp
  next
    case (Cons r recs')
    then obtain out rs' src' where g: "record_stream_get_next rs src = Some (out, rs', src')"
      "next_step rs src r (concat (map frame recs')) out rs' src'"
      using get_next_step [OF Suc.prems(1,2), of r "concat (map frame recs')"] Suc.prems(3,4) by auto
    from g(2) show ?thesis unfolding next_step_def
    proof (elim conjE disjE exE, goal_cases)
      case (1 i' j' start len)
      then show ?thesis using Suc.IH [of rs' i' j' src' recs'] Suc.prems(4,5) g(1) Cons by simp
    next
      case (2 i' j')
      then show ?thesis using Suc.IH [of rs' i' j' src' recs] Suc.prems(4,5) g(1) Cons by simp
    next
      case (3 i' j')
      then show ?thesis using Suc.IH [of rs' i' j' src' recs] Suc.prems(4,5) g(1) Cons by simp
    qed
  qed
qed simp

lemma new_ok:
  assumes "placed_low addr maxLen" "length block = unat maxLen + 4"
  shows "\<exists>rs. record_stream_new addr block maxLen = Some rs \<and> rs_ok rs 0 0 \<and> maxRecordLen rs = maxLen"
proof -
  have "unat (maxLen + 4) = unat maxLen + 4" using assms(1) by (simp add: placed_low_def unat_word_ariths)
  with assms show ?thesis
    by (simp add: record_stream_new_def rs_ok_def at_def HEADER_SIZE_def placed_low_def add.assoc)
qed

text \<open>C18: Records.  Records of at most \<^verbatim>\<open>maxRecordLen\<close> bytes, each sent with its length in front, arrive complete, in order and
  followed by the end of the stream, however the bytes are cut into reads and whichever reads fail; the client needs at most
  one call for each record, byte and read, and the buffer is never left.\<close>

theorem record_stream_delivers:
  assumes "placed_low addr maxLen" "length block = unat maxLen + 4"
    and "\<forall>r \<in> set recs. length r \<le> unat maxLen" "src_ok src" "src_bytes src = concat (map frame recs)"
  shows "\<exists>rs. record_stream_new addr block maxLen = Some rs \<and>
    drain (length recs + length (src_bytes src) + length src + 1) rs src = Some recs"
proof -
  obtain rs where rs: "record_stream_new addr block maxLen = Some rs" "rs_ok rs 0 0" "maxRecordLen rs = maxLen"
    using new_ok [OF assms(1,2)] by blast
  have "drain (length recs + length (src_bytes src) + length src + 1) rs src = Some recs"
    by (rule drain_records [OF rs(2) assms(4)]) (use assms rs in \<open>simp_all add: held_def\<close>)
  with rs(1) show ?thesis by blast
qed

theorem record_stream_delivers_witness:
  "\<exists>rs. record_stream_new 0x8000 (replicate 8 0) 4 = Some rs \<and>
     drain 17 rs [Some [0, 0], None, Some [0, 2, 7], Some [8, 0, 0, 0, 0]] = Some [[7, 8], []]"
proof -
  have "[0, 0, 0, 2, 7, 8, 0, 0, 0, 0] = concat (map frame [[7, 8], []])" by (simp add: frame_def word_bytes_def)
  then show ?thesis
    using record_stream_delivers [of "0x8000" 4 "replicate 8 0" "[[7, 8], []]" "[Some [0, 0], None, Some [0, 2, 7], Some [8, 0, 0, 0, 0]]"]
    by (simp add: placed_low_def src_ok_def src_bytes_def frame_length del: drain.simps)
qed

text \<open>A length may wrap around.  A header that claims so many bytes that the end of the record passes the end of the address
  space is taken for a complete record: the call returns a record of the claimed length, far beyond the buffer, and moves
  the read position back in front of the record, where the same bytes are found again.\<close>

lemma record_length_wraps:
  assumes "rs_ok rs i j" "4 \<le> j - i" "take 4 (held rs i j) = word_bytes len" "2 ^ 32 \<le> i + 4 + unat len"
  shows "\<exists>rs'. record_stream_get_next rs src = Some (Record (at rs (i + 4)) len, rs', src) \<and> unat (maxRecordLen rs) < unat len \<and>
    unconsumed rs' = at rs (i + 4 + unat len - 2 ^ 32) \<and> i + 4 + unat len - 2 ^ 32 < i + 4"
proof -
  note o = assms(1) [unfolded rs_ok_def]
  define k where "k = i + 4 + unat len - 2 ^ 32"
  have len: "unat len < 2 ^ 32" using unsigned_less [of len, where 'a = nat] by simp
  then have k: "k < i + 4" "k \<le> j" using assms(2,4) by (auto simp: k_def)
  have h: "at rs i + HEADER_SIZE = at rs (i + 4)" using at_simps(1) [of rs i 4] by (simp add: HEADER_SIZE_def)
  have "(of_nat (i + 4) + len :: u32) = of_nat (i + 4 + unat len)" by (simp only: of_nat_add of_nat_unat ucast_id)
  also have "i + 4 + unat len = k + 2 ^ 32" using assms(4) by (simp add: k_def)
  also have "(of_nat (k + 2 ^ 32) :: u32) = of_nat k" by (simp only: of_nat_add) simp
  finally have e: "at rs (i + 4) + len = at rs k" by (simp only: at_def add.assoc)
  have "at rs k \<noteq> 0" "\<not> at rs j < at rs k" "\<not> at rs j < at rs (i + 4)"
    using o k assms(2) unat_at [of rs k] unat_at [of rs j] unat_at [of rs "i + 4"]
    by (auto simp: word_less_nat_alt placed_low_def unat_eq_0 [symmetric])
  moreover have "at rs k - at rs (i + 4) = len" using e by (simp add: algebra_simps)
  ultimately have "record_stream_get_next rs src = Some (Record (at rs (i + 4)) len, rs\<lparr>unconsumed := at rs k\<rparr>, src)"
    using load32_held [OF assms(1-3)] o
    by (simp add: record_stream_get_next_def getNextRecord_def getEndOfRecord_def h e Let_def)
  moreover have "unat (maxRecordLen rs) < unat len" using o assms(2,4) by (auto simp: placed_low_def word_le_nat_alt)
  ultimately show ?thesis using k(1) unfolding k_def by (intro exI [of _ "rs\<lparr>unconsumed := at rs (i + 4 + unat len - 2 ^ 32)\<rparr>"]) simp
qed

end
