(* ===== verification/Sparse_Crc.thy ===== *)
theory Sparse_Crc
  imports Prelude
begin

text \<open>
  The checksum of sparse images: \<^verbatim>\<open>src/extras/ext4_utils/sparse_crc32.c\<close>, and its equivalence with the division by the
  polynomial of CRC-32 one bit at a time.
\<close>

section \<open>The model\<close>

definition crc32_tab :: "u32 list" where
  "crc32_tab =
  [0x00000000, 0x77073096, 0xee0e612c, 0x990951ba, 0x076dc419, 0x706af48f, 0xe963a535, 0x9e6495a3,
   0x0edb8832, 0x79dcb8a4, 0xe0d5e91e, 0x97d2d988, 0x09b64c2b, 0x7eb17cbd, 0xe7b82d07, 0x90bf1d91,
   0x1db71064, 0x6ab020f2, 0xf3b97148, 0x84be41de, 0x1adad47d, 0x6ddde4eb, 0xf4d4b551, 0x83d385c7,
   0x136c9856, 0x646ba8c0, 0xfd62f97a, 0x8a65c9ec, 0x14015c4f, 0x63066cd9, 0xfa0f3d63, 0x8d080df5,
   0x3b6e20c8, 0x4c69105e, 0xd56041e4, 0xa2677172, 0x3c03e4d1, 0x4b04d447, 0xd20d85fd, 0xa50ab56b,
   0x35b5a8fa, 0x42b2986c, 0xdbbbc9d6, 0xacbcf940, 0x32d86ce3, 0x45df5c75, 0xdcd60dcf, 0xabd13d59,
   0x26d930ac, 0x51de003a, 0xc8d75180, 0xbfd06116, 0x21b4f4b5, 0x56b3c423, 0xcfba9599, 0xb8bda50f,
   0x2802b89e, 0x5f058808, 0xc60cd9b2, 0xb10be924, 0x2f6f7c87, 0x58684c11, 0xc1611dab, 0xb6662d3d,
   0x76dc4190, 0x01db7106, 0x98d220bc, 0xefd5102a, 0x71b18589, 0x06b6b51f, 0x9fbfe4a5, 0xe8b8d433,
   0x7807c9a2, 0x0f00f934, 0x9609a88e, 0xe10e9818, 0x7f6a0dbb, 0x086d3d2d, 0x91646c97, 0xe6635c01,
   0x6b6b51f4, 0x1c6c6162, 0x856530d8, 0xf262004e, 0x6c0695ed, 0x1b01a57b, 0x8208f4c1, 0xf50fc457,
   0x65b0d9c6, 0x12b7e950, 0x8bbeb8ea, 0xfcb9887c, 0x62dd1ddf, 0x15da2d49, 0x8cd37cf3, 0xfbd44c65,
   0x4db26158, 0x3ab551ce, 0xa3bc0074, 0xd4bb30e2, 0x4adfa541, 0x3dd895d7, 0xa4d1c46d, 0xd3d6f4fb,
   0x4369e96a, 0x346ed9fc, 0xad678846, 0xda60b8d0, 0x44042d73, 0x33031de5, 0xaa0a4c5f, 0xdd0d7cc9,
   0x5005713c, 0x270241aa, 0xbe0b1010, 0xc90c2086, 0x5768b525, 0x206f85b3, 0xb966d409, 0xce61e49f,
   0x5edef90e, 0x29d9c998, 0xb0d09822, 0xc7d7a8b4, 0x59b33d17, 0x2eb40d81, 0xb7bd5c3b, 0xc0ba6cad,
   0xedb88320, 0x9abfb3b6, 0x03b6e20c, 0x74b1d29a, 0xead54739, 0x9dd277af, 0x04db2615, 0x73dc1683,
   0xe3630b12, 0x94643b84, 0x0d6d6a3e, 0x7a6a5aa8, 0xe40ecf0b, 0x9309ff9d, 0x0a00ae27, 0x7d079eb1,
   0xf00f9344, 0x8708a3d2, 0x1e01f268, 0x6906c2fe, 0xf762575d, 0x806567cb, 0x196c3671, 0x6e6b06e7,
   0xfed41b76, 0x89d32be0, 0x10da7a5a, 0x67dd4acc, 0xf9b9df6f, 0x8ebeeff9, 0x17b7be43, 0x60b08ed5,
   0xd6d6a3e8, 0xa1d1937e, 0x38d8c2c4, 0x4fdff252, 0xd1bb67f1, 0xa6bc5767, 0x3fb506dd, 0x48b2364b,
   0xd80d2bda, 0xaf0a1b4c, 0x36034af6, 0x41047a60, 0xdf60efc3, 0xa867df55, 0x316e8eef, 0x4669be79,
   0xcb61b38c, 0xbc66831a, 0x256fd2a0, 0x5268e236, 0xcc0c7795, 0xbb0b4703, 0x220216b9, 0x5505262f,
   0xc5ba3bbe, 0xb2bd0b28, 0x2bb45a92, 0x5cb36a04, 0xc2d7ffa7, 0xb5d0cf31, 0x2cd99e8b, 0x5bdeae1d,
   0x9b64c2b0, 0xec63f226, 0x756aa39c, 0x026d930a, 0x9c0906a9, 0xeb0e363f, 0x72076785, 0x05005713,
   0x95bf4a82, 0xe2b87a14, 0x7bb12bae, 0x0cb61b38, 0x92d28e9b, 0xe5d5be0d, 0x7cdcefb7, 0x0bdbdf21,
   0x86d3d2d4, 0xf1d4e242, 0x68ddb3f8, 0x1fda836e, 0x81be16cd, 0xf6b9265b, 0x6fb077e1, 0x18b74777,
   0x88085ae6, 0xff0f6a70, 0x66063bca, 0x11010b5c, 0x8f659eff, 0xf862ae69, 0x616bffd3, 0x166ccf45,
   0xa00ae278, 0xd70dd2ee, 0x4e048354, 0x3903b3c2, 0xa7672661, 0xd06016f7, 0x4969474d, 0x3e6e77db,
   0xaed16a4a, 0xd9d65adc, 0x40df0b66, 0x37d83bf0, 0xa9bcae53, 0xdebb9ec5, 0x47b2cf7f, 0x30b5ffe9,
   0xbdbdf21c, 0xcabac28a, 0x53b39330, 0x24b4a3a6, 0xbad03605, 0xcdd70693, 0x54de5729, 0x23d967bf,
   0xb3667a2e, 0xc4614ab8, 0x5d681b02, 0x2a6f2b94, 0xb40bbe37, 0xc30c8ea1, 0x5a05df1b, 0x2d02ef8d]"

definition crc_step :: "u32 \<Rightarrow> u8 \<Rightarrow> u32" where
  "crc_step crc b = crc32_tab ! unat ((crc XOR ucast b) AND 0xFF) XOR drop_bit 8 crc"

definition sparse_crc32 :: "u32 \<Rightarrow> u8 list \<Rightarrow> u32" where
  "sparse_crc32 crc_in buf = foldl crc_step (crc_in XOR NOT 0) buf XOR NOT 0"

section \<open>Division by the polynomial\<close>

text \<open>The polynomial with the highest term in the lowest bit, as the comment in the source describes it.\<close>

definition crc_bit :: "u32 \<Rightarrow> u32" where
  "crc_bit c = (if bit c 0 then drop_bit 1 c XOR 0xedb88320 else drop_bit 1 c)"

definition crc_byte :: "u32 \<Rightarrow> u8 \<Rightarrow> u32" where
  "crc_byte c b = (crc_bit ^^ 8) (c XOR ucast b)"

definition crc32_spec :: "u32 \<Rightarrow> u8 list \<Rightarrow> u32" where
  "crc32_spec c m = NOT (foldl crc_byte (NOT c) m)"

lemma crc_bit_xor: "crc_bit (x XOR y) = crc_bit x XOR crc_bit y"
  by (auto simp: crc_bit_def bit_xor_iff xor.assoc xor.left_commute xor.commute)

lemma crc_bits_xor: "(crc_bit ^^ n) (x XOR y) = (crc_bit ^^ n) x XOR (crc_bit ^^ n) y"
  by (induction n) (simp_all add: crc_bit_xor)

text \<open>The table from the entries at the powers of two.\<close>

fun table_of :: "u32 list \<Rightarrow> u32 list" where
  "table_of [] = [0]"
| "table_of (b # bs) = (let t = table_of bs in t @ map (\<lambda>v. v XOR b) t)"

lemma of_nat_xor: "i < 2 ^ k \<Longrightarrow> of_nat i + 2 ^ k = (of_nat i XOR 2 ^ k :: u32)"
proof -
  assume "i < 2 ^ k"
  then have "take_bit k i = i" by (simp add: take_bit_nat_eq_self)
  then have "bit i n \<Longrightarrow> n < k" for n by (metis bit_take_bit_iff)
  then have "of_nat i AND (2 ^ k :: u32) = 0"
    by (intro bit_word_eqI) (auto simp: bit_simps bit_exp_iff bit_of_nat_iff_bit)
  then show ?thesis by (metis disjunctive_xor_eq_or disjunctive_add_eq_or)
qed

lemma table_of_powers:
  "table_of (rev (map (\<lambda>k. (crc_bit ^^ 8) (of_nat (2 ^ k))) [0..<n])) = map (\<lambda>i. (crc_bit ^^ 8) (of_nat i)) [0..<2 ^ n]"
proof (induction n)
  case 0
  have "(crc_bit ^^ m) 0 = 0" for m by (induction m) (simp_all add: crc_bit_def)
  then show ?case by simp
next
  case (Suc n)
  have "[0..<2 ^ Suc n] = [0..<2 ^ n] @ map (\<lambda>i. i + 2 ^ n) [0..<(2::nat) ^ n]"
    by (simp add: map_add_upt upt_add_eq_append [of 0 "2 ^ n" "2 ^ n"] mult_2)
  then show ?case using Suc by (auto simp: Let_def crc_bits_xor of_nat_xor)
qed

lemma table_powers:
  "rev (map (\<lambda>k. (crc_bit ^^ 8) (of_nat (2 ^ k))) [0..<8]) = rev [0x77073096, 0xee0e612c, 0x076dc419, 0x0edb8832, 0x1db71064, 0x3b6e20c8, 0x76dc4190, 0xedb88320]"
  by code_simp

lemma table_eq: "crc32_tab = table_of (rev [0x77073096, 0xee0e612c, 0x076dc419, 0x0edb8832, 0x1db71064, 0x3b6e20c8, 0x76dc4190, 0xedb88320])"
  unfolding crc32_tab_def by simp

lemma table_entries: "crc32_tab = map (\<lambda>i. (crc_bit ^^ 8) (of_nat i)) [0..<256]"
  using table_of_powers [of 8] unfolding table_powers table_eq by simp

lemma crc_bit_shift: "n < 8 \<Longrightarrow> crc_bit (push_bit (Suc n) (drop_bit 8 x)) = push_bit n (drop_bit 8 x)"
proof -
  assume n: "n < 8"
  have "\<not> bit (push_bit (Suc n) (drop_bit 8 x)) 0" by (simp only: bit_push_bit_iff) simp
  then have "crc_bit (push_bit (Suc n) (drop_bit 8 x)) = drop_bit 1 (push_bit (Suc n) (drop_bit 8 x))"
    by (simp only: crc_bit_def if_False)
  also have "\<dots> = push_bit n (drop_bit 8 x)"
  proof (rule bit_word_eqI)
    fix m assume "m < LENGTH(32)"
    then show "bit (drop_bit 1 (push_bit (Suc n) (drop_bit 8 x))) m = bit (push_bit n (drop_bit 8 x)) m"
      using n unfolding bit_drop_bit_eq bit_push_bit_iff by (auto dest: bit_imp_le_length)
  qed
  finally show ?thesis .
qed

lemma crc_bits_shift: "n \<le> 8 \<Longrightarrow> (crc_bit ^^ n) (push_bit n (drop_bit 8 x)) = drop_bit 8 x"
proof (induction n)
  case (Suc n)
  then show ?case by (simp only: funpow_Suc_right o_apply crc_bit_shift Suc_le_eq less_imp_le)
qed simp

lemma low_byte: "x AND 0xFF = take_bit 8 (x :: u32)"
proof -
  have "(0xFF :: u32) = mask 8" by (simp add: mask_eq_exp_minus_1)
  then show ?thesis by (simp only: take_bit_eq_mask)
qed

lemma high_bytes: "drop_bit 8 (c XOR ucast (b :: u8)) = drop_bit 8 (c :: u32)"
  by (rule bit_word_eqI) (auto simp: bit_simps dest: bit_imp_le_length)

lemma crc_step_byte: "crc_step c b = crc_byte c b"
proof -
  define x where "x = c XOR ucast b"
  have "unat (take_bit 8 x) = unat x mod 2 ^ 8" by (subst unsigned_take_bit_eq) (simp only: take_bit_eq_mod)
  then have "unat (take_bit 8 x) < 256" by simp
  then have t: "crc32_tab ! unat (take_bit 8 x) = (crc_bit ^^ 8) (take_bit 8 x)"
    by (simp add: table_entries)
  have "x = take_bit 8 x XOR push_bit 8 (drop_bit 8 x)" by (rule bit_word_eqI) (auto simp: bit_simps)
  then have "(crc_bit ^^ 8) x = (crc_bit ^^ 8) (take_bit 8 x) XOR drop_bit 8 x"
    using crc_bits_xor [of 8 "take_bit 8 x" "push_bit 8 (drop_bit 8 x)"] crc_bits_shift [of 8 x] by simp
  moreover have "drop_bit 8 x = drop_bit 8 c" unfolding x_def by (rule high_bytes)
  ultimately show ?thesis unfolding crc_step_def crc_byte_def low_byte x_def [symmetric] t by (simp only:)
qed

text \<open>The checksum of a message can be computed in pieces.\<close>

lemma sparse_crc32_append: "sparse_crc32 (sparse_crc32 c xs) ys = sparse_crc32 c (xs @ ys)"
  by (simp add: sparse_crc32_def)

text \<open>C22: The checksum.  The table driven \<^verbatim>\<open>sparse_crc32\<close> computes the remainder of the division of the message by the CRC-32
  polynomial, one bit at a time, and checksums of the pieces of a message add up.\<close>

theorem sparse_crc32_is_crc32:
  "sparse_crc32 c m = crc32_spec c m \<and> sparse_crc32 (sparse_crc32 c m) m' = crc32_spec c (m @ m')"
proof -
  have "crc_step = crc_byte" by (intro ext) (rule crc_step_byte)
  then have "sparse_crc32 d k = crc32_spec d k" for d k by (simp add: sparse_crc32_def crc32_spec_def)
  with sparse_crc32_append [of c m m'] show ?thesis by (simp only:)
qed

end
