(* ===== verification/Backed_Block.thy ===== *)
theory Backed_Block
  imports Prelude "HOL-Library.Multiset"
begin

text \<open>
  The queue of blocks that an image consists of: \<^verbatim>\<open>src/extras/ext4_utils/backed_block.c\<close>.  The nodes of the linked list live in
  a heap, a pointer is an index into it.  The bytes of a block of memory stay behind the pointer \<^verbatim>\<open>data\<close> until they are
  written.  \<open>None\<close> stands for a call that does not return: a loop without end, or the exit after a failed allocation.
\<close>

section \<open>The model\<close>

record data_block =
  db_block :: u32
  db_len :: u32
  db_data :: nat
  db_filename :: "string option"
  db_offset :: nat
  db_next :: "nat option"

record block_queue =
  bq_heap :: "data_block list"
  data_blocks :: "nat option"
  last_used :: "nat option"

text \<open>The loop that looks for the node after which the new one belongs.\<close>

partial_function (option) find_place :: "data_block list \<Rightarrow> u32 \<Rightarrow> nat \<Rightarrow> nat option" where
  "find_place h b db =
     (case db_next (h ! db) of
        None \<Rightarrow> Some db
      | Some n \<Rightarrow> if db_block (h ! n) < b then find_place h b n else Some db)"

definition set_next :: "nat \<Rightarrow> nat option \<Rightarrow> data_block list \<Rightarrow> data_block list" where
  "set_next a p h = h[a := (h ! a)\<lparr>db_next := p\<rparr>]"

definition queue_db :: "nat \<Rightarrow> block_queue \<Rightarrow> block_queue option" where
  "queue_db new_db q =
     (let h = bq_heap q; b = db_block (h ! new_db) in
      case data_blocks q of
        None \<Rightarrow> Some (q\<lparr>data_blocks := Some new_db\<rparr>)
      | Some first \<Rightarrow>
          if db_block (h ! first) > b then
            Some (q\<lparr>bq_heap := set_next new_db (Some first) h, data_blocks := Some new_db\<rparr>)
          else
            let db = (case last_used q of Some l \<Rightarrow> if b > db_block (h ! l) then l else first | None \<Rightarrow> first);
                q = q\<lparr>last_used := Some new_db\<rparr> in
            case find_place h b db of
              None \<Rightarrow> None
            | Some db \<Rightarrow>
                (case db_next (h ! db) of
                   None \<Rightarrow> Some (q\<lparr>bq_heap := set_next db (Some new_db) h\<rparr>)
                 | Some n \<Rightarrow> Some (q\<lparr>bq_heap := set_next db (Some new_db) (set_next new_db (Some n) h)\<rparr>)))"

text \<open>\<^verbatim>\<open>malloc\<close> of a node.\<close>

definition alloc_db :: "data_block \<Rightarrow> block_queue \<Rightarrow> nat \<times> block_queue" where
  "alloc_db d q = (length (bq_heap q), q\<lparr>bq_heap := bq_heap q @ [d]\<rparr>)"

definition data_db :: "nat \<Rightarrow> u32 \<Rightarrow> u32 \<Rightarrow> data_block" where
  "data_db data len block =
     \<lparr>db_block = block, db_len = len, db_data = data, db_filename = None, db_offset = 0, db_next = None\<rparr>"

definition file_db :: "string \<Rightarrow> nat \<Rightarrow> u32 \<Rightarrow> u32 \<Rightarrow> data_block" where
  "file_db filename offset len block =
     \<lparr>db_block = block, db_len = len, db_data = 0, db_filename = Some filename, db_offset = offset, db_next = None\<rparr>"

definition queue_data_block :: "bool \<Rightarrow> nat \<Rightarrow> u32 \<Rightarrow> u32 \<Rightarrow> block_queue \<Rightarrow> block_queue option" where
  "queue_data_block malloc_ok data len block q =
     (if \<not> malloc_ok then None
      else let (db, q) = alloc_db (data_db data len block) q
        in queue_db db q)"

definition queue_data_file :: "bool \<Rightarrow> string \<Rightarrow> nat \<Rightarrow> u32 \<Rightarrow> u32 \<Rightarrow> block_queue \<Rightarrow> block_queue option" where
  "queue_data_file malloc_ok filename offset len block q =
     (if \<not> malloc_ok then None
      else let (db, q) = alloc_db (file_db filename offset len block) q
        in queue_db db q)"

text \<open>The nodes that \<^verbatim>\<open>free_data_blocks\<close> gives back, in order.\<close>

partial_function (option) free_loop :: "data_block list \<Rightarrow> nat option \<Rightarrow> nat list \<Rightarrow> nat list option" where
  "free_loop h db freed =
     (case db of None \<Rightarrow> Some freed | Some a \<Rightarrow> free_loop h (db_next (h ! a)) (freed @ [a]))"

definition free_data_blocks :: "block_queue \<Rightarrow> (nat list \<times> block_queue) option" where
  "free_data_blocks q =
     (if data_blocks q = None then Some ([], q)
      else map_option (\<lambda>freed. (freed, q\<lparr>data_blocks := None, last_used := None\<rparr>)) (free_loop (bq_heap q) (data_blocks q) []))"

definition empty_queue :: block_queue where
  "empty_queue = \<lparr>bq_heap = [], data_blocks = None, last_used = None\<rparr>"

section \<open>Chains of nodes\<close>

primrec chain :: "data_block list \<Rightarrow> nat option \<Rightarrow> nat list \<Rightarrow> bool" where
  "chain h p [] \<longleftrightarrow> p = None"
| "chain h p (a # as) \<longleftrightarrow> p = Some a \<and> a < length h \<and> chain h (db_next (h ! a)) as"

abbreviation blk :: "data_block list \<Rightarrow> nat \<Rightarrow> u32" where
  "blk h a \<equiv> db_block (h ! a)"

lemma chain_bound: "chain h p as \<Longrightarrow> a \<in> set as \<Longrightarrow> a < length h"
  by (induction as arbitrary: p) auto

lemma chain_more: "chain h p as \<Longrightarrow> chain (h @ [d]) p as"
proof (induction as arbitrary: p)
  case (Cons a as)
  then show ?case by (simp add: nth_append)
qed simp

lemma chain_cong: "(\<And>a. a \<in> set as \<Longrightarrow> db_next (h' ! a) = db_next (h ! a)) \<Longrightarrow> length h' = length h \<Longrightarrow> chain h' p as = chain h p as"
  by (induction as arbitrary: p) auto

lemma set_next_simps [simp]:
  "length (set_next a p h) = length h"
  "x \<noteq> a \<Longrightarrow> set_next a p h ! x = h ! x"
  "a < length h \<Longrightarrow> set_next a p h ! a = (h ! a)\<lparr>db_next := p\<rparr>"
  "blk (set_next a p h) x = blk h x"
  by (simp_all add: set_next_def) (cases "x = a"; cases "a < length h"; simp add: list_update_beyond)

text \<open>The node \<open>new\<close> is put behind \<open>a\<close>.\<close>

lemma chain_insert:
  assumes "chain h p (xs @ a # ys)" "distinct (xs @ a # ys)" "new \<notin> set (xs @ a # ys)" "new < length h" "db_next (h ! new) = db_next (h ! a)"
  shows "chain (set_next a (Some new) h) p (xs @ a # new # ys)"
  using assms(1-3)
proof (induction xs arbitrary: p)
  case Nil
  then have "chain h (db_next (h ! a)) ys" "a \<notin> set ys" "a \<noteq> new" "a < length h" by auto
  moreover have "chain (set_next a (Some new) h) (db_next (h ! a)) ys = chain h (db_next (h ! a)) ys"
    using \<open>a \<notin> set ys\<close> by (intro chain_cong) (metis set_next_simps(2), simp)
  ultimately show ?case using Nil assms(4,5) by auto
next
  case (Cons x xs)
  then show ?case by auto
qed

lemma find_place_chain:
  "chain h (Some a) (a # ys) \<Longrightarrow> find_place h b a = Some (last (a # takeWhile (\<lambda>x. blk h x < b) ys))"
proof (induction ys arbitrary: a)
  case Nil
  then show ?case by (simp add: find_place.simps)
next
  case (Cons y ys)
  then show ?case by (subst find_place.simps) auto
qed

section \<open>The order of the queue\<close>

definition q_ok :: "block_queue \<Rightarrow> nat list \<Rightarrow> bool" where
  "q_ok q as \<longleftrightarrow> chain (bq_heap q) (data_blocks q) as \<and> distinct as \<and> sorted (map (blk (bq_heap q)) as) \<and>
     (\<forall>l. last_used q = Some l \<longrightarrow> l \<in> set as)"

text \<open>Where a block goes: in front, or behind the first block and all later ones with a smaller number.\<close>

fun insert_by :: "('a \<Rightarrow> u32) \<Rightarrow> 'a \<Rightarrow> 'a list \<Rightarrow> 'a list" where
  "insert_by f d [] = [d]"
| "insert_by f d (x # xs) =
     (if f x > f d then d # x # xs else x # takeWhile (\<lambda>y. f y < f d) xs @ d # dropWhile (\<lambda>y. f y < f d) xs)"

lemma insert_by_map: "map g (insert_by (\<lambda>x. f (g x)) d xs) = insert_by f (g d) (map g xs)"
  by (cases xs) (auto simp: takeWhile_map dropWhile_map o_def)

lemma insert_by_mset: "mset (insert_by f d xs) = add_mset d (mset xs)"
proof (cases xs)
  case (Cons x ys)
  have "mset (takeWhile P ys) + mset (dropWhile P ys) = mset ys" for P
    by (metis mset_append takeWhile_dropWhile_id)
  with Cons show ?thesis by simp
qed simp

lemma sorted_split: "sorted (map f xs) \<Longrightarrow> \<forall>y \<in> set (dropWhile (\<lambda>y. f y < (b :: u32)) xs). b \<le> f y"
  by (induction xs) auto

lemma insert_by_sorted: "sorted (map f xs) \<Longrightarrow> sorted (map f (insert_by f d xs))"
proof (cases xs)
  case (Cons x ys)
  assume "sorted (map f xs)"
  then have ys: "sorted (map f ys)" "\<forall>y \<in> set ys. f x \<le> f y" using Cons by auto
  then have "sorted (map f (takeWhile (\<lambda>y. f y < f d) ys))" "sorted (map f (dropWhile (\<lambda>y. f y < f d) ys))"
    by (metis map_append sorted_append takeWhile_dropWhile_id)+
  moreover have "\<forall>y \<in> set (takeWhile (\<lambda>y. f y < f d) ys). f y < f d" by (metis set_takeWhileD)
  moreover have "set (takeWhile (\<lambda>y. f y < f d) ys) \<subseteq> set ys" "set (dropWhile (\<lambda>y. f y < f d) ys) \<subseteq> set ys"
    by (auto dest: set_takeWhileD set_dropWhileD)
  ultimately show ?thesis using Cons ys sorted_split [OF ys(1), of "f d"]
    by (force simp: sorted_append)
qed simp

text \<open>The search from a node in the middle ends where the one from the start ends.\<close>

lemma start_in_middle:
  assumes "sorted (map f (xs @ l # ys))" "f l < (b :: u32)" "x # zs = xs @ l # ys"
  shows "last (l # takeWhile (\<lambda>y. f y < b) ys) = last (x # takeWhile (\<lambda>y. f y < b) zs)"
    "\<exists>us. x # takeWhile (\<lambda>y. f y < b) zs = us @ l # takeWhile (\<lambda>y. f y < b) ys"
proof -
  have small: "\<forall>y \<in> set xs. f y < b" using assms(1,2) by (force simp: sorted_append)
  show "\<exists>us. x # takeWhile (\<lambda>y. f y < b) zs = us @ l # takeWhile (\<lambda>y. f y < b) ys"
  proof (cases xs)
    case Nil
    then show ?thesis using assms(3) by auto
  next
    case (Cons z xs')
    then have "zs = xs' @ l # ys" "x = z" using assms(3) by auto
    then show ?thesis using small Cons assms(2) by (intro exI [of _ xs]) (simp add: takeWhile_append)
  qed
  then show "last (l # takeWhile (\<lambda>y. f y < b) ys) = last (x # takeWhile (\<lambda>y. f y < b) zs)" by force
qed

lemma chain_next: "chain h p (us @ a # ys) \<Longrightarrow> chain h (db_next (h ! a)) ys"
  by (induction us arbitrary: p) auto

lemma chain_from: "chain h p (us @ a # ys) \<Longrightarrow> chain h (Some a) (a # ys)"
  by (induction us arbitrary: p) auto

lemma chain_Some: "chain h (Some n) ys \<Longrightarrow> \<exists>ys'. ys = n # ys'"
  by (cases ys) auto

text \<open>What is queued, without the links.\<close>

definition content :: "data_block \<Rightarrow> data_block" where
  "content d = d\<lparr>db_next := None\<rparr>"

lemma content_set_next [simp]: "content (set_next a p h ! x) = content (h ! x)"
  by (cases "x = a"; cases "a < length h"; simp add: content_def set_next_def list_update_beyond)

lemma link_behind:
  assumes "chain h p (us @ a # ys)" "distinct (us @ a # ys)" "new \<notin> set (us @ a # ys)" "new < length h" "db_next (h ! new) = None"
  defines "h' \<equiv> (case db_next (h ! a) of None \<Rightarrow> set_next a (Some new) h
     | Some n \<Rightarrow> set_next a (Some new) (set_next new (Some n) h))"
  shows "chain h' p (us @ a # new # ys)"
proof (cases "db_next (h ! a)")
  case None
  then show ?thesis using assms(1-5) by (simp add: h'_def chain_insert)
next
  case (Some n)
  let ?h = "set_next new (Some n) h"
  have "chain ?h p (us @ a # ys)"
    using assms(1,3) by (subst chain_cong [where h = h]) (metis set_next_simps(2), simp_all)
  moreover have "db_next (?h ! new) = db_next (?h ! a)" using Some assms(3,4) by auto
  ultimately have "chain (set_next a (Some new) ?h) p (us @ a # new # ys)" using assms(2-4) by (intro chain_insert) auto
  then show ?thesis by (simp add: h'_def Some)
qed

lemma queue_db_search:
  assumes ok: "q_ok q (a # as)" and b: "blk (bq_heap q) a \<le> b"
  shows "find_place (bq_heap q) b (case last_used q of Some l \<Rightarrow> if b > blk (bq_heap q) l then l else a | None \<Rightarrow> a) =
    Some (last (a # takeWhile (\<lambda>x. blk (bq_heap q) x < b) as))"
proof (cases "\<exists>l. last_used q = Some l \<and> b > blk (bq_heap q) l")
  case True
  then obtain l where l: "last_used q = Some l" "blk (bq_heap q) l < b" by blast
  then obtain us ys where s: "a # as = us @ l # ys" using ok by (metis q_ok_def split_list)
  have c: "chain (bq_heap q) (Some l) (l # ys)" using ok unfolding s q_ok_def by (blast intro: chain_from)
  have "sorted (map (blk (bq_heap q)) (us @ l # ys))" using ok unfolding s q_ok_def by blast
  then show ?thesis using l(2) find_place_chain [OF c] start_in_middle(1) [where f = "blk (bq_heap q)", OF _ l(2) s]
    by (simp only: l(1) option.case if_True)
next
  case False
  then have "(case last_used q of Some l \<Rightarrow> if b > blk (bq_heap q) l then l else a | None \<Rightarrow> a) = a"
    by (auto split: option.split)
  moreover have "chain (bq_heap q) (Some a) (a # as)" using ok by (auto simp: q_ok_def)
  ultimately show ?thesis by (simp only: find_place_chain)
qed

lemma insert_by_elems:
  "set (insert_by f d xs) = insert d (set xs)" "distinct xs \<Longrightarrow> d \<notin> set xs \<Longrightarrow> distinct (insert_by f d xs)"
proof -
  have m: "mset (insert_by f d xs) = mset (d # xs)" by (simp add: insert_by_mset)
  show "set (insert_by f d xs) = insert d (set xs)" using mset_eq_setD [OF m] by simp
  show "distinct xs \<Longrightarrow> d \<notin> set xs \<Longrightarrow> distinct (insert_by f d xs)" using mset_eq_imp_distinct_iff [OF m] by simp
qed

lemma insert_by_split:
  assumes "\<not> f x > f d"
  obtains us p ys where "x # xs = us @ p # ys" "insert_by f d (x # xs) = us @ p # d # ys" "p = last (x # takeWhile (\<lambda>y. f y < f d) xs)"
proof -
  let ?t = "x # takeWhile (\<lambda>y. f y < f d) xs" and ?ys = "dropWhile (\<lambda>y. f y < f d) xs"
  have t: "?t = butlast ?t @ [last ?t]" by simp
  have "x # xs = ?t @ ?ys" by simp
  also have "\<dots> = butlast ?t @ last ?t # ?ys" by (subst t) simp
  finally have "x # xs = butlast ?t @ last ?t # ?ys" .
  moreover have "insert_by f d (x # xs) = ?t @ d # ?ys" using assms by simp
  then have "insert_by f d (x # xs) = butlast ?t @ last ?t # d # ?ys" by (subst (asm) t) simp
  ultimately show thesis using that by blast
qed

lemma queue_db_front:
  assumes "q_ok q as" "new < length (bq_heap q)" "new \<notin> set as" "data_blocks q = Some a" "blk (bq_heap q) a > blk (bq_heap q) new"
  shows "\<exists>q'. queue_db new q = Some q' \<and> chain (bq_heap q') (data_blocks q') (new # as) \<and> length (bq_heap q') = length (bq_heap q) \<and>
    (\<forall>x. content (bq_heap q' ! x) = content (bq_heap q ! x)) \<and> last_used q' = last_used q"
proof -
  have "chain (set_next new (Some a) (bq_heap q)) (Some a) as = chain (bq_heap q) (Some a) as"
    using assms(3) by (intro chain_cong) (metis set_next_simps(2), simp)
  with assms show ?thesis by (simp add: queue_db_def q_ok_def Let_def)
qed

lemma queue_db_behind:
  assumes "q_ok q (a # as)" "data_blocks q = Some a" "\<not> blk (bq_heap q) a > blk (bq_heap q) new"
    and p: "p = last (a # takeWhile (\<lambda>x. blk (bq_heap q) x < blk (bq_heap q) new) as)"
  shows "queue_db new q = Some (q\<lparr>last_used := Some new, bq_heap := (case db_next (bq_heap q ! p) of None \<Rightarrow> set_next p (Some new) (bq_heap q)
    | Some n \<Rightarrow> set_next p (Some new) (set_next new (Some n) (bq_heap q)))\<rparr>)"
proof -
  have "find_place (bq_heap q) (blk (bq_heap q) new)
      (case last_used q of Some l \<Rightarrow> if blk (bq_heap q) new > blk (bq_heap q) l then l else a | None \<Rightarrow> a) = Some p"
    unfolding p using assms(1,3) by (intro queue_db_search) auto
  then show ?thesis using assms(2,3) by (simp add: queue_db_def Let_def split: option.split)
qed

lemma blk_content: "content (h' ! x) = content (h ! x) \<Longrightarrow> blk h' x = blk h x"
  by (drule arg_cong [of _ _ db_block]) (simp add: content_def)

lemma queue_db_ok:
  assumes ok: "q_ok q as" and new: "new < length (bq_heap q)" "new \<notin> set as" "db_next (bq_heap q ! new) = None"
  shows "\<exists>q'. queue_db new q = Some q' \<and> q_ok q' (insert_by (blk (bq_heap q)) new as) \<and> length (bq_heap q') = length (bq_heap q) \<and>
    (\<forall>x. content (bq_heap q' ! x) = content (bq_heap q ! x))"
proof (cases as)
  case Nil
  then show ?thesis using ok new by (auto simp: queue_db_def q_ok_def)
next
  case (Cons a as')
  let ?h = "bq_heap q"
  have first: "data_blocks q = Some a" using ok Cons by (simp add: q_ok_def)
  have "sorted (map (blk ?h) (insert_by (blk ?h) new as))" "distinct (insert_by (blk ?h) new as)"
    using ok new(2) by (simp_all add: q_ok_def insert_by_sorted insert_by_elems)
  then have result: ?thesis if "queue_db new q = Some q'" "chain (bq_heap q') (data_blocks q') (insert_by (blk ?h) new as)" "length (bq_heap q') = length ?h"
      "\<forall>x. content (bq_heap q' ! x) = content (?h ! x)" "\<forall>l. last_used q' = Some l \<longrightarrow> l \<in> insert new (set as)" for q'
    using that blk_content [of "bq_heap q'" _ ?h] by (simp add: q_ok_def insert_by_elems(1))
  show ?thesis
  proof (cases "blk ?h a > blk ?h new")
    case True
    then obtain q' where q': "queue_db new q = Some q'" "chain (bq_heap q') (data_blocks q') (new # as)" "length (bq_heap q') = length ?h"
      "\<forall>x. content (bq_heap q' ! x) = content (?h ! x)" "last_used q' = last_used q"
      using queue_db_front [OF ok new(1,2) first] by blast
    show ?thesis by (rule result [OF q'(1) _ q'(3,4)]) (use True q'(2,5) ok Cons in \<open>auto simp: q_ok_def\<close>)
  next
    case False
    obtain us p ys where s: "as = us @ p # ys" "insert_by (blk ?h) new as = us @ p # new # ys" "p = last (a # takeWhile (\<lambda>x. blk ?h x < blk ?h new) as')"
      unfolding Cons by (rule insert_by_split [where f = "blk ?h", OF False])
    have "chain (case db_next (?h ! p) of None \<Rightarrow> set_next p (Some new) ?h
        | Some n \<Rightarrow> set_next p (Some new) (set_next new (Some n) ?h)) (data_blocks q) (us @ p # new # ys)"
      using ok new unfolding s(1) q_ok_def by (intro link_behind) auto
    then show ?thesis
      by (intro result [OF queue_db_behind [OF ok [unfolded Cons] first False s(3)]]) (auto simp: s(2) split: option.split)
  qed
qed

section \<open>The queue as a list\<close>

fun nodes :: "nat \<Rightarrow> data_block list \<Rightarrow> nat option \<Rightarrow> nat list" where
  "nodes (Suc n) h (Some a) = a # nodes n h (db_next (h ! a))"
| "nodes n h p = []"

definition queued :: "block_queue \<Rightarrow> data_block list" where
  "queued q = map (\<lambda>a. content (bq_heap q ! a)) (nodes (length (bq_heap q)) (bq_heap q) (data_blocks q))"

definition bq_inv :: "block_queue \<Rightarrow> bool" where
  "bq_inv q \<longleftrightarrow> (\<exists>as. q_ok q as)"

lemma nodes_chain: "chain h p as \<Longrightarrow> length as \<le> n \<Longrightarrow> nodes n h p = as"
proof (induction as arbitrary: p n)
  case Nil
  then show ?case by (cases n) auto
next
  case (Cons a as)
  then show ?case by (cases n) auto
qed

lemma queued_eq: "q_ok q as \<Longrightarrow> queued q = map (\<lambda>a. content (bq_heap q ! a)) as"
proof -
  assume ok: "q_ok q as"
  then have "set as \<subseteq> {..<length (bq_heap q)}" "distinct as" using chain_bound by (auto simp: q_ok_def)
  then have "length as \<le> length (bq_heap q)" by (metis card_lessThan card_mono distinct_card finite_lessThan)
  then show ?thesis using ok nodes_chain unfolding queued_def q_ok_def by metis
qed

lemma bq_inv_sorted: "bq_inv q \<Longrightarrow> sorted (map db_block (queued q))"
  by (auto simp: bq_inv_def queued_eq q_ok_def o_def content_def)

lemma enqueue_ok:
  assumes "bq_inv q" "db_next d = None" "alloc_db d q = (a, q1)"
  shows "\<exists>q'. queue_db a q1 = Some q' \<and> bq_inv q' \<and> queued q' = insert_by db_block d (queued q)"
proof -
  obtain as where as: "q_ok q as" using assms(1) by (auto simp: bq_inv_def)
  have same: "content d = d" using assms(2) by (cases d) (simp add: content_def)
  have a: "a = length (bq_heap q)" "q1 = q\<lparr>bq_heap := bq_heap q @ [d]\<rparr>" using assms(3) by (auto simp: alloc_db_def)
  have bound: "\<forall>x \<in> set as. x < length (bq_heap q)" using as chain_bound by (auto simp: q_ok_def)
  then have old: "\<forall>x \<in> set as. bq_heap q1 ! x = bq_heap q ! x" by (simp add: a nth_append)
  then have m: "map (blk (bq_heap q1)) as = map (blk (bq_heap q)) as" by simp
  have "chain (bq_heap q1) (data_blocks q1) as" using as chain_more by (auto simp: q_ok_def a(2))
  moreover have "last_used q1 = last_used q" by (simp add: a(2))
  ultimately have "q_ok q1 as" using as unfolding q_ok_def m by simp
  moreover have "a \<notin> set as" "a < length (bq_heap q1)" "bq_heap q1 ! a = d" using bound by (auto simp: a)
  ultimately obtain q' where q': "queue_db a q1 = Some q'" "q_ok q' (insert_by (blk (bq_heap q1)) a as)"
      "\<forall>x. content (bq_heap q' ! x) = content (bq_heap q1 ! x)"
    using queue_db_ok [of q1 as a] assms(2) by blast
  have "queued q' = map (\<lambda>x. content (bq_heap q1 ! x)) (insert_by (blk (bq_heap q1)) a as)"
    using queued_eq [OF q'(2)] q'(3) by simp
  also have "\<dots> = insert_by db_block (content (bq_heap q1 ! a)) (map (\<lambda>x. content (bq_heap q1 ! x)) as)"
    using insert_by_map [of "\<lambda>x. content (bq_heap q1 ! x)" db_block a as] by (simp add: content_def)
  also have "\<dots> = insert_by db_block d (queued q)"
    using old \<open>bq_heap q1 ! a = d\<close> same by (simp add: queued_eq [OF as] cong: map_cong)
  finally show ?thesis using q' by (auto simp: bq_inv_def)
qed

lemma free_loop_chain: "chain h p as \<Longrightarrow> free_loop h p freed = Some (freed @ as)"
proof (induction as arbitrary: p freed)
  case Nil
  then show ?case by (simp add: free_loop.simps)
next
  case (Cons a as)
  then show ?case by (subst free_loop.simps) simp
qed

datatype bq_op = Queue_Block nat u32 u32 | Queue_File string nat u32 u32 | Free_Blocks

fun op_block :: "bq_op \<Rightarrow> data_block list" where
  "op_block (Queue_Block data len block) = [data_db data len block]"
| "op_block (Queue_File f offset len block) = [file_db f offset len block]"
| "op_block Free_Blocks = []"

text \<open>One call; the output is the number of freed nodes, and \<open>None\<close> when the call does not return.\<close>

definition bq_step :: "bq_op \<Rightarrow> block_queue \<Rightarrow> nat option \<times> block_queue" where
  "bq_step op q =
     (case (case op of
          Queue_Block data len block \<Rightarrow> map_option (Pair []) (queue_data_block True data len block q)
        | Queue_File f offset len block \<Rightarrow> map_option (Pair []) (queue_data_file True f offset len block q)
        | Free_Blocks \<Rightarrow> free_data_blocks q) of
        None \<Rightarrow> (None, q)
      | Some (freed, q') \<Rightarrow> (Some (length freed), q'))"

definition bq_spec :: "bq_op \<Rightarrow> data_block list \<Rightarrow> nat option \<Rightarrow> data_block list \<Rightarrow> bool" where
  "bq_spec op xs out xs' \<longleftrightarrow>
     (if op = Free_Blocks then out = Some (length xs) \<and> xs' = []
      else out = Some 0 \<and> xs' = fold (insert_by db_block) (op_block op) xs)"

lemma bq_step_sim:
  assumes "bq_inv q" "bq_step op q = (out, q')"
  shows "bq_inv q' \<and> bq_spec op (queued q) out (queued q')"
proof (cases op)
  case (Queue_Block data len block)
  then show ?thesis using assms enqueue_ok [OF assms(1), of "data_db data len block"]
    by (fastforce simp: bq_step_def queue_data_block_def bq_spec_def data_db_def split: prod.splits)
next
  case (Queue_File f offset len block)
  then show ?thesis using assms enqueue_ok [OF assms(1), of "file_db f offset len block"]
    by (fastforce simp: bq_step_def queue_data_file_def bq_spec_def file_db_def split: prod.splits)
next
  case Free_Blocks
  obtain as where as: "q_ok q as" using assms(1) by (auto simp: bq_inv_def)
  then have f: "free_loop (bq_heap q) (data_blocks q) [] = Some as" using free_loop_chain [of "bq_heap q" "data_blocks q" as "[]"] by (simp add: q_ok_def)
  have e: "q_ok q []" "as = []" if "data_blocks q = None" using that as by (cases as; simp add: q_ok_def)+
  show ?thesis
  proof (cases "data_blocks q = None")
    case True
    then show ?thesis using assms Free_Blocks queued_eq [OF e(1)] by (auto simp: bq_step_def free_data_blocks_def bq_spec_def)
  next
    case False
    then have "q' = q\<lparr>data_blocks := None, last_used := None\<rparr>" "out = Some (length as)"
      using assms(2) Free_Blocks f by (auto simp: bq_step_def free_data_blocks_def)
    moreover have "q_ok (q\<lparr>data_blocks := None, last_used := None\<rparr>) []" by (simp add: q_ok_def)
    ultimately show ?thesis using Free_Blocks queued_eq [OF as] queued_eq [of q' "[]"] by (auto simp: bq_spec_def bq_inv_def)
  qed
qed

interpretation bq: simulation bq_inv queued bq_step bq_spec
  by unfold_locales (use bq_step_sim in blast)+

lemma spec_queue:
  "Free_Blocks \<notin> set ops \<Longrightarrow> spec_ops bq_spec ops xs outs xs' \<Longrightarrow>
     outs = replicate (length ops) (Some 0) \<and> xs' = fold (insert_by db_block) (concat (map op_block ops)) xs"
proof (induction ops arbitrary: xs outs)
  case (Cons op ops)
  then show ?case by (cases outs) (auto simp: bq_spec_def)
qed simp

lemma fold_insert_mset: "mset (fold (insert_by f) ds xs) = mset ds + mset xs"
  by (induction ds arbitrary: xs) (simp_all add: insert_by_mset)

lemma empty_queue_ok: "bq_inv empty_queue" "queued empty_queue = []"
proof -
  have "q_ok empty_queue []" by (simp add: q_ok_def empty_queue_def)
  then show "bq_inv empty_queue" "queued empty_queue = []" using queued_eq by (auto simp: bq_inv_def)
qed

text \<open>C21: The queue of blocks.  Whatever is queued in whatever order, every call returns, and the list holds exactly the queued
  blocks in ascending order of their numbers: the search that starts at the node inserted last ends where the search from
  the beginning does.\<close>

theorem block_queue_sorted:
  assumes "Free_Blocks \<notin> set ops" "run_ops bq_step ops empty_queue = (outs, q)"
  shows "outs = replicate (length ops) (Some 0) \<and> queued q = fold (insert_by db_block) (concat (map op_block ops)) [] \<and>
    sorted (map db_block (queued q)) \<and> mset (queued q) = mset (concat (map op_block ops))"
proof -
  have "outs = replicate (length ops) (Some 0) \<and> queued q = fold (insert_by db_block) (concat (map op_block ops)) []"
    using spec_queue [OF assms(1) bq.run_spec [OF empty_queue_ok(1) assms(2), unfolded empty_queue_ok(2)]] .
  moreover have "sorted (map db_block (queued q))" using bq.run_inv [OF empty_queue_ok(1) assms(2)] by (rule bq_inv_sorted)
  ultimately show ?thesis by (simp add: fold_insert_mset)
qed

definition w_ops :: "bq_op list" where
  "w_ops = [Queue_Block 1 10 5, Queue_File ''f'' 0 20 9, Queue_Block 2 10 2, Queue_Block 3 10 7]"

theorem block_queue_sorted_witness:
  "map db_block (queued (snd (run_ops bq_step w_ops empty_queue))) = [2, 5, 7, 9]"
  using block_queue_sorted [of w_ops "fst (run_ops bq_step w_ops empty_queue)" "snd (run_ops bq_step w_ops empty_queue)"]
  by (simp add: w_ops_def data_db_def file_db_def del: run_ops.simps)

end
