(* ===== verification/Sparse_Image.thy ===== *)
theory Sparse_Image
  imports Sparse_Crc Backed_Block
begin

text \<open>
  Writing and expanding images: \<^verbatim>\<open>output_file.c\<close>, \<^verbatim>\<open>simg2img.c\<close>, \<^verbatim>\<open>for_each_data_block\<close> of \<^verbatim>\<open>backed_block.c\<close> and
  \<^verbatim>\<open>write_ext4_image\<close> of \<^verbatim>\<open>ext4_utils.c\<close> under \<^verbatim>\<open>src/extras/ext4_utils\<close>.  The hosts are little-endian with a 64-bit
  \<^verbatim>\<open>long\<close>.  A file is its bytes and a position; the kernel's \<^verbatim>\<open>write\<close>, \<^verbatim>\<open>lseek64\<close> and \<^verbatim>\<open>ftruncate\<close> are the fields of the record
  \<open>disk\<close>.  A result on the left is the end of the program.  Compressed output goes through zlib and is not modelled.
\<close>

section \<open>Files and errors\<close>

type_synonym u16 = "16 word"

record dfile =
  f_bytes :: "u8 list"
  f_pos :: nat

record disk =
  disk_write :: "dfile \<Rightarrow> u8 list \<Rightarrow> int \<times> dfile"
  disk_seek :: "dfile \<Rightarrow> nat \<Rightarrow> int \<times> dfile"
  disk_truncate :: "dfile \<Rightarrow> nat \<Rightarrow> bool \<times> dfile"

text \<open>\<open>Exit_Failure\<close> is \<^verbatim>\<open>exit(EXIT_FAILURE)\<close>, \<open>Trap\<close> a division by zero, \<open>Overrun\<close> a read behind the end of a buffer.\<close>

datatype stop = Exit_Failure | Trap | Overrun

definition and_then :: "stop + 'a \<Rightarrow> ('a \<Rightarrow> stop + 'b) \<Rightarrow> stop + 'b" where
  "and_then r f = (case r of Inl e \<Rightarrow> Inl e | Inr x \<Rightarrow> f x)"

text \<open>The macro \<^verbatim>\<open>error\<close>: the program goes on only when it is forced to.\<close>

definition error :: "bool \<Rightarrow> 'a \<Rightarrow> stop + 'a" where
  "error force x = (if force then Inr x else Inl Exit_Failure)"

section \<open>The format\<close>

definition le16 :: "u16 \<Rightarrow> u8 list" where
  "le16 x = [ucast x, ucast (drop_bit 8 x)]"

definition le32 :: "u32 \<Rightarrow> u8 list" where
  "le32 x = [ucast x, ucast (drop_bit 8 x), ucast (drop_bit 16 x), ucast (drop_bit 24 x)]"

record sparse_header_t =
  sh_magic :: u32
  major_version :: u16
  minor_version :: u16
  file_hdr_sz :: u16
  chunk_hdr_sz :: u16
  blk_sz :: u32
  total_blks :: u32
  total_chunks :: u32
  image_checksum :: u32

record chunk_header_t =
  chunk_type :: u16
  reserved1 :: u16
  chunk_sz :: u32
  total_sz :: u32

definition SPARSE_HEADER_MAGIC :: u32 where "SPARSE_HEADER_MAGIC = 0xed26ff3a"
definition CHUNK_TYPE_RAW :: u16 where "CHUNK_TYPE_RAW = 0xCAC1"
definition CHUNK_TYPE_DONT_CARE :: u16 where "CHUNK_TYPE_DONT_CARE = 0xCAC3"
definition SPARSE_HEADER_LEN :: nat where "SPARSE_HEADER_LEN = 28"
definition CHUNK_HEADER_LEN :: nat where "CHUNK_HEADER_LEN = 12"

text \<open>The structures as they lie in memory.\<close>

definition sparse_header_bytes :: "sparse_header_t \<Rightarrow> u8 list" where
  "sparse_header_bytes h =
     le32 (sh_magic h) @ le16 (major_version h) @ le16 (minor_version h) @ le16 (file_hdr_sz h) @ le16 (chunk_hdr_sz h) @
     le32 (blk_sz h) @ le32 (total_blks h) @ le32 (total_chunks h) @ le32 (image_checksum h)"

definition chunk_header_bytes :: "chunk_header_t \<Rightarrow> u8 list" where
  "chunk_header_bytes h = le16 (chunk_type h) @ le16 (reserved1 h) @ le32 (chunk_sz h) @ le32 (total_sz h)"

section \<open>The output file\<close>

record fs_info =
  info_len :: u64
  info_block_size :: u32

text \<open>The globals \<^verbatim>\<open>sparse_header\<close> and \<^verbatim>\<open>zero_buf\<close> are kept with the file.\<close>

record output_file =
  of_file :: dfile
  of_sparse :: bool
  cur_out_ptr :: u64
  chunk_cnt :: u32
  of_crc32 :: u32
  sparse_header :: sparse_header_t
  zero_buf :: "u8 list"

definition file_seek :: "bool \<Rightarrow> disk \<Rightarrow> output_file \<Rightarrow> nat \<Rightarrow> stop + int \<times> output_file" where
  "file_seek force D out off =
     (let (ret, f) = disk_seek D (of_file out) off; out = out\<lparr>of_file := f\<rparr> in
      if ret < 0 then error force (-1, out) else Inr (0, out))"

text \<open>\<^verbatim>\<open>len\<close> is a signed integer; the kernel refuses what a negative one becomes.\<close>

definition file_write :: "bool \<Rightarrow> disk \<Rightarrow> output_file \<Rightarrow> u8 list \<Rightarrow> u32 \<Rightarrow> stop + int \<times> output_file" where
  "file_write force D out data len =
     (if sint len < 0 then error force (-1, out)
      else if length data < unat len then Inl Overrun
      else
        let (ret, f) = disk_write D (of_file out) (take (unat len) data); out = out\<lparr>of_file := f\<rparr> in
        if ret < 0 then error force (-1, out)
        else if ret < sint len then error force (-1, out)
        else Inr (0, out))"

text \<open>The loop that computes the checksum of a skipped region; \<open>bs\<close> is not zero when it is reached.\<close>

function zero_crc :: "u64 \<Rightarrow> u8 list \<Rightarrow> u32 \<Rightarrow> u64 \<Rightarrow> u32" where
  "zero_crc bs zb crc skip_len =
     (if skip_len = 0 \<or> bs = 0 then crc
      else let chunk = (if skip_len > bs then bs else skip_len)
        in zero_crc bs zb (sparse_crc32 crc (take (unat chunk) zb)) (skip_len - chunk))"
  by pat_completeness auto
termination
proof (relation "measure (\<lambda>(bs, zb, crc, n). unat n)")
  fix bs n chunk :: u64 and zb :: "u8 list" and crc :: u32
  assume "\<not> (n = 0 \<or> bs = 0)" "chunk = (if n > bs then bs else n)"
  then have "chunk \<le> n" "0 < unat chunk" by (auto simp: unat_gt_0 word_coorder.not_eq_extremum)
  then have "unat (n - chunk) < unat n" by (simp add: unat_sub word_le_nat_alt)
  then show "((bs, zb, sparse_crc32 crc (take (unat chunk) zb), n - chunk), bs, zb, crc, n) \<in> measure (\<lambda>(bs, zb, crc, n). unat n)"
    by simp
qed simp

declare zero_crc.simps [simp del]

definition emit_skip_chunk :: "bool \<Rightarrow> disk \<Rightarrow> fs_info \<Rightarrow> output_file \<Rightarrow> u64 \<Rightarrow> stop + int \<times> output_file" where
  "emit_skip_chunk force D info out skip_len =
     (let bs = ucast (info_block_size info) :: u64 in
      if bs = 0 then Inl Trap
      else if skip_len mod bs \<noteq> 0 then error force (-1, out)
      else
        let h = \<lparr>chunk_type = CHUNK_TYPE_DONT_CARE, reserved1 = 0, chunk_sz = ucast (skip_len div bs),
                 total_sz = of_nat CHUNK_HEADER_LEN\<rparr> in
        and_then (file_write force D out (chunk_header_bytes h) (of_nat CHUNK_HEADER_LEN)) (\<lambda>(ret, out).
          if ret < 0 then Inr (-1, out)
          else Inr (0, out\<lparr>cur_out_ptr := cur_out_ptr out + skip_len, chunk_cnt := chunk_cnt out + 1,
                 of_crc32 := zero_crc bs (zero_buf out) (of_crc32 out) skip_len\<rparr>)))"

text \<open>The part of \<^verbatim>\<open>write_chunk_raw\<close> after its checks.\<close>

definition emit_raw_chunk :: "bool \<Rightarrow> disk \<Rightarrow> fs_info \<Rightarrow> output_file \<Rightarrow> u8 list \<Rightarrow> u32 \<Rightarrow> stop + int \<times> output_file" where
  "emit_raw_chunk force D info out data len =
     (let bs = info_block_size info;
          rnd_up_len = (len + (bs - 1)) AND NOT (bs - 1);
          zero_len = rnd_up_len - len;
          h = \<lparr>chunk_type = CHUNK_TYPE_RAW, reserved1 = 0, chunk_sz = rnd_up_len div bs,
               total_sz = of_nat CHUNK_HEADER_LEN + rnd_up_len\<rparr> in
      and_then (file_write force D out (chunk_header_bytes h) (of_nat CHUNK_HEADER_LEN)) (\<lambda>(ret, out).
      if ret < 0 then Inr (-1, out) else
      and_then (file_write force D out data len) (\<lambda>(ret, out).
      if ret < 0 then Inr (-1, out) else
      and_then (if zero_len \<noteq> 0 then file_write force D out (zero_buf out) zero_len else Inr (0, out)) (\<lambda>(ret, out).
      if ret < 0 then Inr (-1, out) else
        let crc = sparse_crc32 (of_crc32 out) (take (unat len) data);
            crc = (if zero_len \<noteq> 0 then sparse_crc32 crc (take (unat zero_len) (zero_buf out)) else crc)
        in Inr (0, out\<lparr>of_crc32 := crc, cur_out_ptr := cur_out_ptr out + scast rnd_up_len, chunk_cnt := chunk_cnt out + 1\<rparr>)))))"

definition write_chunk_raw :: "bool \<Rightarrow> disk \<Rightarrow> fs_info \<Rightarrow> output_file \<Rightarrow> u64 \<Rightarrow> u8 list \<Rightarrow> u32 \<Rightarrow> stop + int \<times> output_file" where
  "write_chunk_raw force D info out off data len =
     (if off < cur_out_ptr out then error force (-1, out)
      else
        and_then (if off > cur_out_ptr out then emit_skip_chunk force D info out (off - cur_out_ptr out) else Inr (0, out)) (\<lambda>(_, out).
        if info_block_size info = 0 then Inl Trap
        else if off mod ucast (info_block_size info) \<noteq> 0 then error force (-1, out)
        else if off \<noteq> cur_out_ptr out then error force (-1, out)
        else emit_raw_chunk force D info out data len))"

text \<open>The results of the functions below that are of type \<^verbatim>\<open>void\<close> are not looked at.\<close>

definition ignore :: "stop + int \<times> output_file \<Rightarrow> stop + output_file" where
  "ignore r = and_then r (\<lambda>(_, out). Inr out)"

definition close_output_file :: "bool \<Rightarrow> disk \<Rightarrow> output_file \<Rightarrow> stop + output_file" where
  "close_output_file force D out =
     (if of_sparse out then
        let h = (sparse_header out)\<lparr>total_chunks := chunk_cnt out, image_checksum := of_crc32 out\<rparr>;
            out = out\<lparr>sparse_header := h\<rparr> in
        and_then (file_seek force D out 0) (\<lambda>(ret, out).
        and_then (if ret < 0 then error force out else Inr out) (\<lambda>out.
        and_then (file_write force D out (sparse_header_bytes h) (of_nat SPARSE_HEADER_LEN)) (\<lambda>(ret, out).
        if ret < 0 then error force out else Inr out)))
      else Inr out)"

text \<open>\<open>mem\<close> holds the results of the two allocations, \<open>fd\<close> the file that \<^verbatim>\<open>open\<close> returns; a null pointer is \<open>None\<close>.\<close>

definition open_output_file :: "bool \<Rightarrow> disk \<Rightarrow> fs_info \<Rightarrow> bool \<times> bool \<Rightarrow> dfile option \<Rightarrow> bool \<Rightarrow> stop + output_file option" where
  "open_output_file force D info mem fd sparse =
     (if \<not> fst mem \<or> \<not> snd mem then error force None
      else case fd of
        None \<Rightarrow> error force None
      | Some f \<Rightarrow>
          let h = \<lparr>sh_magic = SPARSE_HEADER_MAGIC, major_version = 1, minor_version = 0, file_hdr_sz = of_nat SPARSE_HEADER_LEN,
                   chunk_hdr_sz = of_nat CHUNK_HEADER_LEN, blk_sz = 0, total_blks = 0, total_chunks = 0, image_checksum = 0\<rparr>;
              out = \<lparr>of_file = f, of_sparse = sparse, cur_out_ptr = 0, chunk_cnt = 0, of_crc32 = 0, sparse_header = h,
                     zero_buf = replicate (unat (info_block_size info)) 0\<rparr> in
          if sparse then
            if info_block_size info = 0 then Inl Trap
            else
              let h = h\<lparr>blk_sz := info_block_size info, total_blks := ucast (info_len info div ucast (info_block_size info))\<rparr> in
              and_then (file_write force D (out\<lparr>sparse_header := h\<rparr>) (sparse_header_bytes h) (of_nat SPARSE_HEADER_LEN)) (\<lambda>(ret, out).
              if ret < 0 then Inr None else Inr (Some out))
          else Inr (Some out))"

definition pad_output_file :: "bool \<Rightarrow> disk \<Rightarrow> fs_info \<Rightarrow> output_file \<Rightarrow> u64 \<Rightarrow> stop + output_file" where
  "pad_output_file force D info out len =
     (if len > info_len info then error force out
      else if of_sparse out then
        if len < cur_out_ptr out then error force out
        else if len > cur_out_ptr out then ignore (emit_skip_chunk force D info out (len - cur_out_ptr out))
        else Inr out
      else
        and_then (file_seek force D out (unat (len - 1))) (\<lambda>(ret, out).
        if ret < 0 then Inr out else ignore (file_write force D out [0] 1)))"

text \<open>Both ways to write: as a chunk, or at the offset of the image.\<close>

definition write_at :: "bool \<Rightarrow> disk \<Rightarrow> fs_info \<Rightarrow> output_file \<Rightarrow> u64 \<Rightarrow> u8 list \<Rightarrow> u32 \<Rightarrow> stop + output_file" where
  "write_at force D info out off data len =
     (if of_sparse out then ignore (write_chunk_raw force D info out off data len)
      else
        and_then (file_seek force D out (unat off)) (\<lambda>(ret, out).
        if ret < 0 then Inr out else ignore (file_write force D out data len)))"

definition write_data_block :: "bool \<Rightarrow> disk \<Rightarrow> fs_info \<Rightarrow> output_file \<Rightarrow> u64 \<Rightarrow> u8 list \<Rightarrow> u32 \<Rightarrow> stop + output_file" where
  "write_data_block force D info out off data len =
     (if off + scast len > info_len info then error force out else write_at force D info out off data len)"

text \<open>\<open>fs\<close> opens a file and maps a part of it: \<open>None\<close> when \<^verbatim>\<open>open\<close> or \<^verbatim>\<open>mmap\<close> fails.\<close>

definition write_data_file ::
  "bool \<Rightarrow> disk \<Rightarrow> fs_info \<Rightarrow> (string \<Rightarrow> nat \<Rightarrow> u32 \<Rightarrow> u8 list option) \<Rightarrow> output_file \<Rightarrow> u64 \<Rightarrow> string \<Rightarrow> nat \<Rightarrow> u32 \<Rightarrow> stop + output_file" where
  "write_data_file force D info fs out off name offset len =
     (if off + scast len \<ge> info_len info then error force out
      else case fs name offset len of
        None \<Rightarrow> error force out
      | Some data \<Rightarrow> write_at force D info out off data len)"

section \<open>The image\<close>

definition DIV_ROUND_UP :: "u32 \<Rightarrow> u32 \<Rightarrow> u32" where
  "DIV_ROUND_UP x y = (x + y - 1) div y"

text \<open>\<^verbatim>\<open>for_each_data_block\<close> with the two functions it is called with; \<open>mem\<close> is what is behind a pointer.\<close>

partial_function (option) for_each_data_block ::
  "bool \<Rightarrow> disk \<Rightarrow> fs_info \<Rightarrow> (nat \<Rightarrow> u8 list) \<Rightarrow> (string \<Rightarrow> nat \<Rightarrow> u32 \<Rightarrow> u8 list option) \<Rightarrow> data_block list \<Rightarrow>
     nat option \<Rightarrow> u32 \<Rightarrow> output_file \<Rightarrow> (stop + output_file) option" where
  "for_each_data_block force D info mem fs h db last_block out =
     (case db of
        None \<Rightarrow> Some (Inr out)
      | Some a \<Rightarrow>
          let d = h ! a; off = ucast (db_block d) * ucast (info_block_size info) :: u64 in
          if db_block d < last_block \<and> \<not> force then Some (Inl Exit_Failure)
          else if info_block_size info = 0 then Some (Inl Trap)
          else
            (case (case db_filename d of
                Some name \<Rightarrow> write_data_file force D info fs out off name (db_offset d) (db_len d)
              | None \<Rightarrow> write_data_block force D info out off (mem (db_data d)) (db_len d)) of
               Inl e \<Rightarrow> Some (Inl e)
             | Inr out \<Rightarrow>
                 for_each_data_block force D info mem fs h (db_next d)
                   (db_block d + DIV_ROUND_UP (db_len d) (info_block_size info) - 1) out))"

record fs_aux_info =
  aux_sb :: "u8 list"
  aux_bg_desc :: "u8 list"
  first_data_block :: u32
  bg_desc_blocks :: u32

text \<open>The super block and the group descriptors.\<close>

definition write_super_block :: "bool \<Rightarrow> disk \<Rightarrow> fs_info \<Rightarrow> fs_aux_info \<Rightarrow> output_file \<Rightarrow> stop + output_file" where
  "write_super_block force D info aux out =
     (if info_block_size info > 1024 then
        write_data_block force D info out 0 (replicate 1024 0 @ take 1024 (aux_sb aux) @ replicate 2048 0) (info_block_size info)
      else write_data_block force D info out 1024 (aux_sb aux) 1024)"

definition write_ext4_image ::
  "bool \<Rightarrow> disk \<Rightarrow> fs_info \<Rightarrow> fs_aux_info \<Rightarrow> (nat \<Rightarrow> u8 list) \<Rightarrow> (string \<Rightarrow> nat \<Rightarrow> u32 \<Rightarrow> u8 list option) \<Rightarrow> block_queue \<Rightarrow>
     bool \<times> bool \<Rightarrow> dfile option \<Rightarrow> bool \<Rightarrow> (stop + output_file option) option" where
  "write_ext4_image force D info aux mem fs q allocs fd sparse =
     (case open_output_file force D info allocs fd sparse of
        Inl e \<Rightarrow> Some (Inl e)
      | Inr None \<Rightarrow> Some (Inr None)
      | Inr (Some out) \<Rightarrow>
          (case and_then (write_super_block force D info aux out) (\<lambda>out.
               write_data_block force D info out (ucast (first_data_block aux + 1) * ucast (info_block_size info))
                 (aux_bg_desc aux) (bg_desc_blocks aux * info_block_size info)) of
             Inl e \<Rightarrow> Some (Inl e)
           | Inr out \<Rightarrow>
               map_option (\<lambda>r.
                   and_then r (\<lambda>out.
                   and_then (pad_output_file force D info out (info_len info)) (\<lambda>out.
                   and_then (close_output_file force D out) (\<lambda>out. Inr (Some out)))))
                 (for_each_data_block force D info mem fs (bq_heap q) (data_blocks q) 0 out)))"

end
