(* ===== verification/Simg2img.thy ===== *)
theory Simg2img
  imports Sparse_Image
begin

text \<open>
  The program that expands a sparse image: \<^verbatim>\<open>src/extras/ext4_utils/simg2img.c\<close>.  The input is the list of the bytes that are
  left; \<open>Exit_Failure\<close> is \<^verbatim>\<open>exit(-1)\<close>, a result on the right is the file after \<^verbatim>\<open>exit(0)\<close>, and \<open>None\<close> stands for a program that
  does not end.
\<close>

definition un_le16 :: "u8 list \<Rightarrow> nat \<Rightarrow> u16" where
  "un_le16 b i = ucast (b ! i) OR push_bit 8 (ucast (b ! (i + 1)))"

definition un_le32 :: "u8 list \<Rightarrow> nat \<Rightarrow> u32" where
  "un_le32 b i =
     ucast (b ! i) OR push_bit 8 (ucast (b ! (i + 1))) OR push_bit 16 (ucast (b ! (i + 2))) OR push_bit 24 (ucast (b ! (i + 3)))"

definition un_sparse_header :: "u8 list \<Rightarrow> sparse_header_t" where
  "un_sparse_header b =
     \<lparr>sh_magic = un_le32 b 0, major_version = un_le16 b 4, minor_version = un_le16 b 6, file_hdr_sz = un_le16 b 8,
      chunk_hdr_sz = un_le16 b 10, blk_sz = un_le32 b 12, total_blks = un_le32 b 16, total_chunks = un_le32 b 20,
      image_checksum = un_le32 b 24\<rparr>"

definition un_chunk_header :: "u8 list \<Rightarrow> chunk_header_t" where
  "un_chunk_header b = \<lparr>chunk_type = un_le16 b 0, reserved1 = un_le16 b 2, chunk_sz = un_le32 b 4, total_sz = un_le32 b 8\<rparr>"

text \<open>\<^verbatim>\<open>fread\<close> and \<^verbatim>\<open>fwrite\<close> of one item of \<open>n\<close> bytes.\<close>

definition fread :: "nat \<Rightarrow> u8 list \<Rightarrow> (u8 list \<times> u8 list) option" where
  "fread n ins = (if length ins < n then None else Some (take n ins, drop n ins))"

definition fwrite :: "disk \<Rightarrow> dfile \<Rightarrow> u8 list \<Rightarrow> dfile option" where
  "fwrite D out data = (let (n, f) = disk_write D out data in if n = int (length data) then Some f else None)"

definition COPY_BUF_SIZE :: u64 where "COPY_BUF_SIZE = 1024 * 1024"

lemma word_sub_less: "c \<noteq> 0 \<Longrightarrow> c \<le> n \<Longrightarrow> unat (n - c) < unat n" for c n :: "'a::len word"
  by (simp add: unat_sub word_le_nat_alt unat_eq_0 [symmetric])

lemma unat_ucast_32: "unat (ucast x :: u32) = unat (x :: u64) mod 2 ^ 32" "unat (ucast y :: u64) = unat (y :: u32)"
proof -
  show "unat (ucast x :: u32) = unat (x :: u64) mod 2 ^ 32"
    unfolding unsigned_ucast_eq by (simp add: take_bit_eq_mod)
  show "unat (ucast y :: u64) = unat (y :: u32)"
    using unsigned_less [of y, where 'a = nat] unfolding unsigned_ucast_eq by (simp add: take_bit_nat_eq_self)
qed

function raw_loop :: "disk \<Rightarrow> u8 list \<Rightarrow> dfile \<Rightarrow> u32 \<Rightarrow> u64 \<Rightarrow> (u8 list \<times> dfile \<times> u32) option" where
  "raw_loop D ins out crc len =
     (if len = 0 then Some (ins, out, crc)
      else let chunk = (if len > COPY_BUF_SIZE then COPY_BUF_SIZE else len) in
        case fread (unat chunk) ins of
          None \<Rightarrow> None
        | Some (copybuf, ins) \<Rightarrow>
            (case fwrite D out copybuf of
               None \<Rightarrow> None
             | Some out \<Rightarrow> raw_loop D ins out (sparse_crc32 crc copybuf) (len - chunk)))"
  by pat_completeness auto
termination
  by (relation "measure (\<lambda>(D, ins, out, crc, n). unat n)")
    (auto simp: COPY_BUF_SIZE_def unat_gt_0 intro!: word_sub_less)

declare raw_loop.simps [simp del]

definition process_raw_chunk :: "disk \<Rightarrow> u8 list \<Rightarrow> dfile \<Rightarrow> u32 \<Rightarrow> u32 \<Rightarrow> u32 \<Rightarrow> (u8 list \<times> dfile \<times> u32) option" where
  "process_raw_chunk D ins out blocks bs crc = raw_loop D ins out crc (ucast blocks * ucast bs)"

text \<open>The loop over \<^verbatim>\<open>fseek\<close>: the new position and the last value of \<^verbatim>\<open>skip_chunk\<close>, which holds anything at first.\<close>

function seek_loop :: "nat \<Rightarrow> u32 \<Rightarrow> u64 \<Rightarrow> nat \<times> u32" where
  "seek_loop pos skip_chunk len =
     (if len = 0 then (pos, skip_chunk)
      else let skip_chunk = (if len > 0x80000000 then 0x80000000 else ucast len) :: u32
        in seek_loop (pos + unat skip_chunk) skip_chunk (len - ucast skip_chunk))"
  by pat_completeness auto
termination
proof (relation "measure (\<lambda>(pos, sc, n). unat n)")
  fix pos :: nat and sc x :: u32 and len :: u64
  assume a: "len \<noteq> 0" "x = (if 0x80000000 < len then 0x80000000 else ucast len)"
  have "ucast x = (if 0x80000000 < len then 0x80000000 else len)"
  proof (cases "0x80000000 < len")
    case False
    then have "unat len < 2 ^ 32" by (simp add: word_less_nat_alt not_less)
    then have "ucast (ucast len :: u32) = len" by (simp add: word_unat_eq_iff unat_ucast_32)
    then show ?thesis using a(2) False by simp
  qed (simp add: a(2))
  then have "unat (len - ucast x) < unat len"
    using a(1) by (intro word_sub_less) auto
  then show "((pos + unat x, x, len - ucast x), pos, sc, len) \<in> measure (\<lambda>(pos, sc, n). unat n)" by simp
qed simp

declare seek_loop.simps [simp del]

partial_function (option) skip_crc :: "u8 list \<Rightarrow> u32 \<Rightarrow> u32 \<Rightarrow> u64 \<Rightarrow> u32 \<Rightarrow> u32 option" where
  "skip_crc zerobuf bs crc len skip_chunk =
     (if len = 0 then Some crc
      else let skip_chunk = (if skip_chunk > bs then bs else skip_chunk)
        in skip_crc zerobuf bs (sparse_crc32 crc (take (unat skip_chunk) zerobuf)) (len - ucast skip_chunk) skip_chunk)"

definition process_skip_chunk :: "u8 list \<Rightarrow> u32 \<Rightarrow> dfile \<Rightarrow> u32 \<Rightarrow> u32 \<Rightarrow> u32 \<Rightarrow> (dfile \<times> u32) option" where
  "process_skip_chunk zerobuf junk out blocks bs crc =
     (let len = ucast blocks * ucast bs; (pos, skip_chunk) = seek_loop (f_pos out) junk len
      in map_option (Pair (out\<lparr>f_pos := pos\<rparr>)) (skip_crc zerobuf bs crc len skip_chunk))"

text \<open>The loop over the chunks; the state is the rest of the input, the output, the checksum and the number of blocks.\<close>

type_synonym simg_state = "u8 list \<times> dfile \<times> u32 \<times> u32"

definition one_chunk :: "disk \<Rightarrow> u8 list \<Rightarrow> u32 \<Rightarrow> sparse_header_t \<Rightarrow> simg_state \<Rightarrow> (stop + simg_state) option" where
  "one_chunk D zerobuf junk sh = (\<lambda>(ins, out, crc, total_blocks).
     case fread CHUNK_HEADER_LEN ins of
       None \<Rightarrow> Some (Inl Exit_Failure)
     | Some (b, ins) \<Rightarrow>
         let ch = un_chunk_header b;
             ins = (if unat (chunk_hdr_sz sh) > CHUNK_HEADER_LEN then drop (unat (chunk_hdr_sz sh) - CHUNK_HEADER_LEN) ins else ins) in
         if chunk_type ch = CHUNK_TYPE_RAW then
           if total_sz ch \<noteq> ucast (chunk_hdr_sz sh) + chunk_sz ch * blk_sz sh then Some (Inl Exit_Failure)
           else (case process_raw_chunk D ins out (chunk_sz ch) (blk_sz sh) crc of
                   None \<Rightarrow> Some (Inl Exit_Failure)
                 | Some (ins, out, crc) \<Rightarrow> Some (Inr (ins, out, crc, total_blocks + chunk_sz ch)))
         else if chunk_type ch = CHUNK_TYPE_DONT_CARE then
           if total_sz ch \<noteq> ucast (chunk_hdr_sz sh) then Some (Inl Exit_Failure)
           else (case process_skip_chunk zerobuf junk out (chunk_sz ch) (blk_sz sh) crc of
                   None \<Rightarrow> None
                 | Some (out, crc) \<Rightarrow> Some (Inr (ins, out, crc, total_blocks + chunk_sz ch)))
         else Some (Inl Exit_Failure))"

fun chunk_loop :: "disk \<Rightarrow> u8 list \<Rightarrow> u32 \<Rightarrow> sparse_header_t \<Rightarrow> nat \<Rightarrow> simg_state \<Rightarrow> (stop + simg_state) option" where
  "chunk_loop D zerobuf junk sh 0 s = Some (Inr s)"
| "chunk_loop D zerobuf junk sh (Suc n) s =
     (case one_chunk D zerobuf junk sh s of
        None \<Rightarrow> None
      | Some (Inl e) \<Rightarrow> Some (Inl e)
      | Some (Inr s) \<Rightarrow> chunk_loop D zerobuf junk sh n s)"

text \<open>What follows the loop.\<close>

definition finish_image :: "disk \<Rightarrow> sparse_header_t \<Rightarrow> simg_state \<Rightarrow> stop + dfile" where
  "finish_image D sh = (\<lambda>(ins, out, crc, total_blocks).
     let (ok, out) = disk_truncate D out (unat (ucast total_blocks * ucast (blk_sz sh) :: u64)) in
     if \<not> ok then Inl Exit_Failure
     else if total_blks sh \<noteq> total_blocks then Inl Exit_Failure
     else if image_checksum sh \<noteq> crc then Inl Exit_Failure
     else Inr out)"

text \<open>\<open>ins\<close> and \<open>out\<close> are the files that \<^verbatim>\<open>fopen\<close> returns, \<open>copybuf_ok\<close> says whether the first allocation succeeds, and \<open>zerobuf\<close> is
  the second block with whatever \<^verbatim>\<open>malloc\<close> leaves in it.\<close>

definition simg2img ::
  "disk \<Rightarrow> bool \<Rightarrow> u8 list option \<Rightarrow> dfile option \<Rightarrow> (nat \<Rightarrow> u8 list option) \<Rightarrow> u32 \<Rightarrow> (stop + dfile) option" where
  "simg2img D copybuf_ok ins out malloc junk =
     (if \<not> copybuf_ok then Some (Inl Exit_Failure)
      else case (ins, out) of
        (Some ins, Some out) \<Rightarrow>
          (case fread SPARSE_HEADER_LEN ins of
             None \<Rightarrow> Some (Inl Exit_Failure)
           | Some (b, ins) \<Rightarrow>
               let sh = un_sparse_header b in
               if sh_magic sh \<noteq> SPARSE_HEADER_MAGIC then Some (Inl Exit_Failure)
               else if major_version sh \<noteq> 1 then Some (Inl Exit_Failure)
               else
                 let ins = (if unat (file_hdr_sz sh) > SPARSE_HEADER_LEN then drop (unat (file_hdr_sz sh) - SPARSE_HEADER_LEN) ins else ins) in
                 (case malloc (unat (blk_sz sh)) of
                    None \<Rightarrow> Some (Inl Exit_Failure)
                  | Some zerobuf \<Rightarrow>
                      map_option (\<lambda>r. and_then r (finish_image D sh))
                        (chunk_loop D zerobuf junk sh (unat (total_chunks sh)) (ins, out, 0, 0))))
      | _ \<Rightarrow> Some (Inl Exit_Failure))"

end
