(* ===== verification/Sparse_Facts.thy ===== *)
theory Sparse_Facts
  imports Simg2img
begin

text \<open>
  Images that are written and expanded again: what the writer puts into the file is a sequence of chunks, the reader expands
  the chunks, and both agree with the image that the queued blocks describe.
\<close>

section \<open>A disk without failures\<close>

definition place :: "dfile \<Rightarrow> u8 list \<Rightarrow> dfile" where
  "place f d = (if d = [] then f
     else \<lparr>f_bytes = take (f_pos f) (f_bytes f @ replicate (f_pos f - length (f_bytes f)) 0) @ d @ drop (f_pos f + length d) (f_bytes f),
           f_pos = f_pos f + length d\<rparr>)"

definition plain_disk :: disk where
  "plain_disk = \<lparr>disk_write = (\<lambda>f d. (int (length d), place f d)), disk_seek = (\<lambda>f n. (int n, f\<lparr>f_pos := n\<rparr>)),
     disk_truncate = (\<lambda>f n. (True, f\<lparr>f_bytes := take n (f_bytes f) @ replicate (n - length (f_bytes f)) 0\<rparr>))\<rparr>"

lemma plain_disk_simps [simp]:
  "disk_write plain_disk f d = (int (length d), place f d)" "disk_seek plain_disk f n = (int n, f\<lparr>f_pos := n\<rparr>)"
  "disk_truncate plain_disk f n = (True, f\<lparr>f_bytes := take n (f_bytes f) @ replicate (n - length (f_bytes f)) 0\<rparr>)"
  by (simp_all add: plain_disk_def)

text \<open>A file whose end is the position.\<close>

definition at_end :: "u8 list \<Rightarrow> dfile" where
  "at_end b = \<lparr>f_bytes = b, f_pos = length b\<rparr>"

lemma place_end [simp]: "place (at_end b) d = at_end (b @ d)"
  by (simp add: place_def at_end_def)

text \<open>A file whose bytes, continued by zeros up to the position, are \<open>b\<close>.\<close>

definition padded_to :: "dfile \<Rightarrow> u8 list \<Rightarrow> bool" where
  "padded_to f b \<longleftrightarrow> f_pos f = length b \<and> length (f_bytes f) \<le> length b \<and> f_bytes f @ replicate (length b - length (f_bytes f)) 0 = b"

lemma padded_place: "padded_to f b \<Longrightarrow> padded_to (place f d) (b @ d)"
  by (auto simp: padded_to_def place_def)

lemma padded_skip: "padded_to f b \<Longrightarrow> padded_to (f\<lparr>f_pos := f_pos f + n\<rparr>) (b @ replicate n 0)"
proof -
  assume p: "padded_to f b"
  let ?k = "length b - length (f_bytes f)"
  have "length b + n - length (f_bytes f) = ?k + n" using p by (simp add: padded_to_def)
  then have "f_bytes f @ replicate (length b + n - length (f_bytes f)) 0 = (f_bytes f @ replicate ?k 0) @ replicate n 0"
    by (simp add: replicate_add)
  with p show ?thesis by (simp add: padded_to_def)
qed

lemma padded_truncate:
  "padded_to f b \<Longrightarrow> f_bytes (snd (disk_truncate plain_disk f (length b))) = b"
  by (simp add: padded_to_def)

section \<open>Numbers\<close>

lemma sint_small: "unat x < 2 ^ 31 \<Longrightarrow> sint (x :: u32) = int (unat x)"
proof -
  assume "unat x < 2 ^ 31"
  then have "int (unat x) < int (2 ^ 31)" by (simp only: of_nat_less_iff)
  then have "uint x < 2 ^ 31" by simp
  moreover have "- (2 ^ 31) \<le> uint x" by (rule order.trans [OF _ unsigned_greater_eq]) simp
  ultimately have "signed_take_bit 31 (uint x) = uint x" by (rule signed_take_bit_int_eq_self [rotated])
  then show ?thesis by (simp add: sint_uint)
qed

lemma scast_small: "unat x < 2 ^ 31 \<Longrightarrow> scast (x :: u32) = (of_nat (unat x) :: u64)"
  by (simp add: scast_eq sint_small)

lemma le_lengths [simp]: "length (le16 x) = 2" "length (le32 y) = 4"
  by (simp_all add: le16_def le32_def)

lemma un_le16_le16: "un_le16 (le16 x @ b) 0 = x"
proof (rule bit_word_eqI)
  fix n assume "n < LENGTH(16)"
  consider "n < 8" | "8 \<le> n" by linarith
  then show "bit (un_le16 (le16 x @ b) 0) n = bit x n"
    using \<open>n < LENGTH(16)\<close> by cases (auto simp: un_le16_def le16_def bit_simps)
qed

lemma un_le32_le32: "un_le32 (le32 x @ b) 0 = x"
proof (rule bit_word_eqI)
  fix n assume "n < LENGTH(32)"
  consider "n < 8" | "8 \<le> n" "n < 16" | "16 \<le> n" "n < 24" | "24 \<le> n" by linarith
  then show "bit (un_le32 (le32 x @ b) 0) n = bit x n"
    using \<open>n < LENGTH(32)\<close> by cases (auto simp: un_le32_def le32_def bit_simps)
qed

lemma un_le_drop: "i \<le> length b \<Longrightarrow> un_le16 b i = un_le16 (drop i b) 0" "i \<le> length b \<Longrightarrow> un_le32 b i = un_le32 (drop i b) 0"
  by (simp_all add: un_le16_def un_le32_def)

lemma un_chunk_header_bytes: "un_chunk_header (chunk_header_bytes h @ b) = h"
  by (simp add: un_chunk_header_def chunk_header_bytes_def un_le_drop(1) [of 2] un_le_drop(2) [of 4] un_le_drop(2) [of 8]
    un_le16_le16 un_le32_le32)

lemma un_sparse_header_bytes: "un_sparse_header (sparse_header_bytes h @ b) = h"
  by (simp add: un_sparse_header_def sparse_header_bytes_def un_le_drop(1) [of 4] un_le_drop(1) [of 6] un_le_drop(1) [of 8]
    un_le_drop(1) [of 10] un_le_drop(2) [of 12] un_le_drop(2) [of 16] un_le_drop(2) [of 20] un_le_drop(2) [of 24]
    un_le16_le16 un_le32_le32)

lemma header_lengths [simp]: "length (chunk_header_bytes c) = 12" "length (sparse_header_bytes h) = 28"
  by (simp_all add: chunk_header_bytes_def sparse_header_bytes_def)

text \<open>Rounding up to a multiple of a power of two.\<close>

definition round_up :: "nat \<Rightarrow> nat \<Rightarrow> nat" where
  "round_up B n = (n + B - 1) div B * B"

lemma round_up_bounds: "0 < B \<Longrightarrow> n \<le> round_up B n \<and> round_up B n < n + B \<and> B dvd round_up B n"
proof -
  assume B: "0 < B"
  have "(n + B - 1) div B * B + (n + B - 1) mod B = n + B - 1" by (rule div_mult_mod_eq)
  moreover have "(n + B - 1) mod B < B" using B by simp
  moreover have "B dvd (n + B - 1) div B * B" by simp
  ultimately show ?thesis using B unfolding round_up_def by linarith
qed

lemma round_up_fits: "0 < B \<Longrightarrow> B dvd off \<Longrightarrow> B dvd N \<Longrightarrow> off + n \<le> N \<Longrightarrow> off + round_up B n \<le> N"
proof -
  assume a: "0 < B" "B dvd off" "B dvd N" "off + n \<le> N"
  then have "B dvd N - off" by (simp add: dvd_diff_nat)
  then obtain m where m: "N - off = m * B" by (metis dvd_def mult.commute)
  have "n \<le> m * B" using a(4) m by linarith
  then have "n + B - 1 < Suc m * B" using a(1) by simp
  then have "(n + B - 1) div B < Suc m" by (rule less_mult_imp_div_less)
  then have "(n + B - 1) div B \<le> m" by simp
  then have "round_up B n \<le> m * B" by (simp add: round_up_def)
  then show ?thesis using m a(4) by linarith
qed

lemma unat_power: "k < 32 \<Longrightarrow> unat (2 ^ k :: u32) = 2 ^ k"
proof -
  assume "k < 32"
  then have "(2::nat) ^ k < 2 ^ 32" by (rule power_strict_increasing) simp
  then have "unat (of_nat (2 ^ k) :: u32) = 2 ^ k" by (intro unat_of_nat_lt) simp
  then show ?thesis by simp
qed

lemma round_up_word:
  assumes "bs = 2 ^ k" "k < 31" "unat len + 2 ^ k \<le> 2 ^ 31"
  shows "unat ((len + (bs - 1)) AND NOT (bs - 1) :: u32) = round_up (2 ^ k) (unat len)"
proof -
  have m: "bs - 1 = mask k" using assms(1) by (simp add: mask_eq_exp_minus_1)
  have u: "unat (mask k :: u32) = 2 ^ k - 1" 
  proof -
    have "(1 :: u32) \<le> 2 ^ k" using assms(2) unat_power [of k] by (simp add: word_le_nat_alt)
    then show ?thesis using assms(2) by (simp add: mask_eq_exp_minus_1 unat_sub unat_power)
  qed
  define x where "x = len + mask k"
  have x: "unat x = unat len + 2 ^ k - 1" using assms(3) u unfolding x_def by (simp add: unat_word_ariths)
  have "x AND NOT (mask k) = push_bit k (drop_bit k x)" by (rule bit_word_eqI) (auto simp: bit_simps)
  moreover have "unat (drop_bit k x) = unat x div 2 ^ k" by (subst unat_drop_bit_eq) (simp only: drop_bit_eq_div)
  moreover have "unat x div 2 ^ k * 2 ^ k < 2 ^ 32" using x assms(3) by (simp add: le_less_trans [OF div_times_less_eq_dividend])
  ultimately have "unat (x AND NOT (mask k)) = unat x div 2 ^ k * 2 ^ k"
    using assms(2) by (simp only: push_bit_eq_mult unat_word_ariths) (simp add: unat_power)
  then show ?thesis unfolding m x_def [symmetric] x round_up_def .
qed

section \<open>Chunks\<close>

datatype ck = Raw "u8 list" | Skip nat

fun enc_ck :: "nat \<Rightarrow> ck \<Rightarrow> u8 list" where
  "enc_ck B (Raw d) = chunk_header_bytes \<lparr>chunk_type = CHUNK_TYPE_RAW, reserved1 = 0, chunk_sz = of_nat (length d div B),
      total_sz = of_nat (12 + length d)\<rparr> @ d"
| "enc_ck B (Skip n) = chunk_header_bytes \<lparr>chunk_type = CHUNK_TYPE_DONT_CARE, reserved1 = 0, chunk_sz = of_nat n, total_sz = 12\<rparr>"

fun expand :: "nat \<Rightarrow> ck \<Rightarrow> u8 list" where
  "expand B (Raw d) = d"
| "expand B (Skip n) = replicate (n * B) 0"

fun ck_ok :: "nat \<Rightarrow> ck \<Rightarrow> bool" where
  "ck_ok B (Raw d) \<longleftrightarrow> B dvd length d \<and> length d \<le> 2 ^ 31"
| "ck_ok B (Skip n) \<longleftrightarrow> n < 2 ^ 32"

abbreviation encs :: "nat \<Rightarrow> ck list \<Rightarrow> u8 list" where
  "encs B cks \<equiv> concat (map (enc_ck B) cks)"

abbreviation expands :: "nat \<Rightarrow> ck list \<Rightarrow> u8 list" where
  "expands B cks \<equiv> concat (map (expand B) cks)"

text \<open>The block size \<open>B\<close> is a power of two, and the length \<open>N\<close> of the image a multiple of it with a number of blocks that fits
  the format.\<close>

definition geom :: "fs_info \<Rightarrow> nat \<Rightarrow> nat \<Rightarrow> bool" where
  "geom info B N \<longleftrightarrow> (\<exists>k < 31. info_block_size info = 2 ^ k \<and> B = 2 ^ k) \<and> N = unat (info_len info) \<and> B dvd N \<and> N div B < 2 ^ 32"

lemma geom_simps:
  assumes "geom info B N"
  shows "unat (info_block_size info) = B" "0 < B" "info_block_size info \<noteq> 0" "unat (ucast (info_block_size info) :: u64) = B"
    "(ucast (info_block_size info) :: u64) \<noteq> 0" "B \<le> 2 ^ 30" "B dvd 2 ^ 31" "unat (info_len info) = N" "B dvd N" "N < 2 ^ 63"
proof -
  obtain k where k: "k < 31" "info_block_size info = 2 ^ k" "B = 2 ^ k" using assms by (auto simp: geom_def)
  show u: "unat (info_block_size info) = B" using k by (simp add: unat_power)
  show pos: "0 < B" using k by simp
  show "info_block_size info \<noteq> 0" using u pos by auto
  show u64: "unat (ucast (info_block_size info) :: u64) = B" using u by (simp add: unat_ucast_32)
  then show "(ucast (info_block_size info) :: u64) \<noteq> 0" using pos by auto
  show le: "B \<le> 2 ^ 30" unfolding k(3) using k(1) by (intro power_increasing) auto
  show "B dvd 2 ^ 31" unfolding k(3) using k(1) by (intro le_imp_power_dvd) auto
  show "unat (info_len info) = N" "B dvd N" using assms by (auto simp: geom_def)
  then have "N = N div B * B" by simp
  also have "\<dots> \<le> (2 ^ 32 - 1) * 2 ^ 30" using assms le by (intro mult_le_mono) (auto simp: geom_def)
  also have "\<dots> < 2 ^ 63" by simp
  finally show "N < 2 ^ 63" .
qed

section \<open>Writing chunks\<close>

definition writer :: "fs_info \<Rightarrow> nat \<Rightarrow> nat \<Rightarrow> output_file \<Rightarrow> ck list \<Rightarrow> bool" where
  "writer info B N out cks \<longleftrightarrow>
     of_sparse out \<and> of_file out = at_end (sparse_header_bytes (sparse_header out) @ encs B cks) \<and>
     cur_out_ptr out = of_nat (length (expands B cks)) \<and> chunk_cnt out = of_nat (length cks) \<and>
     of_crc32 out = sparse_crc32 0 (expands B cks) \<and> zero_buf out = replicate B 0 \<and>
     length (expands B cks) \<le> N \<and> B dvd length (expands B cks) \<and> (\<forall>c \<in> set cks. ck_ok B c) \<and>
     sh_magic (sparse_header out) = SPARSE_HEADER_MAGIC \<and> major_version (sparse_header out) = 1 \<and>
     file_hdr_sz (sparse_header out) = 28 \<and> chunk_hdr_sz (sparse_header out) = 12 \<and>
     blk_sz (sparse_header out) = info_block_size info \<and> total_blks (sparse_header out) = of_nat (N div B)"

lemma file_write_end:
  assumes "of_file out = at_end b" "unat len \<le> length data" "unat len < 2 ^ 31"
  shows "file_write force plain_disk out data len = Inr (0, out\<lparr>of_file := at_end (b @ take (unat len) data)\<rparr>)"
  using assms sint_small [OF assms(3)] by (simp add: file_write_def)

lemma zero_crc_zeros:
  assumes "unat bs = B" "0 < B"
  shows "zero_crc bs (replicate B 0) crc n = sparse_crc32 crc (replicate (unat n) 0)"
proof (induction "unat n" arbitrary: n crc rule: less_induct)
  case less
  have nz: "bs \<noteq> 0" using assms by auto
  define c where "c = (if n > bs then bs else n)"
  show ?case
  proof (cases "n = 0")
    case True
    then show ?thesis by (simp add: zero_crc.simps sparse_crc32_def)
  next
    case False
    then have c: "c \<noteq> 0" "c \<le> n" "unat c \<le> B" using nz assms by (auto simp: c_def word_le_nat_alt word_less_nat_alt not_less)
    have d: "unat (n - c) < unat n" "unat (n - c) = unat n - unat c" using word_sub_less [OF c(1,2)] c(2) unat_sub by auto
    have "zero_crc bs (replicate B 0) crc n = zero_crc bs (replicate B 0) (sparse_crc32 crc (replicate (unat c) 0)) (n - c)"
      using False nz c(3) by (subst zero_crc.simps) (simp add: c_def Let_def min_def)
    also have "\<dots> = sparse_crc32 (sparse_crc32 crc (replicate (unat c) 0)) (replicate (unat (n - c)) 0)"
      by (rule less [OF d(1)])
    also have "\<dots> = sparse_crc32 crc (replicate (unat n) 0)"
      using c(2) by (simp add: sparse_crc32_append d(2) replicate_add [symmetric] word_le_nat_alt)
    finally show ?thesis .
  qed
qed

lemma emit_skip_ok:
  assumes g: "geom info B N" and w: "writer info B N out cks" and n: "B dvd n" "length (expands B cks) + n \<le> N"
  shows "\<exists>out'. emit_skip_chunk force plain_disk info out (of_nat n) = Inr (0, out') \<and> writer info B N out' (cks @ [Skip (n div B)])"
proof -
  note gs = geom_simps [OF g]
  have un: "unat (of_nat n :: u64) = n" using n(2) gs(10) by (intro unat_of_nat_lt) simp
  have "unat ((of_nat n :: u64) mod ucast (info_block_size info)) = 0" using n(1) by (simp add: unat_mod un gs(4))
  then have m: "(of_nat n :: u64) mod ucast (info_block_size info) = 0" by (simp add: unat_eq_0)
  have small: "n div B < 2 ^ 32" using n(2) g div_le_mono [of n N B] by (auto simp: geom_def)
  have "unat (ucast ((of_nat n :: u64) div ucast (info_block_size info)) :: u32) = n div B"
    using small by (simp only: unat_ucast_32(1) unat_div un gs(4)) simp
  then have q: "(ucast ((of_nat n :: u64) div ucast (info_block_size info)) :: u32) = of_nat (n div B)"
    using small by (simp add: word_unat_eq_iff unat_of_nat_lt)
  have nn: "n div B * B = n" using n(1) by simp
  have crc: "zero_crc (ucast (info_block_size info)) (replicate B 0) c (of_nat n) = sparse_crc32 c (replicate n 0)" for c
    using zero_crc_zeros [OF gs(4,2)] un by simp
  show ?thesis
    using w gs m small n un by (simp add: emit_skip_chunk_def writer_def file_write_end CHUNK_HEADER_LEN_def Let_def and_then_def q crc
      sparse_crc32_append nn)
qed

lemma emit_raw_ok:
  assumes g: "geom info B N" and w: "writer info B N out cks" and len: "unat len \<le> length data" "unat len + B \<le> 2 ^ 31"
    and n: "length (expands B cks) + round_up B (unat len) \<le> N"
  defines "d \<equiv> take (unat len) data @ replicate (round_up B (unat len) - unat len) 0"
  shows "\<exists>out'. emit_raw_chunk force plain_disk info out data len = Inr (0, out') \<and> writer info B N out' (cks @ [Raw d])"
proof -
  note gs = geom_simps [OF g]
  obtain k where k: "info_block_size info = 2 ^ k" "k < 31" "B = 2 ^ k" using g by (auto simp: geom_def)
  define R where "R = round_up B (unat len)"
  define r where "r = (len + (info_block_size info - 1)) AND NOT (info_block_size info - 1)"
  have R: "unat len \<le> R" "R < unat len + B" "B dvd R" "R < 2 ^ 31"
    using round_up_bounds [OF gs(2), of "unat len"] len(2) by (auto simp: R_def)
  have r: "unat r = R" using round_up_word [OF k(1,2)] len(2) k(3) by (simp add: r_def R_def)
  have z: "unat (r - len) = R - unat len" using R(1) r by (simp add: unat_sub word_le_nat_alt)
  have d: "length d = R" using len(1) R(1) by (simp add: d_def R_def)
  have q: "r div info_block_size info = of_nat (length d div B)"
  proof -
    have "unat (r div info_block_size info) = R div B" by (simp add: unat_div r gs(1))
    moreover have "R div B < 2 ^ 32" using R(4) by (simp add: le_less_trans [OF div_le_dividend])
    ultimately show ?thesis by (simp add: word_unat_eq_iff unat_of_nat_lt d)
  qed
  have "of_nat R = r" using r by auto
  then have t: "12 + r = of_nat (12 + length d)" by (simp add: d)
  have c: "scast r = (of_nat (length d) :: u64)" using R(4) r by (simp add: scast_small d)
  have zero: "r = len \<longleftrightarrow> \<not> unat len < R" using r R(1) by (auto simp: word_unat_eq_iff)
  have dd: "d = take (unat len) data @ replicate (R - unat len) 0" by (simp add: d_def R_def)
  have tz: "take (unat (r - len)) (replicate B 0) = replicate (R - unat len) (0 :: u8)" using z R(2) by simp
  have fits: "unat len < 2 ^ 31" "unat (r - len) < 2 ^ 31" "unat (r - len) \<le> B" using len(2) z R gs(2) by auto
  define out' where "out' = out\<lparr>of_file := at_end (sparse_header_bytes (sparse_header out) @ encs B (cks @ [Raw d])),
    of_crc32 := sparse_crc32 0 (expands B (cks @ [Raw d])), cur_out_ptr := cur_out_ptr out + of_nat (length d), chunk_cnt := chunk_cnt out + 1\<rparr>"
  have w': "writer info B N out' (cks @ [Raw d])" using w n R(3,4) by (simp add: writer_def out'_def d R_def [symmetric])
  have "emit_raw_chunk force plain_disk info out data len = Inr (0, out')"
  proof (cases "unat len < R")
    case True
    then show ?thesis using w len(1) fits
      by (simp add: emit_raw_chunk_def writer_def Let_def r_def [symmetric] q t c zero tz z CHUNK_HEADER_LEN_def file_write_end and_then_def
        out'_def dd sparse_crc32_append)
  next
    case False
    then have "d = take (unat len) data" by (simp add: dd)
    then show ?thesis using False w len(1) fits(1)
      by (simp add: emit_raw_chunk_def writer_def Let_def r_def [symmetric] q t c zero CHUNK_HEADER_LEN_def file_write_end and_then_def
        out'_def sparse_crc32_append)
  qed
  with w' show ?thesis by blast
qed

text \<open>A piece of the image: where it starts, and its bytes.\<close>

definition put :: "nat \<times> u8 list \<Rightarrow> u8 list \<Rightarrow> u8 list" where
  "put p img = take (fst p) img @ snd p @ drop (fst p + length (snd p)) img"

definition disk_image :: "nat \<Rightarrow> (nat \<times> u8 list) list \<Rightarrow> u8 list" where
  "disk_image N ps = fold put ps (replicate N 0)"

lemma put_length: "fst p + length (snd p) \<le> length img \<Longrightarrow> length (put p img) = length img"
  by (simp add: put_def)

lemma put_behind:
  assumes "length e \<le> off" "off + length d \<le> N"
  shows "put (off, d) (e @ replicate (N - length e) 0) = e @ replicate (off - length e) 0 @ d @ replicate (N - (off + length d)) 0"
proof -
  have "take off (e @ replicate (N - length e) 0) = e @ replicate (off - length e) 0" using assms by simp
  moreover have "drop (off + length d) (e @ replicate (N - length e) 0) = replicate (N - (off + length d)) 0" using assms by simp
  ultimately show ?thesis by (simp add: put_def)
qed

lemma skip_to_ok:
  assumes g: "geom info B N" and w: "writer info B N out cks" and off: "B dvd off" "length (expands B cks) \<le> off" "off \<le> N"
  obtains out1 cks1 where "(if of_nat off > cur_out_ptr out then emit_skip_chunk force plain_disk info out (of_nat off - cur_out_ptr out) else Inr (0, out)) = Inr (0, out1)"
    "\<not> of_nat off < cur_out_ptr out" "writer info B N out1 cks1" "expands B cks1 = expands B cks @ replicate (off - length (expands B cks)) 0"
    "length cks1 \<le> length cks + 1"
proof -
  define e where "e = length (expands B cks)"
  have cur: "cur_out_ptr out = of_nat e" "B dvd e" using w by (auto simp: writer_def e_def)
  have un: "unat (of_nat m :: u64) = m" if "m \<le> N" for m using that geom_simps(10) [OF g] by (intro unat_of_nat_lt) simp
  have le: "e \<le> off" using off(2) by (simp add: e_def)
  have lt: "(of_nat e :: u64) < of_nat off \<longleftrightarrow> e < off" "\<not> (of_nat off :: u64) < of_nat e"
    using le off(3) by (simp_all add: word_less_nat_alt un)
  show thesis
  proof (cases "e < off")
    case True
    have d: "B dvd off - e" using off(1) cur(2) by (rule dvd_diff_nat)
    moreover have "length (expands B cks) + (off - e) \<le> N" using le off(3) by (simp add: e_def)
    ultimately obtain out1 where "emit_skip_chunk force plain_disk info out (of_nat (off - e)) = Inr (0, out1)"
        "writer info B N out1 (cks @ [Skip ((off - e) div B)])"
      using emit_skip_ok [OF g w] by blast
    then show thesis using that [of out1 "cks @ [Skip ((off - e) div B)]"] True lt le d
      by (simp add: cur(1) of_nat_diff e_def [symmetric])
  qed (use that [of out cks] w lt le in \<open>simp add: cur(1) e_def [symmetric]\<close>)
qed

lemma write_chunk_raw_ok:
  assumes g: "geom info B N" and w: "writer info B N out cks" and len: "unat len \<le> length data" "unat len + B \<le> 2 ^ 31"
    and off: "B dvd off" "length (expands B cks) \<le> off" "off + unat len \<le> N"
    and img: "expands B cks @ replicate (N - length (expands B cks)) 0 = disk_image N ps"
  shows "\<exists>out' cks'. write_chunk_raw force plain_disk info out (of_nat off) data len = Inr (0, out') \<and> writer info B N out' cks' \<and>
    length cks' \<le> length cks + 2 \<and> length (expands B cks') = off + round_up B (unat len) \<and>
    expands B cks' @ replicate (N - length (expands B cks')) 0 = disk_image N (ps @ [(off, take (unat len) data)])"
proof -
  note gs = geom_simps [OF g]
  define e where "e = length (expands B cks)"
  have le: "e \<le> off" "off \<le> N" using off by (auto simp: e_def)
  obtain out1 cks1 where o1: "(if of_nat off > cur_out_ptr out then emit_skip_chunk force plain_disk info out (of_nat off - cur_out_ptr out) else Inr (0, out)) = Inr (0, out1)"
      "\<not> of_nat off < cur_out_ptr out" "writer info B N out1 cks1" "expands B cks1 = expands B cks @ replicate (off - e) 0" "length cks1 \<le> length cks + 1"
    unfolding e_def by (rule skip_to_ok [OF g w off(1,2) le(2)])
  have l1: "length (expands B cks1) = off" using o1(4) le(1) by (simp add: e_def)
  then have c1: "cur_out_ptr out1 = of_nat off" using o1(3) by (simp add: writer_def)
  have R: "off + round_up B (unat len) \<le> N" using round_up_fits [OF gs(2) off(1) gs(9) off(3)] .
  define d where "d = take (unat len) data @ replicate (round_up B (unat len) - unat len) 0"
  obtain out' where o': "emit_raw_chunk force plain_disk info out1 data len = Inr (0, out')" "writer info B N out' (cks1 @ [Raw d])"
    using emit_raw_ok [OF g o1(3) len] R l1 unfolding d_def by auto
  have "unat (of_nat off :: u64) = off" using le(2) gs(10) by (intro unat_of_nat_lt) simp
  then have "unat ((of_nat off :: u64) mod ucast (info_block_size info)) = 0" using off(1) by (simp add: unat_mod gs(4))
  then have m: "(of_nat off :: u64) mod ucast (info_block_size info) = 0" by (simp add: unat_eq_0)
  have "write_chunk_raw force plain_disk info out (of_nat off) data len = Inr (0, out')"
    unfolding write_chunk_raw_def o1(1) using gs(3) by (simp add: o1(2) and_then_def m c1 o'(1))
  moreover have ru: "unat len \<le> round_up B (unat len)" using round_up_bounds [OF gs(2)] by blast
  then have ld: "length d = round_up B (unat len)" using len(1) by (simp add: d_def)
  moreover have "expands B (cks1 @ [Raw d]) @ replicate (N - (off + round_up B (unat len))) 0 = disk_image N (ps @ [(off, take (unat len) data)])"
  proof -
    have z: "replicate (round_up B (unat len) - unat len) (0 :: u8) @ replicate (N - (off + round_up B (unat len))) 0 = replicate (N - (off + unat len)) 0"
      unfolding replicate_add [symmetric] using R ru by simp
    have "disk_image N (ps @ [(off, take (unat len) data)]) = put (off, take (unat len) data) (expands B cks @ replicate (N - length (expands B cks)) 0)"
      by (simp add: disk_image_def img [unfolded disk_image_def])
    also have "\<dots> = expands B cks @ replicate (off - e) 0 @ take (unat len) data @ replicate (N - (off + unat len)) 0"
      unfolding e_def using off len(1) by (subst put_behind) simp_all
    finally show ?thesis by (simp add: o1(4) d_def z)
  qed
  ultimately show ?thesis using o'(2) o1(5) l1 by (intro exI [of _ out'] exI [of _ "cks1 @ [Raw d]"]) simp
qed

section \<open>Pieces in both formats\<close>

text \<open>What the file stands for: the pieces \<open>ps\<close> have been written, with at most \<open>n\<close> chunks and up to the offset \<open>pos\<close>.\<close>

definition holds :: "fs_info \<Rightarrow> nat \<Rightarrow> nat \<Rightarrow> output_file \<Rightarrow> (nat \<times> u8 list) list \<Rightarrow> nat \<Rightarrow> nat \<Rightarrow> bool" where
  "holds info B N out ps n pos \<longleftrightarrow>
     (if of_sparse out then
        \<exists>cks. writer info B N out cks \<and> length cks \<le> n \<and> length (expands B cks) = pos \<and>
          expands B cks @ replicate (N - length (expands B cks)) 0 = disk_image N ps
      else length (f_bytes (of_file out)) \<le> N \<and> f_bytes (of_file out) @ replicate (N - length (f_bytes (of_file out))) 0 = disk_image N ps)"

lemma place_put:
  assumes "length (f_bytes f) \<le> N" "f_pos f + length d \<le> N"
  shows "length (f_bytes (place f d)) \<le> N \<and>
    f_bytes (place f d) @ replicate (N - length (f_bytes (place f d))) 0 = put (f_pos f, d) (f_bytes f @ replicate (N - length (f_bytes f)) 0)"
proof (cases "d = []")
  case False
  let ?b = "f_bytes f" and ?p = "f_pos f"
  have "length ?b \<le> ?p + length d \<Longrightarrow> N - (?p + length d) = N - length ?b - (?p + length d - length ?b)" by linarith
  moreover have "take ?p (?b @ replicate (N - length ?b) 0) = take ?p (?b @ replicate (?p - length ?b) 0)" using assms by (simp add: min_def)
  ultimately show ?thesis using False assms by (cases "length ?b \<le> ?p + length d") (auto simp: place_def put_def)
qed (use assms in \<open>simp add: place_def put_def del: take_append drop_append\<close>)

lemma raw_write:
  assumes "length (f_bytes (of_file out)) \<le> N" "off + unat len \<le> N" "unat len \<le> length data" "unat len < 2 ^ 31"
  shows "and_then (file_seek force plain_disk out off) (\<lambda>(ret, out). if ret < 0 then Inr out else ignore (file_write force plain_disk out data len)) =
    Inr (out\<lparr>of_file := place ((of_file out)\<lparr>f_pos := off\<rparr>) (take (unat len) data)\<rparr>)"
  using assms sint_small [OF assms(4)] by (simp add: file_seek_def file_write_def and_then_def ignore_def)

lemma write_at_ok:
  assumes g: "geom info B N" and h: "holds info B N out ps n pos" and len: "unat len \<le> length data" "unat len + B \<le> 2 ^ 31"
    and off: "B dvd off" "pos \<le> off" "off + unat len \<le> N"
  shows "\<exists>out'. write_at force plain_disk info out (of_nat off) data len = Inr out' \<and> of_sparse out' = of_sparse out \<and>
    holds info B N out' (ps @ [(off, take (unat len) data)]) (n + 2) (off + round_up B (unat len))"
proof (cases "of_sparse out")
  case True
  then obtain cks where c: "writer info B N out cks" "length cks \<le> n" "length (expands B cks) = pos"
      "expands B cks @ replicate (N - length (expands B cks)) 0 = disk_image N ps"
    using h by (auto simp: holds_def)
  obtain out' cks' where o: "write_chunk_raw force plain_disk info out (of_nat off) data len = Inr (0, out')" "writer info B N out' cks'"
      "length cks' \<le> length cks + 2" "length (expands B cks') = off + round_up B (unat len)"
      "expands B cks' @ replicate (N - length (expands B cks')) 0 = disk_image N (ps @ [(off, take (unat len) data)])"
    using write_chunk_raw_ok [OF g c(1) len off(1) _ off(3) c(4)] c(3) off(2) by blast
  moreover have "of_sparse out'" using o(2) by (simp add: writer_def)
  ultimately show ?thesis using True c(2) by (auto simp: write_at_def holds_def ignore_def and_then_def)
next
  case False
  note r = h [unfolded holds_def if_not_P [OF False]]
  have u: "unat (of_nat off :: u64) = off" using off(3) geom_simps(10) [OF g] by (intro unat_of_nat_lt) simp
  have l: "unat len < 2 ^ 31" using len(2) geom_simps(2) [OF g] by linarith
  let ?f = "(of_file out)\<lparr>f_pos := off\<rparr>"
  have "length (f_bytes (place ?f (take (unat len) data))) \<le> N \<and>
      f_bytes (place ?f (take (unat len) data)) @ replicate (N - length (f_bytes (place ?f (take (unat len) data)))) 0 =
      put (off, take (unat len) data) (disk_image N ps)"
    using place_put [of ?f N "take (unat len) data"] r off(3) len(1) by simp
  then show ?thesis using False raw_write [OF conjunct1 [OF r] off(3) len(1) l, of force]
    by (simp add: write_at_def u holds_def disk_image_def)
qed

section \<open>The blocks of an image\<close>

lemma off_check:
  fixes len :: u32
  assumes g: "geom info B N" and "unat len < 2 ^ 31" "off \<le> N"
  shows "(of_nat off :: u64) + scast len > info_len info \<longleftrightarrow> off + unat len > N" "(of_nat off :: u64) + scast len \<ge> info_len info \<longleftrightarrow> off + unat len \<ge> N"
proof -
  have "(of_nat off :: u64) + scast len = of_nat (off + unat len)" by (simp only: scast_small [OF assms(2)] of_nat_add)
  moreover have "unat (of_nat (off + unat len) :: u64) = off + unat len"
    using assms(2,3) geom_simps(10) [OF g] by (intro unat_of_nat_lt) simp
  ultimately show "(of_nat off :: u64) + scast len > info_len info \<longleftrightarrow> off + unat len > N" "(of_nat off :: u64) + scast len \<ge> info_len info \<longleftrightarrow> off + unat len \<ge> N"
    using geom_simps(8) [OF g] by (simp_all add: word_less_nat_alt word_le_nat_alt)
qed

lemma write_data_block_ok:
  assumes g: "geom info B N" and h: "holds info B N out ps n pos" and len: "unat len \<le> length data" "unat len + B \<le> 2 ^ 31"
    and off: "B dvd off" "pos \<le> off" "off + unat len \<le> N"
  shows "\<exists>out'. write_data_block force plain_disk info out (of_nat off) data len = Inr out' \<and> of_sparse out' = of_sparse out \<and>
    holds info B N out' (ps @ [(off, take (unat len) data)]) (n + 2) (off + round_up B (unat len))"
proof -
  have "unat len < 2 ^ 31" "off \<le> N" using len(2) geom_simps(2) [OF g] off(3) by linarith+
  with off_check(1) [OF g this] off(3) write_at_ok [OF g h len off] show ?thesis by (simp add: write_data_block_def)
qed

text \<open>The bytes of a block, and where it lies.\<close>

type_synonym memory = "nat \<Rightarrow> u8 list"
type_synonym files = "string \<Rightarrow> nat \<Rightarrow> u32 \<Rightarrow> u8 list option"

definition db_bytes :: "memory \<Rightarrow> files \<Rightarrow> data_block \<Rightarrow> u8 list option" where
  "db_bytes mem fs d = (case db_filename d of None \<Rightarrow> Some (mem (db_data d)) | Some f \<Rightarrow> fs f (db_offset d) (db_len d))"

definition db_piece :: "nat \<Rightarrow> memory \<Rightarrow> files \<Rightarrow> data_block \<Rightarrow> nat \<times> u8 list" where
  "db_piece B mem fs d = (unat (db_block d) * B, take (unat (db_len d)) (the (db_bytes mem fs d)))"

text \<open>The blocks follow each other from the offset \<open>pos\<close> on without overlap, each in whole blocks, and end inside the image; a
  piece of a file has to end before it, as \<^verbatim>\<open>write_data_file\<close> asks for.\<close>

fun laid_out :: "nat \<Rightarrow> nat \<Rightarrow> memory \<Rightarrow> files \<Rightarrow> nat \<Rightarrow> data_block list \<Rightarrow> bool" where
  "laid_out B N mem fs pos [] \<longleftrightarrow> pos \<le> N"
| "laid_out B N mem fs pos (d # ds) \<longleftrightarrow>
     pos \<le> unat (db_block d) * B \<and> 0 < unat (db_len d) \<and> unat (db_len d) + B \<le> 2 ^ 31 \<and>
     unat (db_block d) * B + unat (db_len d) \<le> (if db_filename d = None then N else N - 1) \<and>
     (case db_bytes mem fs d of None \<Rightarrow> False | Some data \<Rightarrow> unat (db_len d) \<le> length data) \<and>
     laid_out B N mem fs (unat (db_block d) * B + round_up B (unat (db_len d))) ds"

lemma block_offset:
  fixes b :: u32
  assumes "geom info B N" "unat b * B \<le> N"
  shows "(ucast b * ucast (info_block_size info) :: u64) = of_nat (unat b * B)"
proof -
  have "unat b * B < 2 ^ 64" using assms(2) geom_simps(10) [OF assms(1)] by simp
  then have "unat (ucast b * ucast (info_block_size info) :: u64) = unat b * B"
    unfolding unat_word_ariths(2) unat_ucast_32(2) geom_simps(1) [OF assms(1)] by simp
  then have "of_nat (unat (ucast b * ucast (info_block_size info) :: u64)) = (of_nat (unat b * B) :: u64)" by (simp only:)
  then show ?thesis by simp
qed

lemma last_block_bound:
  assumes g: "geom info B N" and "unat b * B + unat len \<le> N" "0 < unat len" "unat len + B \<le> 2 ^ 31"
  shows "unat (b + DIV_ROUND_UP len (info_block_size info) - 1) * B \<le> unat b * B + round_up B (unat len)"
proof -
  note gs = geom_simps [OF g]
  define c where "c = (unat len + B - 1) div B"
  have c: "c * B = round_up B (unat len)" by (simp add: c_def round_up_def)
  have "unat (len + info_block_size info - 1) = unat len + B - 1"
  proof -
    have "unat (len + info_block_size info) = unat len + B" using assms(4) gs(1) by (simp add: unat_word_ariths)
    moreover have "(1 :: u32) \<le> len + info_block_size info" using calculation assms(3) by (simp add: word_le_nat_alt)
    ultimately show ?thesis by (simp add: unat_sub)
  qed
  then have d: "unat (DIV_ROUND_UP len (info_block_size info)) = c" by (simp add: DIV_ROUND_UP_def unat_div gs(1) c_def)
  have "0 < c" using c round_up_bounds [OF gs(2), of "unat len"] assms(3) by (cases c) auto
  have "(unat b + c) * B \<le> N"
    using round_up_fits [OF gs(2) _ gs(9) assms(2)] c by (simp add: algebra_simps)
  then have "unat b + c \<le> N div B" using gs(2) by (simp add: less_eq_div_iff_mult_less_eq)
  also have "\<dots> < 2 ^ 32" using g unfolding geom_def by blast
  finally have s: "unat b + c < 2 ^ 32" .
  then have "unat (b + DIV_ROUND_UP len (info_block_size info)) = unat b + c" by (simp add: unat_word_ariths d)
  moreover have "(1 :: u32) \<le> b + DIV_ROUND_UP len (info_block_size info)" using calculation \<open>0 < c\<close> by (simp add: word_le_nat_alt)
  ultimately have "unat (b + DIV_ROUND_UP len (info_block_size info) - 1) = unat b + c - 1" by (simp add: unat_sub)
  then have "unat (b + DIV_ROUND_UP len (info_block_size info) - 1) * B \<le> (unat b + c) * B" by (simp add: mult_le_mono1)
  then show ?thesis using c by (simp add: algebra_simps)
qed

lemma one_block_ok:
  assumes g: "geom info B N" and h: "holds info B N out ps n pos" and l: "laid_out B N mem fs pos (d # ds)"
  shows "\<exists>out'. (case db_filename d of
        Some name \<Rightarrow> write_data_file force plain_disk info fs out (ucast (db_block d) * ucast (info_block_size info)) name (db_offset d) (db_len d)
      | None \<Rightarrow> write_data_block force plain_disk info out (ucast (db_block d) * ucast (info_block_size info)) (mem (db_data d)) (db_len d)) = Inr out' \<and>
    of_sparse out' = of_sparse out \<and> holds info B N out' (ps @ [db_piece B mem fs d]) (n + 2) (unat (db_block d) * B + round_up B (unat (db_len d)))"
proof -
  let ?off = "unat (db_block d) * B" and ?len = "db_len d"
  have N: "?off + unat ?len \<le> N" using l by (auto split: if_splits)
  have off: "(ucast (db_block d) * ucast (info_block_size info) :: u64) = of_nat ?off" using N by (intro block_offset [OF g]) simp
  obtain data where data: "db_bytes mem fs d = Some data" "unat ?len \<le> length data" using l by (auto split: option.splits)
  have small: "unat ?len < 2 ^ 31" "unat ?len + B \<le> 2 ^ 31" "?off \<le> N" using l N geom_simps(2) [OF g] by auto
  have w: "\<exists>out'. write_at force plain_disk info out (of_nat ?off) data ?len = Inr out' \<and> of_sparse out' = of_sparse out \<and>
      holds info B N out' (ps @ [db_piece B mem fs d]) (n + 2) (?off + round_up B (unat ?len))"
    unfolding db_piece_def data(1) option.sel using l by (intro write_at_ok [OF g h data(2) small(2) _ _ N]) auto
  show ?thesis
  proof (cases "db_filename d")
    case None
    then have "mem (db_data d) = data" using data(1) by (simp add: db_bytes_def)
    with None w off_check(1) [OF g small(1,3)] N off show ?thesis by (simp add: write_data_block_def)
  next
    case (Some name)
    then have "fs name (db_offset d) (db_len d) = Some data" using data(1) by (simp add: db_bytes_def)
    moreover have "?off + unat ?len < N" using l Some by auto
    ultimately show ?thesis using Some w off_check(2) [OF g small(1,3)] off by (simp add: write_data_file_def)
  qed
qed

lemma for_each_ok:
  assumes g: "geom info B N"
  shows "chain h p as \<Longrightarrow> laid_out B N mem fs pos (map ((!) h) as) \<Longrightarrow> holds info B N out ps n pos \<Longrightarrow> unat last_block * B \<le> pos \<Longrightarrow>
    \<exists>out' pos'. for_each_data_block force plain_disk info mem fs h p last_block out = Some (Inr out') \<and> of_sparse out' = of_sparse out \<and> pos' \<le> N \<and>
      holds info B N out' (ps @ map (db_piece B mem fs) (map ((!) h) as)) (n + 2 * length as) pos'"
proof (induction as arbitrary: p pos out ps n last_block)
  case Nil
  then show ?case by (subst for_each_data_block.simps) auto
next
  case (Cons a as)
  note gs = geom_simps [OF g]
  let ?d = "h ! a" and ?pos = "unat (db_block (h ! a)) * B + round_up B (unat (db_len (h ! a)))"
  have l: "laid_out B N mem fs pos (?d # map ((!) h) as)" using Cons.prems(2) by simp
  obtain out' where o: "(case db_filename ?d of
        Some name \<Rightarrow> write_data_file force plain_disk info fs out (ucast (db_block ?d) * ucast (info_block_size info)) name (db_offset ?d) (db_len ?d)
      | None \<Rightarrow> write_data_block force plain_disk info out (ucast (db_block ?d) * ucast (info_block_size info)) (mem (db_data ?d)) (db_len ?d)) = Inr out'"
      "of_sparse out' = of_sparse out" "holds info B N out' (ps @ [db_piece B mem fs ?d]) (n + 2) ?pos"
    using one_block_ok [OF g Cons.prems(3) l] by blast
  have "unat last_block * B \<le> unat (db_block ?d) * B" using l by (intro order.trans [OF Cons.prems(4)]) simp
  then have "unat last_block \<le> unat (db_block ?d)" using gs(2) by (simp only: mult_le_cancel2)
  then have "\<not> db_block ?d < last_block" by (simp add: word_less_nat_alt)
  moreover have "unat (db_block ?d + DIV_ROUND_UP (db_len ?d) (info_block_size info) - 1) * B \<le> ?pos"
    using l by (intro last_block_bound [OF g]) (auto split: if_splits)
  moreover have "laid_out B N mem fs ?pos (map ((!) h) as)" using l by simp
  moreover have "p = Some a" "chain h (db_next ?d) as" using Cons.prems(1) by auto
  ultimately show ?case
    using Cons.IH [OF _ _ o(3), of "db_next ?d" "db_block ?d + DIV_ROUND_UP (db_len ?d) (info_block_size info) - 1"] o(1,2) gs(3)
    by (subst for_each_data_block.simps) (simp add: Let_def)
qed

section \<open>The end of the file\<close>

lemma pad_sparse_ok:
  assumes g: "geom info B N" and h: "holds info B N out ps n pos" "of_sparse out"
  obtains out' cks where "pad_output_file force plain_disk info out (info_len info) = Inr out'" "writer info B N out' cks"
    "expands B cks = disk_image N ps" "length cks \<le> n + 1"
proof -
  note gs = geom_simps [OF g]
  obtain cks where c: "writer info B N out cks" "length cks \<le> n" "expands B cks @ replicate (N - length (expands B cks)) 0 = disk_image N ps"
    using h by (auto simp: holds_def)
  have N: "of_nat N = info_len info" "length (expands B cks) \<le> N" using gs(8) c(1) by (auto simp: writer_def)
  obtain out1 cks1 where o: "(if of_nat N > cur_out_ptr out then emit_skip_chunk force plain_disk info out (of_nat N - cur_out_ptr out) else Inr (0, out)) = Inr (0, out1)"
      "\<not> of_nat N < cur_out_ptr out" "writer info B N out1 cks1" "expands B cks1 = expands B cks @ replicate (N - length (expands B cks)) 0"
      "length cks1 \<le> length cks + 1"
    by (rule skip_to_ok [OF g c(1) gs(9) N(2) order.refl])
  have "pad_output_file force plain_disk info out (info_len info) = Inr out1"
    using o(1,2) h(2) unfolding N(1) by (auto simp: pad_output_file_def ignore_def and_then_def split: if_splits)
  then show thesis using that [OF _ o(3)] o(4,5) c(2,3) by simp
qed

definition finished :: "fs_info \<Rightarrow> nat \<Rightarrow> nat \<Rightarrow> u8 list \<Rightarrow> ck list \<Rightarrow> bool" where
  "finished info B N bytes cks \<longleftrightarrow>
     (\<exists>h. bytes = sparse_header_bytes h @ encs B cks \<and> sh_magic h = SPARSE_HEADER_MAGIC \<and> major_version h = 1 \<and> file_hdr_sz h = 28 \<and>
        chunk_hdr_sz h = 12 \<and> blk_sz h = info_block_size info \<and> total_blks h = of_nat (N div B) \<and>
        total_chunks h = of_nat (length cks) \<and> image_checksum h = sparse_crc32 0 (expands B cks)) \<and> (\<forall>c \<in> set cks. ck_ok B c)"

lemma close_sparse_ok:
  assumes "writer info B N out cks"
  shows "\<exists>out'. close_output_file force plain_disk out = Inr out' \<and> finished info B N (f_bytes (of_file out')) cks"
proof -
  define h where "h = (sparse_header out)\<lparr>total_chunks := chunk_cnt out, image_checksum := of_crc32 out\<rparr>"
  have p: "place ((at_end (sparse_header_bytes (sparse_header out) @ encs B cks))\<lparr>f_pos := 0\<rparr>) (sparse_header_bytes h) =
      \<lparr>f_bytes = sparse_header_bytes h @ encs B cks, f_pos = 28\<rparr>"
    by (simp add: place_def at_end_def sparse_header_bytes_def le32_def)
  have w: "of_sparse out" "of_file out = at_end (sparse_header_bytes (sparse_header out) @ encs B cks)" using assms by (auto simp: writer_def)
  have "sint (28 :: u32) = 28" using sint_small [of "28 :: u32"] by simp
  then have "close_output_file force plain_disk out = Inr (out\<lparr>sparse_header := h, of_file := \<lparr>f_bytes = sparse_header_bytes h @ encs B cks, f_pos = 28\<rparr>\<rparr>)"
    using w p by (simp add: close_output_file_def h_def [symmetric] Let_def file_seek_def file_write_def and_then_def SPARSE_HEADER_LEN_def)
  moreover have "finished info B N (sparse_header_bytes h @ encs B cks) cks"
    unfolding finished_def using assms by (intro conjI exI [of _ h]) (auto simp: writer_def h_def)
  ultimately show ?thesis by simp
qed

end
