(* ===== verification/Sparse_Roundtrip.thy ===== *)
theory Sparse_Roundtrip
  imports Sparse_Facts
begin

text \<open>
  The expansion of a finished sparse image, and the way of queued blocks through \<^verbatim>\<open>write_ext4_image\<close> and \<^verbatim>\<open>simg2img\<close>.
\<close>

section \<open>Reading chunks\<close>

lemma raw_loop_ok:
  "padded_to out b \<Longrightarrow> unat len = length d \<Longrightarrow>
     \<exists>out'. raw_loop plain_disk (d @ ins) out crc len = Some (ins, out', sparse_crc32 crc d) \<and> padded_to out' (b @ d)"
proof (induction "length d" arbitrary: d out b crc len rule: less_induct)
  case less
  show ?case
  proof (cases "len = 0")
    case True
    then show ?thesis using less.prems by (subst raw_loop.simps) (auto simp: sparse_crc32_def)
  next
    case False
    define c where "c = (if len > COPY_BUF_SIZE then COPY_BUF_SIZE else len)"
    have c: "c \<noteq> 0" "c \<le> len" using False by (auto simp: c_def COPY_BUF_SIZE_def)
    have u: "unat c \<le> length d" "0 < unat c" "unat (len - c) = length (drop (unat c) d)"
      using c less.prems(2) by (auto simp: word_le_nat_alt unat_gt_0 unat_sub)
    let ?d = "take (unat c) d"
    have l: "length (drop (unat c) d) < length d" using u(1,2) by simp
    obtain out' where "raw_loop plain_disk (drop (unat c) d @ ins) (place out ?d) (sparse_crc32 crc ?d) (len - c) =
        Some (ins, out', sparse_crc32 (sparse_crc32 crc ?d) (drop (unat c) d))" "padded_to out' ((b @ ?d) @ drop (unat c) d)"
      using less.hyps [OF l padded_place [OF less.prems(1)] u(3)] by blast
    then show ?thesis using False u(1)
      by (subst raw_loop.simps) (simp add: c_def [symmetric] Let_def fread_def fwrite_def sparse_crc32_append)
  qed
qed

lemma seek_loop_ok:
  "\<exists>sc'. seek_loop pos sc len = (pos + unat len, sc') \<and> (len \<noteq> 0 \<longrightarrow> B dvd unat len \<longrightarrow> B dvd 2 ^ 31 \<longrightarrow> B \<le> unat sc')"
proof (induction "unat len" arbitrary: pos sc len rule: less_induct)
  case less
  show ?case
  proof (cases "len = 0")
    case True
    then show ?thesis by (subst seek_loop.simps) simp
  next
    case False
    define c :: u32 where "c = (if len > 0x80000000 then 0x80000000 else ucast len)"
    have u: "unat c = min (unat len) (2 ^ 31)"
    proof (cases "len > 0x80000000")
      case True
      then show ?thesis by (simp add: c_def word_less_nat_alt)
    next
      case False
      then have "unat len \<le> 2 ^ 31" by (simp add: word_less_nat_alt)
      then show ?thesis using False by (simp add: c_def unat_ucast_32)
    qed
    have le: "(ucast c :: u64) \<le> len" "(ucast c :: u64) \<noteq> 0"
      using u False by (auto simp: word_le_nat_alt unat_ucast_32 unat_eq_0 [symmetric] simp del: unat_eq_0)
    have d: "unat (len - ucast c) = unat len - unat c" using le(1) by (simp add: unat_sub unat_ucast_32)
    have "unat (len - ucast c) < unat len" using word_sub_less [OF le(2,1)] .
    then obtain sc' where sc': "seek_loop (pos + unat c) c (len - ucast c) = (pos + unat c + unat (len - ucast c), sc')"
        "len - ucast c \<noteq> 0 \<longrightarrow> B dvd unat (len - ucast c) \<longrightarrow> B dvd 2 ^ 31 \<longrightarrow> B \<le> unat sc'"
      using less.hyps by blast
    have eq: "seek_loop pos sc len = seek_loop (pos + unat c) c (len - ucast c)"
      using False by (subst seek_loop.simps) (simp add: c_def Let_def)
    have "B \<le> unat sc'" if B: "B dvd unat len" "B dvd 2 ^ 31"
    proof (cases "len - ucast c = 0")
      case True
      then have "sc' = c" using sc'(1) by (simp add: seek_loop.simps)
      moreover have "unat c = unat len" using True d le(1) by (simp add: word_le_nat_alt unat_ucast_32)
      ultimately show ?thesis using B(1) False by (auto simp: unat_gt_0 dest!: dvd_imp_le)
    next
      case nz: False
      have "B dvd unat c" using B u by (simp add: min_def)
      with B nz sc'(2) show ?thesis by (simp add: d dvd_diff_nat)
    qed
    moreover have "pos + unat c + unat (len - ucast c) = pos + unat len" using d u by simp
    ultimately show ?thesis using eq sc'(1) by auto
  qed
qed

lemma skip_crc_ok:
  "unat bs = B \<Longrightarrow> B < 2 ^ 32 \<Longrightarrow> m = 0 \<or> B \<le> unat sc \<Longrightarrow> unat (len :: u64) = m * B \<Longrightarrow>
     skip_crc (replicate B 0) bs crc len sc = Some (sparse_crc32 crc (replicate (m * B) 0))"
proof (induction m arbitrary: crc len sc)
  case 0
  then show ?case by (subst skip_crc.simps) (simp add: unat_eq_0 sparse_crc32_def)
next
  case (Suc m)
  show ?case
  proof (cases "B = 0")
    case True
    then show ?thesis using Suc.prems by (subst skip_crc.simps) (simp add: unat_eq_0 sparse_crc32_def)
  next
    case False
    then have "len \<noteq> 0" using Suc.prems(4) by auto
    have c: "(if sc > bs then bs else sc) = bs" using Suc.prems(1,3) by (auto simp: word_less_nat_alt word_unat_eq_iff)
    have "(ucast bs :: u64) \<le> len" using Suc.prems(1,4) by (simp add: word_le_nat_alt unat_ucast_32)
    then have "unat (len - ucast bs) = m * B" using Suc.prems(1,4) by (simp add: unat_sub unat_ucast_32)
    then have "skip_crc (replicate B 0) bs (sparse_crc32 crc (replicate B 0)) (len - ucast bs) bs =
        Some (sparse_crc32 (sparse_crc32 crc (replicate B 0)) (replicate (m * B) 0))"
      using Suc.prems(1,2) by (intro Suc.IH) auto
    then show ?thesis using \<open>len \<noteq> 0\<close> c Suc.prems(1)
      by (subst skip_crc.simps) (simp add: Let_def sparse_crc32_append replicate_add)
  qed
qed

lemma chunk_product:
  assumes "geom info B N" "m * B < 2 ^ 63" "m < 2 ^ 32"
  shows "unat (ucast (of_nat m :: u32) * ucast (info_block_size info) :: u64) = m * B"
proof -
  have "unat (of_nat m :: u32) = m" using assms(3) by (intro unat_of_nat_lt) simp
  then show ?thesis using assms(2) unfolding unat_word_ariths(2) unat_ucast_32(2) geom_simps(1) [OF assms(1)] by simp
qed

text \<open>The header that the reader has read.\<close>

definition reads :: "fs_info \<Rightarrow> sparse_header_t \<Rightarrow> bool" where
  "reads info sh \<longleftrightarrow> chunk_hdr_sz sh = 12 \<and> blk_sz sh = info_block_size info"

lemma one_chunk_ok:
  assumes g: "geom info B N" and sh: "reads info sh" and c: "ck_ok B c" and p: "padded_to out b"
  shows "\<exists>out'. one_chunk plain_disk (replicate B 0) junk sh (enc_ck B c @ ins, out, crc, tb) =
      Some (Inr (ins, out', sparse_crc32 crc (expand B c), tb + of_nat (length (expand B c) div B))) \<and> padded_to out' (b @ expand B c)"
proof -
  note gs = geom_simps [OF g]
  have read: "fread 12 (chunk_header_bytes h @ xs) = Some (chunk_header_bytes h, xs)" for h xs
    by (simp add: fread_def)
  have un: "un_chunk_header (chunk_header_bytes h) = h" for h using un_chunk_header_bytes [of h "[]"] by simp
  have h: "unat (chunk_hdr_sz sh) = 12" "(ucast (chunk_hdr_sz sh) :: u32) = 12" "blk_sz sh = info_block_size info" using sh by (simp_all add: reads_def)
  show ?thesis
  proof (cases c)
    case (Raw d)
    then have d: "B dvd length d" "length d \<le> 2 ^ 31" using c by auto
    then have m: "length d div B * B = length d" "length d div B < 2 ^ 32" by (auto simp: le_less_trans [OF div_le_dividend])
    have "info_block_size info = of_nat B" unfolding gs(1) [symmetric] by simp
    then have "of_nat (length d div B) * info_block_size info = of_nat (length d div B * B)" by (simp only: of_nat_mult)
    then have t: "of_nat (12 + length d) = (12 :: u32) + of_nat (length d div B) * info_block_size info" by (simp add: m(1))
    have "unat (ucast (of_nat (length d div B) :: u32) * ucast (info_block_size info) :: u64) = length d"
      using chunk_product [OF g, of "length d div B"] m d(2) by simp
    then obtain out' where "raw_loop plain_disk (d @ ins) out crc (ucast (of_nat (length d div B) :: u32) * ucast (info_block_size info)) =
        Some (ins, out', sparse_crc32 crc d)" "padded_to out' (b @ d)"
      using raw_loop_ok [OF p] by blast
    then show ?thesis using Raw t
      by (simp add: one_chunk_def read un h Let_def CHUNK_HEADER_LEN_def process_raw_chunk_def)
  next
    case (Skip n)
    then have n: "n < 2 ^ 32" using c by simp
    define len :: u64 where "len = ucast (of_nat n :: u32) * ucast (info_block_size info)"
    have "n * B \<le> (2 ^ 32 - 1) * 2 ^ 30" using n gs(6) by (intro mult_le_mono) auto
    then have len: "unat len = n * B" using chunk_product [OF g _ n] by (simp add: len_def)
    obtain sc where sc: "seek_loop (f_pos out) junk len = (f_pos out + n * B, sc)" "len \<noteq> 0 \<longrightarrow> B \<le> unat sc"
      using seek_loop_ok [of "f_pos out" junk len B] gs(7) len by auto
    have "n = 0 \<or> B \<le> unat sc" using sc(2) len gs(2) by (auto simp: unat_eq_0 [symmetric] simp del: unat_eq_0)
    then have "skip_crc (replicate B 0) (info_block_size info) crc len sc = Some (sparse_crc32 crc (replicate (n * B) 0))"
      using gs(1,6) len by (intro skip_crc_ok) auto
    then show ?thesis using Skip sc(1) padded_skip [OF p, of "n * B"] gs(2)
      by (simp add: one_chunk_def read un h CHUNK_HEADER_LEN_def Let_def process_skip_chunk_def len_def [symmetric] CHUNK_TYPE_RAW_def CHUNK_TYPE_DONT_CARE_def)
  qed
qed

lemma chunk_loop_ok:
  assumes g: "geom info B N" and sh: "reads info sh"
  shows "\<forall>c \<in> set cks. ck_ok B c \<Longrightarrow> padded_to out b \<Longrightarrow>
    \<exists>out'. chunk_loop plain_disk (replicate B 0) junk sh (length cks) (encs B cks @ ins, out, crc, tb) =
        Some (Inr (ins, out', sparse_crc32 crc (expands B cks), tb + of_nat (\<Sum>c \<leftarrow> cks. length (expand B c) div B))) \<and>
      padded_to out' (b @ expands B cks)"
proof (induction cks arbitrary: out b crc tb)
  case Nil
  then show ?case by (simp add: sparse_crc32_def)
next
  case (Cons c cks)
  obtain out1 where o1: "one_chunk plain_disk (replicate B 0) junk sh (enc_ck B c @ encs B cks @ ins, out, crc, tb) =
      Some (Inr (encs B cks @ ins, out1, sparse_crc32 crc (expand B c), tb + of_nat (length (expand B c) div B)))" "padded_to out1 (b @ expand B c)"
    using one_chunk_ok [OF g sh _ Cons.prems(2)] Cons.prems(1) by fastforce
  obtain out' where "chunk_loop plain_disk (replicate B 0) junk sh (length cks) (encs B cks @ ins, out1, sparse_crc32 crc (expand B c), tb + of_nat (length (expand B c) div B)) =
      Some (Inr (ins, out', sparse_crc32 (sparse_crc32 crc (expand B c)) (expands B cks), tb + of_nat (length (expand B c) div B) + of_nat (\<Sum>c \<leftarrow> cks. length (expand B c) div B)))"
      "padded_to out' ((b @ expand B c) @ expands B cks)"
    using Cons.IH [OF _ o1(2)] Cons.prems(1) by fastforce
  then show ?case using o1(1) by (simp add: sparse_crc32_append add.assoc)
qed

lemma blocks_sum: "0 < B \<Longrightarrow> \<forall>c \<in> set cks. ck_ok B c \<Longrightarrow> (\<Sum>c \<leftarrow> cks. length (expand B c) div B) = length (expands B cks) div B"
proof (induction cks)
  case (Cons c cks)
  have "B dvd length (expand B c)" using Cons.prems by (cases c) auto
  then show ?case using Cons by (simp add: div_add1_eq [of "length (expand B c)"] mod_eq_0_iff_dvd [symmetric])
qed simp

text \<open>A finished image is expanded to what its chunks stand for.\<close>

lemma simg2img_ok:
  assumes g: "geom info B N" and f: "finished info B N bytes cks" and n: "length (expands B cks) = N" "length cks < 2 ^ 32"
  shows "\<exists>out. simg2img plain_disk True (Some bytes) (Some (at_end [])) (\<lambda>n. Some (replicate n 0)) junk = Some (Inr out) \<and>
    f_bytes out = expands B cks"
proof -
  note gs = geom_simps [OF g]
  obtain h where h: "bytes = sparse_header_bytes h @ encs B cks" "sh_magic h = SPARSE_HEADER_MAGIC" "major_version h = 1" "file_hdr_sz h = 28"
      "chunk_hdr_sz h = 12" "blk_sz h = info_block_size info" "total_blks h = of_nat (N div B)" "total_chunks h = of_nat (length cks)"
      "image_checksum h = sparse_crc32 0 (expands B cks)" "\<forall>c \<in> set cks. ck_ok B c"
    using f by (auto simp: finished_def)
  have "padded_to (at_end []) []" by (simp add: padded_to_def at_end_def)
  then obtain out where o: "chunk_loop plain_disk (replicate B 0) junk h (length cks) (encs B cks @ [], at_end [], 0, 0) =
      Some (Inr ([], out, sparse_crc32 0 (expands B cks), 0 + of_nat (\<Sum>c \<leftarrow> cks. length (expand B c) div B)))" "padded_to out ([] @ expands B cks)"
    using chunk_loop_ok [OF g _ h(10)] h(5,6) unfolding reads_def by blast
  have tc: "unat (total_chunks h) = length cks" unfolding h(8) using n(2) by (intro unat_of_nat_lt) simp
  have tb: "(\<Sum>c \<leftarrow> cks. length (expand B c) div B) = N div B" using blocks_sum [OF gs(2) h(10)] n(1) by simp
  have "N div B < 2 ^ 32" using g unfolding geom_def by blast
  then have sz: "unat (ucast (of_nat (N div B) :: u32) * ucast (info_block_size info) :: u64) = N"
    using chunk_product [OF g, of "N div B"] gs(9,10) by simp
  have "un_sparse_header (sparse_header_bytes h) = h" using un_sparse_header_bytes [of h "[]"] by simp
  moreover have "f_bytes (snd (disk_truncate plain_disk out N)) = expands B cks" using padded_truncate [OF o(2)] n(1) by simp
  ultimately show ?thesis
    using o(1) by (simp add: simg2img_def fread_def SPARSE_HEADER_LEN_def h(1-7,9) tc tb gs(1) finish_image_def and_then_def sz Let_def)
qed

section \<open>The whole image\<close>

lemma open_ok:
  assumes g: "geom info B N"
  obtains out where "open_output_file force plain_disk info (True, True) (Some (at_end [])) sparse = Inr (Some out)"
    "of_sparse out = sparse" "holds info B N out [] 0 0"
proof (cases sparse)
  case True
  note gs = geom_simps [OF g]
  define h where "h = \<lparr>sh_magic = SPARSE_HEADER_MAGIC, major_version = 1, minor_version = 0, file_hdr_sz = of_nat SPARSE_HEADER_LEN,
    chunk_hdr_sz = of_nat CHUNK_HEADER_LEN, blk_sz = info_block_size info, total_blks = ucast (info_len info div ucast (info_block_size info)),
    total_chunks = 0, image_checksum = 0\<rparr>"
  define out where "out = \<lparr>of_file = at_end (sparse_header_bytes h), of_sparse = True, cur_out_ptr = 0, chunk_cnt = 0, of_crc32 = 0, sparse_header = h,
    zero_buf = replicate B 0\<rparr>"
  have small: "N div B < 2 ^ 32" using g unfolding geom_def by blast
  then have "unat (ucast (info_len info div ucast (info_block_size info) :: u64) :: u32) = N div B"
    by (simp only: unat_ucast_32(1) unat_div gs(4,8)) simp
  moreover have "unat (of_nat (N div B) :: u32) = N div B" using small by (intro unat_of_nat_lt) simp
  ultimately have t: "ucast (info_len info div ucast (info_block_size info) :: u64) = (of_nat (N div B) :: u32)" by (simp only: word_unat_eq_iff)
  have "open_output_file force plain_disk info (True, True) (Some (at_end [])) True = Inr (Some out)"
    using gs(1,3) by (simp add: open_output_file_def file_write_end SPARSE_HEADER_LEN_def CHUNK_HEADER_LEN_def and_then_def h_def out_def Let_def)
  moreover have "writer info B N out []"
    using t by (simp add: writer_def out_def h_def SPARSE_HEADER_LEN_def CHUNK_HEADER_LEN_def sparse_crc32_def)
  ultimately show thesis using True that [of out] by (auto simp: holds_def out_def disk_image_def)
qed (use that in \<open>simp add: open_output_file_def holds_def at_end_def disk_image_def\<close>)

text \<open>The super block and the group descriptors lie in front of the queued blocks.\<close>

definition head_ok :: "nat \<Rightarrow> nat \<Rightarrow> fs_aux_info \<Rightarrow> bool" where
  "head_ok B N aux \<longleftrightarrow> 1024 \<le> B \<and> B \<le> 4096 \<and> 1024 \<le> length (aux_sb aux) \<and> first_data_block aux = (if B > 1024 then 0 else 1) \<and>
     unat (bg_desc_blocks aux) * B \<le> length (aux_bg_desc aux) \<and> unat (bg_desc_blocks aux) * B + B \<le> 2 ^ 31 \<and>
     (unat (first_data_block aux) + 1 + unat (bg_desc_blocks aux)) * B \<le> N"

definition head_pieces :: "nat \<Rightarrow> fs_aux_info \<Rightarrow> (nat \<times> u8 list) list" where
  "head_pieces B aux =
     [(if B > 1024 then (0, take B (replicate 1024 0 @ take 1024 (aux_sb aux) @ replicate 2048 0)) else (1024, take 1024 (aux_sb aux))),
      ((unat (first_data_block aux) + 1) * B, take (unat (bg_desc_blocks aux) * B) (aux_bg_desc aux))]"

definition head_end :: "nat \<Rightarrow> fs_aux_info \<Rightarrow> nat" where
  "head_end B aux = (unat (first_data_block aux) + 1 + unat (bg_desc_blocks aux)) * B"

lemma round_up_multiple: "0 < B \<Longrightarrow> round_up B (m * B) = m * B"
  using div_mult_self3 [of B m "B - 1"] by (simp add: round_up_def)

lemma write_super_block_ok:
  assumes g: "geom info B N" and a: "head_ok B N aux" and h: "holds info B N out [] 0 0"
  shows "\<exists>out'. write_super_block force plain_disk info aux out = Inr out' \<and> of_sparse out' = of_sparse out \<and>
    holds info B N out' [hd (head_pieces B aux)] (Suc (Suc 0)) ((unat (first_data_block aux) + 1) * B)"
proof -
  note gs = geom_simps [OF g] and o = a [unfolded head_ok_def]
  have gt: "info_block_size info > 1024 \<longleftrightarrow> B > 1024" by (simp add: word_less_nat_alt gs(1))
  have R: "round_up B B = B" using round_up_multiple [OF gs(2), of 1] by simp
  show ?thesis
  proof (cases "B > 1024")
    case True
    have "\<exists>out'. write_data_block force plain_disk info out (of_nat 0) (replicate 1024 0 @ take 1024 (aux_sb aux) @ replicate 2048 0) (info_block_size info) = Inr out' \<and>
        of_sparse out' = of_sparse out \<and> holds info B N out' ([] @ [(0, take (unat (info_block_size info)) (replicate 1024 0 @ take 1024 (aux_sb aux) @ replicate 2048 0))]) (0 + 2)
          (0 + round_up B (unat (info_block_size info)))"
      using o True by (intro write_data_block_ok [OF g h]) (auto simp: gs(1) min_def)
    then show ?thesis using True o by (simp add: write_super_block_def gt head_pieces_def gs(1) R)
  next
    case False
    then have B: "B = 1024" using o by simp
    have "\<exists>out'. write_data_block force plain_disk info out (of_nat 1024) (aux_sb aux) 1024 = Inr out' \<and>
        of_sparse out' = of_sparse out \<and> holds info B N out' ([] @ [(1024, take (unat (1024 :: u32)) (aux_sb aux))]) (0 + 2) (1024 + round_up B (unat (1024 :: u32)))"
      using o B by (intro write_data_block_ok [OF g h]) auto
    then show ?thesis using False o B R by (simp add: write_super_block_def gt head_pieces_def)
  qed
qed

lemma write_head_ok:
  assumes g: "geom info B N" and a: "head_ok B N aux" and h: "holds info B N out [] 0 0"
  shows "\<exists>out'. and_then (write_super_block force plain_disk info aux out) (\<lambda>out.
      write_data_block force plain_disk info out (ucast (first_data_block aux + 1) * ucast (info_block_size info))
        (aux_bg_desc aux) (bg_desc_blocks aux * info_block_size info)) = Inr out' \<and> of_sparse out' = of_sparse out \<and>
    holds info B N out' (head_pieces B aux) (Suc (Suc (Suc (Suc 0)))) (head_end B aux)"
proof -
  note gs = geom_simps [OF g] and o = a [unfolded head_ok_def]
  let ?f = "unat (first_data_block aux)" and ?n = "unat (bg_desc_blocks aux)"
  obtain out1 where o1: "write_super_block force plain_disk info aux out = Inr out1" "of_sparse out1 = of_sparse out"
      "holds info B N out1 [hd (head_pieces B aux)] (Suc (Suc 0)) ((?f + 1) * B)"
    using write_super_block_ok [OF g a h] by blast
  have f: "unat (first_data_block aux + 1) = ?f + 1" using o by (auto split: if_splits)
  have le: "(?f + 1) * B \<le> N" using o by (intro order.trans [OF mult_le_mono1 [of "?f + 1" "?f + 1 + ?n"]]) auto
  have off: "(ucast (first_data_block aux + 1) * ucast (info_block_size info) :: u64) = of_nat ((?f + 1) * B)"
    using block_offset [OF g, of "first_data_block aux + 1"] le f by simp
  have len: "unat (bg_desc_blocks aux * info_block_size info) = ?n * B"
    unfolding unat_word_ariths(2) gs(1) using o by simp
  have "\<exists>out'. write_data_block force plain_disk info out1 (of_nat ((?f + 1) * B)) (aux_bg_desc aux) (bg_desc_blocks aux * info_block_size info) = Inr out' \<and>
      of_sparse out' = of_sparse out1 \<and> holds info B N out' ([hd (head_pieces B aux)] @ [((?f + 1) * B, take (unat (bg_desc_blocks aux * info_block_size info)) (aux_bg_desc aux))]) (Suc (Suc 0) + 2)
        ((?f + 1) * B + round_up B (unat (bg_desc_blocks aux * info_block_size info)))"
    using o by (intro write_data_block_ok [OF g o1(3)]) (auto simp: len add_mult_distrib)
  then show ?thesis unfolding len off using o1(1,2) round_up_multiple [OF gs(2), of ?n]
    by (simp add: and_then_def head_pieces_def head_end_def algebra_simps)
qed

lemma laid_out_content:
  "laid_out B N mem fs pos (map content ds) = laid_out B N mem fs pos ds"
  "map (db_piece B mem fs) (map content ds) = map (db_piece B mem fs) ds"
proof -
  have c: "db_bytes mem fs (content d) = db_bytes mem fs d" "db_block (content d) = db_block d" "db_len (content d) = db_len d"
    "db_filename (content d) = db_filename d" for d
    by (simp_all add: content_def db_bytes_def split: option.split)
  show "laid_out B N mem fs pos (map content ds) = laid_out B N mem fs pos ds"
    by (induction ds arbitrary: pos) (simp_all add: c split: option.split)
  show "map (db_piece B mem fs) (map content ds) = map (db_piece B mem fs) ds" by (simp add: db_piece_def c)
qed

text \<open>All pieces of an image.\<close>

definition all_pieces :: "nat \<Rightarrow> memory \<Rightarrow> files \<Rightarrow> fs_aux_info \<Rightarrow> data_block list \<Rightarrow> (nat \<times> u8 list) list" where
  "all_pieces B mem fs aux ds = head_pieces B aux @ map (db_piece B mem fs) ds"

lemma pieces_written:
  assumes g: "geom info B N" and a: "head_ok B N aux" and q: "bq_inv q" and l: "laid_out B N mem fs (head_end B aux) (queued q)"
  obtains out pos where "of_sparse out = sparse" "holds info B N out (all_pieces B mem fs aux (queued q)) (4 + 2 * length (queued q)) pos"
    "write_ext4_image force plain_disk info aux mem fs q (True, True) (Some (at_end [])) sparse =
      Some (and_then (pad_output_file force plain_disk info out (info_len info)) (\<lambda>out.
        and_then (close_output_file force plain_disk out) (\<lambda>out. Inr (Some out))))"
proof -
  obtain out0 where o0: "open_output_file force plain_disk info (True, True) (Some (at_end [])) sparse = Inr (Some out0)"
    "of_sparse out0 = sparse" "holds info B N out0 [] 0 0" by (rule open_ok [OF g])
  obtain out1 where o1: "and_then (write_super_block force plain_disk info aux out0) (\<lambda>out.
      write_data_block force plain_disk info out (ucast (first_data_block aux + 1) * ucast (info_block_size info))
        (aux_bg_desc aux) (bg_desc_blocks aux * info_block_size info)) = Inr out1" "of_sparse out1 = sparse"
      "holds info B N out1 (head_pieces B aux) (Suc (Suc (Suc (Suc 0)))) (head_end B aux)"
    using write_head_ok [OF g a o0(3)] o0(2) by blast
  obtain as where as: "q_ok q as" using q by (auto simp: bq_inv_def)
  let ?h = "bq_heap q"
  have m: "queued q = map content (map ((!) ?h) as)" using queued_eq [OF as] by simp
  have c: "chain ?h (data_blocks q) as" using as by (simp add: q_ok_def)
  obtain out pos where o: "for_each_data_block force plain_disk info mem fs ?h (data_blocks q) 0 out1 = Some (Inr out)" "of_sparse out = of_sparse out1"
      "holds info B N out (head_pieces B aux @ map (db_piece B mem fs) (map ((!) ?h) as)) (Suc (Suc (Suc (Suc 0))) + 2 * length as) pos"
    using for_each_ok [OF g c l [unfolded m laid_out_content] o1(3), of 0 force] by auto
  have "holds info B N out (all_pieces B mem fs aux (queued q)) (4 + 2 * length (queued q)) pos"
    using o(3) unfolding m laid_out_content(2) all_pieces_def by (simp add: numeral_eq_Suc)
  moreover have "write_ext4_image force plain_disk info aux mem fs q (True, True) (Some (at_end [])) sparse =
      Some (and_then (pad_output_file force plain_disk info out (info_len info)) (\<lambda>out.
        and_then (close_output_file force plain_disk out) (\<lambda>out. Inr (Some out))))"
    by (simp only: write_ext4_image_def o0(1) o1(1) o(1) sum.case option.case option.map) (simp add: and_then_def)
  ultimately show thesis using that o(2) o1(2) by blast
qed

lemma pad_raw_ok:
  assumes g: "geom info B N" and h: "holds info B N out ps n pos" "\<not> of_sparse out" and N: "0 < N"
  shows "\<exists>out'. pad_output_file force plain_disk info out (info_len info) = Inr out' \<and> \<not> of_sparse out' \<and> f_bytes (of_file out') = (disk_image N ps)[N - 1 := 0]"
proof -
  note gs = geom_simps [OF g]
  let ?f = "(of_file out)\<lparr>f_pos := N - 1\<rparr>"
  note r = h(1) [unfolded holds_def if_not_P [OF h(2)]]
  have "1 \<le> info_len info" using N gs(8) by (simp add: word_le_nat_alt)
  then have "unat (info_len info - 1) = N - 1" using gs(8) by (simp add: unat_sub)
  then have "pad_output_file force plain_disk info out (info_len info) = Inr (out\<lparr>of_file := place ?f [0]\<rparr>)"
    using h(2) raw_write [OF conjunct1 [OF r], of "N - 1" "1 :: u32" "[0]" force] N by (simp add: pad_output_file_def)
  moreover have p: "length (f_bytes (place ?f [0])) \<le> N"
      "f_bytes (place ?f [0]) @ replicate (N - length (f_bytes (place ?f [0]))) 0 = put (N - 1, [0]) (disk_image N ps)"
    using place_put [of ?f N "[0]"] r N by auto
  have "N \<le> length (f_bytes (place ?f [0]))" using N by (simp add: place_def)
  with p have "f_bytes (place ?f [0]) = put (N - 1, [0]) (disk_image N ps)" by simp
  moreover have "length (disk_image N ps) = N" using arg_cong [OF conjunct2 [OF r], of length] conjunct1 [OF r] unfolding length_append length_replicate by linarith
  ultimately show ?thesis using N h(2) by (simp add: put_def upd_conv_take_nth_drop)
qed

lemma head_fits: "head_ok B N aux \<Longrightarrow> 0 < N"
  by (auto simp: head_ok_def intro: Nat.gr0I)

lemma image_length:
  assumes "geom info B N" "head_ok B N aux" "bq_inv q" "laid_out B N mem fs (head_end B aux) (queued q)"
  shows "length (disk_image N (all_pieces B mem fs aux (queued q))) = N"
proof -
  obtain out pos where "\<not> of_sparse out" "holds info B N out (all_pieces B mem fs aux (queued q)) (4 + 2 * length (queued q)) pos"
    using pieces_written [OF assms, where sparse = False] by metis
  then have "length (f_bytes (of_file out)) \<le> N"
    "f_bytes (of_file out) @ replicate (N - length (f_bytes (of_file out))) 0 = disk_image N (all_pieces B mem fs aux (queued q))"
    by (simp_all add: holds_def)
  then show ?thesis by (metis length_append length_replicate le_add_diff_inverse)
qed


text \<open>A small file system of eight blocks, with the two blocks queued in the wrong order.\<close>

definition w_info :: fs_info where
  "w_info = \<lparr>info_len = 8192, info_block_size = 1024\<rparr>"

definition w_aux :: fs_aux_info where
  "w_aux = \<lparr>aux_sb = replicate 1024 1, aux_bg_desc = replicate 1024 2, first_data_block = 1, bg_desc_blocks = 1\<rparr>"

definition w_blocks :: "bq_op list" where
  "w_blocks = [Queue_Block 1 1500 5, Queue_Block 0 10 4]"

definition w_mem :: memory where
  "w_mem a = replicate 2000 (if a = 0 then 3 else 4)"

definition w_files :: files where
  "w_files f off len = None"

lemma w_queue: "queued (snd (run_ops bq_step w_blocks empty_queue)) = [data_db 0 10 4, data_db 1 1500 5]"
proof -
  have "fst (run_ops bq_step w_blocks empty_queue) = replicate (length w_blocks) (Some 0) \<and>
      queued (snd (run_ops bq_step w_blocks empty_queue)) = fold (insert_by db_block) (concat (map op_block w_blocks)) []"
    by (rule spec_queue [OF _ bq.run_spec [OF empty_queue_ok(1) prod.collapse [symmetric], unfolded empty_queue_ok(2)]]) (simp add: w_blocks_def)
  then show ?thesis by (simp add: w_blocks_def data_db_def)
qed


end
